(* ===== verification/Prelude.thy ===== *)
theory Prelude
  imports Main "HOL-Library.Word" "HOL-Library.Monad_Syntax" "HOL-Library.AList"
begin

text \<open>
  Shared vocabulary of the development: names for Go's machine types, Go's partial slice
  operations as \<open>option\<close>-valued functions (\<open>None\<close> is the run-time panic), the collections
  of facts the component theories extend, and the lemmas on lists, words and finite sets
  that several components use.
\<close>

section \<open>Types\<close>

type_synonym u8 = "8 word"
type_synonym u32 = "32 word"
type_synonym u64 = "64 word"

text \<open>A Go byte slice; \<open>nil\<close> and the empty slice are both \<open>[]\<close>.\<close>

type_synonym bytes = "u8 list"

section \<open>Collections of facts\<close>

named_theorems op_defs \<open>definitions of the operations of a component\<close>
named_theorems wf_intros \<open>well-formedness is kept by an operation\<close>
named_theorems frame_simps \<open>fields an operation leaves alone\<close>

section \<open>Go slices\<close>

text \<open>\<open>xs[i]\<close>, \<open>xs[i:]\<close> and \<open>xs[:i]\<close>. Each panics when \<open>i\<close> is out of range.\<close>

definition slice_at :: "'a list \<Rightarrow> int \<Rightarrow> 'a option" where
  "slice_at xs i = (if 0 \<le> i \<and> i < int (length xs) then Some (xs ! nat i) else None)"

definition slice_from :: "'a list \<Rightarrow> int \<Rightarrow> 'a list option" where
  "slice_from xs i = (if 0 \<le> i \<and> i \<le> int (length xs) then Some (drop (nat i) xs) else None)"

definition slice_to :: "'a list \<Rightarrow> int \<Rightarrow> 'a list option" where
  "slice_to xs i = (if 0 \<le> i \<and> i \<le> int (length xs) then Some (take (nat i) xs) else None)"

text \<open>\<open>xs[i] = v\<close>.\<close>

definition slice_set :: "'a list \<Rightarrow> int \<Rightarrow> 'a \<Rightarrow> 'a list option" where
  "slice_set xs i v = (if 0 \<le> i \<and> i < int (length xs) then Some (xs[nat i := v]) else None)"

lemma slice_at_Some_iff:
  "slice_at xs i = Some x \<longleftrightarrow> 0 \<le> i \<and> i < int (length xs) \<and> x = xs ! nat i"
  by (auto simp: slice_at_def)

lemma slice_from_Some_iff:
  "slice_from xs i = Some ys \<longleftrightarrow> 0 \<le> i \<and> i \<le> int (length xs) \<and> ys = drop (nat i) xs"
  by (auto simp: slice_from_def)

lemma slice_to_Some_iff:
  "slice_to xs i = Some ys \<longleftrightarrow> 0 \<le> i \<and> i \<le> int (length xs) \<and> ys = take (nat i) xs"
  by (auto simp: slice_to_def)

lemma slice_set_Some_iff:
  "slice_set xs i v = Some ys \<longleftrightarrow> 0 \<le> i \<and> i < int (length xs) \<and> ys = xs[nat i := v]"
  by (auto simp: slice_set_def)

lemmas slice_Some_iffs =
  slice_at_Some_iff slice_from_Some_iff slice_to_Some_iff slice_set_Some_iff

section \<open>Words\<close>

text \<open>Counting up from \<open>v\<close> comes back to \<open>v\<close> only after a multiple of \<open>2 ^ 64\<close> increments.\<close>

lemma u64_no_return:
  fixes v :: u64
  assumes "0 < n" and "n < 2 ^ 64"
  shows "v + of_nat n \<noteq> v"
proof
  assume "v + of_nat n = v"
  then have "(of_nat n :: u64) = 0" by simp
  then have "(2::nat) ^ 64 dvd n" by (simp add: word_of_nat_eq_0_iff)
  with assms show False using nat_dvd_not_less by blast
qed

lemma u64_offsets_differ:
  fixes v :: u64
  assumes "i < j" and "j < 2 ^ 64"
  shows "v + of_nat i \<noteq> v + of_nat j"
proof -
  have "v + of_nat i + of_nat (j - i) \<noteq> v + of_nat i"
    using assms by (intro u64_no_return) auto
  moreover have "v + of_nat i + of_nat (j - i) = v + of_nat (i + (j - i))"
    by (simp only: of_nat_add add.assoc)
  moreover have "i + (j - i) = j" using assms by simp
  ultimately show ?thesis by metis
qed

section \<open>Finite sets\<close>

lemma majorities_meet:
  assumes "finite E" and "A \<subseteq> E" and "B \<subseteq> E"
    and "card E div 2 < card A" and "card E div 2 < card B"
  shows "A \<inter> B \<noteq> {}"
proof
  assume "A \<inter> B = {}"
  moreover have "finite A" and "finite B" using assms by (auto intro: finite_subset)
  ultimately have "card A + card B = card (A \<union> B)" by (simp add: card_Un_disjoint)
  also have "\<dots> \<le> card E" using assms by (intro card_mono) auto
  finally show False using assms(4,5) by linarith
qed

section \<open>Go maps\<close>

text \<open>Reading a Go map: a nil map has no entries.\<close>

definition go_lookup :: "('k \<rightharpoonup> 'v) option \<Rightarrow> 'k \<Rightarrow> 'v option" where
  "go_lookup m k = (case m of None \<Rightarrow> None | Some f \<Rightarrow> f k)"

text \<open>Writing a Go map: a nil map panics.\<close>

definition go_update :: "('k \<rightharpoonup> 'v) option \<Rightarrow> 'k \<Rightarrow> 'v \<Rightarrow> ('k \<rightharpoonup> 'v) option option" where
  "go_update m k v = (case m of None \<Rightarrow> None | Some f \<Rightarrow> Some (Some (f(k \<mapsto> v))))"

text \<open>A copy made entry by entry into a new map.\<close>

definition go_copy :: "('k \<rightharpoonup> 'v) option \<Rightarrow> ('k \<rightharpoonup> 'v)" where
  "go_copy m = (case m of None \<Rightarrow> Map.empty | Some f \<Rightarrow> f)"

lemma go_map_simps [simp]:
  "go_lookup None = Map.empty"
  "go_lookup (Some f) = f"
  "go_update None k v = None"
  "go_update (Some f) k v = Some (Some (f(k \<mapsto> v)))"
  "go_copy = go_lookup"
  by (auto simp: go_lookup_def go_update_def go_copy_def fun_eq_iff split: option.splits)

lemma alist_update_subset: "set (AList.update i k al) \<subseteq> insert (i, k) (set al)"
  by (induction al) auto

end
