(* ===== verification/Rpcapi.thy ===== *)
theory Rpcapi
  imports Prelude
begin

text \<open>
  The wire types of \<open>src/src/kvsrv/rpcapi/rpcapi.go\<close>: the error strings every server and
  clerk returns, and the argument and reply structs of Get and Put. \<open>Tversion\<close>, client ids
  and request ids are \<open>uint64\<close>, kept at their width.
\<close>

section \<open>Errors\<close>

text \<open>
  \<open>Err\<close> is a Go string; the constants of the package are the constructors, and \<open>ErrZero\<close> is
  the empty string a fresh reply struct carries.
\<close>

datatype Err = ErrZero | OK | ErrNoKey | ErrVersion | ErrMaybe
  | ErrWrongLeader | ErrWrongGroup | ErrRetryExhausted | ErrIllegalOperation

fun err_string :: "Err \<Rightarrow> string" where
  "err_string ErrZero = ''''"
| "err_string OK = ''OK''"
| "err_string ErrNoKey = ''ErrNoKey''"
| "err_string ErrVersion = ''ErrVersion''"
| "err_string ErrMaybe = ''ErrMaybe''"
| "err_string ErrWrongLeader = ''ErrWrongLeader''"
| "err_string ErrWrongGroup = ''ErrWrongGroup''"
| "err_string ErrRetryExhausted = ''ErrRetryExhausted''"
| "err_string ErrIllegalOperation = ''ErrIllegalOperation''"

section \<open>Argument and reply structs\<close>

type_synonym Tversion = u64

record PutArgs =
  pa_ClientId :: u64
  pa_RequestId :: u64
  pa_Key :: string
  pa_Value :: string
  pa_Version :: Tversion

record PutReply =
  pr_Err :: Err

record GetArgs =
  ga_Key :: string

record GetReply =
  gr_Value :: string
  gr_Version :: Tversion
  gr_Err :: Err

text \<open>The value a key holds, as every server keeps it.\<close>

record VersionedValue =
  vv_Value :: string
  vv_Version :: Tversion

type_synonym kvmap = "string \<rightharpoonup> VersionedValue"

lemma err_string_inj: "err_string a = err_string b \<longleftrightarrow> a = b"
  by (cases a; cases b) auto

end
