(* ===== verification/Cas_Store.thy ===== *)
theory Cas_Store
  imports Rpcapi
begin

text \<open>
  What a versioned key/value store promises: a map from keys to a value and a version, a Put
  that is a compare-and-swap on the version, and a Get. The locale \<open>cas_store\<close> is the
  interface the three servers of the repository (\<open>kvsrv\<close>, \<open>kvraft\<close>, \<open>shardgrp\<close>) implement;
  its consequences (one winner per version, versions count the successful puts) are proved
  here once.
\<close>

section \<open>The abstract store\<close>

definition spec_put :: "kvmap \<Rightarrow> PutArgs \<Rightarrow> kvmap \<times> Err" where
  "spec_put m a = (case m (pa_Key a) of
       Some v \<Rightarrow>
         if vv_Version v = pa_Version a
         then (m(pa_Key a \<mapsto> \<lparr>vv_Value = pa_Value a, vv_Version = vv_Version v + 1\<rparr>), OK)
         else (m, ErrVersion)
     | None \<Rightarrow>
         if pa_Version a = 0
         then (m(pa_Key a \<mapsto> \<lparr>vv_Value = pa_Value a, vv_Version = 1\<rparr>), OK)
         else (m, ErrNoKey))"

definition spec_get :: "kvmap \<Rightarrow> string \<Rightarrow> GetReply" where
  "spec_get m k = (case m k of
       None \<Rightarrow> \<lparr>gr_Value = '''', gr_Version = 0, gr_Err = ErrNoKey\<rparr>
     | Some v \<Rightarrow> \<lparr>gr_Value = vv_Value v, gr_Version = vv_Version v, gr_Err = OK\<rparr>)"

text \<open>The version of a key, with 0 for a key that does not exist.\<close>

definition version_of :: "kvmap \<Rightarrow> string \<Rightarrow> Tversion" where
  "version_of m k = (case m k of None \<Rightarrow> 0 | Some v \<Rightarrow> vv_Version v)"

lemma spec_put_Err:
  "snd (spec_put m a) \<in> {OK, ErrVersion, ErrNoKey}"
  by (auto simp: spec_put_def split: option.splits)

lemma spec_put_OK_iff:
  "snd (spec_put m a) = OK \<longleftrightarrow> pa_Version a = version_of m (pa_Key a)"
  by (auto simp: spec_put_def version_of_def split: option.splits)

lemma spec_put_refused:
  "snd (spec_put m a) \<noteq> OK \<Longrightarrow> fst (spec_put m a) = m"
  by (auto simp: spec_put_def split: option.splits if_splits)

lemma spec_put_version:
  "version_of (fst (spec_put m a)) k =
     version_of m k + (if snd (spec_put m a) = OK \<and> k = pa_Key a then 1 else 0)"
  by (auto simp: spec_put_def version_of_def split: option.splits)

lemma spec_put_get:
  assumes "snd (spec_put m a) = OK"
  shows "spec_get (fst (spec_put m a)) (pa_Key a) =
    \<lparr>gr_Value = pa_Value a, gr_Version = pa_Version a + 1, gr_Err = OK\<rparr>"
  using assms by (auto simp: spec_put_def spec_get_def split: option.splits if_splits)

lemma spec_put_other_key:
  "k \<noteq> pa_Key a \<Longrightarrow> fst (spec_put m a) k = m k"
  by (auto simp: spec_put_def split: option.splits)

text \<open>A sequence of puts with the replies they get.\<close>

fun spec_puts :: "kvmap \<Rightarrow> PutArgs list \<Rightarrow> kvmap \<times> Err list" where
  "spec_puts m [] = (m, [])"
| "spec_puts m (a # as) =
     (let (m', e) = spec_put m a; (m'', es) = spec_puts m' as in (m'', e # es))"

lemma spec_puts_append: "fst (spec_puts m (as @ bs)) = fst (spec_puts (fst (spec_puts m as)) bs)"
  by (induction as arbitrary: m) (simp_all add: case_prod_beta Let_def)

text \<open>The puts on key \<open>k\<close> that were answered OK.\<close>

definition wins :: "string \<Rightarrow> PutArgs list \<Rightarrow> Err list \<Rightarrow> PutArgs list" where
  "wins k as es = map fst (filter (\<lambda>(a, e). e = OK \<and> pa_Key a = k) (zip as es))"

lemma wins_Nil [simp]: "wins k [] es = []" "wins k as [] = []"
  by (simp_all add: wins_def)

lemma wins_Cons [simp]:
  "wins k (a # as) (e # es) =
     (if e = OK \<and> pa_Key a = k then a # wins k as es else wins k as es)"
  by (simp add: wins_def)

lemma length_wins_le: "length (wins k as es) \<le> length as"
  unfolding wins_def by (simp add: le_trans [OF length_filter_le])

lemma length_spec_puts: "length (snd (spec_puts m as)) = length as"
  by (induction m as rule: spec_puts.induct) (auto split: prod.splits)

text \<open>The version of a key after a run is its version before plus the number of wins.\<close>

lemma spec_puts_version:
  "version_of (fst (spec_puts m as)) k =
     version_of m k + of_nat (length (wins k as (snd (spec_puts m as))))"
proof (induction m as rule: spec_puts.induct)
  case (1 m)
  then show ?case by simp
next
  case (2 m a as)
  obtain m' e where p: "spec_put m a = (m', e)" by force
  obtain m'' es where q: "spec_puts m' as = (m'', es)" by force
  have "version_of m' k = version_of m k + (if e = OK \<and> k = pa_Key a then 1 else 0)"
    using spec_put_version [of m a k] p by simp
  moreover have "version_of m'' k = version_of m' k + of_nat (length (wins k as es))"
    using "2.IH" p q by simp
  ultimately show ?case using p q by (auto simp: algebra_simps)
qed

text \<open>
  The \<open>i\<close>-th win on a key carries the key's starting version plus \<open>i\<close>.
\<close>

lemma spec_puts_win_version:
  assumes "i < length (wins k as (snd (spec_puts m as)))"
  shows "pa_Version (wins k as (snd (spec_puts m as)) ! i) = version_of m k + of_nat i"
  using assms
proof (induction m as arbitrary: i rule: spec_puts.induct)
  case (1 m)
  then show ?case by simp
next
  case (2 m a as)
  obtain m' e where p: "spec_put m a = (m', e)" by force
  obtain m'' es where q: "spec_puts m' as = (m'', es)" by force
  have ver: "version_of m' k = version_of m k + (if e = OK \<and> k = pa_Key a then 1 else 0)"
    using spec_put_version [of m a k] p by simp
  note IH = "2.IH" [OF p [symmetric] refl, unfolded q, simplified]
  show ?case
  proof (cases "e = OK \<and> pa_Key a = k")
    case win: True
    then have "pa_Version a = version_of m k"
      using spec_put_OK_iff [of m a] p by simp
    with win IH [of "i - 1"] "2.prems" p q ver show ?thesis
      by (cases i) (auto simp: algebra_simps)
  next
    case False
    with IH [of i] "2.prems" p q ver show ?thesis by (auto simp: algebra_simps)
  qed
qed

lemma spec_puts_distinct_versions:
  assumes "length as < 2 ^ 64"
  shows "distinct (map pa_Version (wins k as (snd (spec_puts m as))))"
proof -
  let ?w = "wins k as (snd (spec_puts m as))"
  have less: "pa_Version (?w ! i) \<noteq> pa_Version (?w ! j)"
    if "i < j" and "j < length ?w" for i j
  proof -
    have "j < 2 ^ 64"
      using that length_wins_le [of k as "snd (spec_puts m as)"] assms by linarith
    then show ?thesis
      using u64_offsets_differ [of i j "version_of m k"] that
        spec_puts_win_version [of i k as m] spec_puts_win_version [of j k as m]
      by simp
  qed
  have "map pa_Version ?w ! i \<noteq> map pa_Version ?w ! j"
    if "i < length ?w" and "j < length ?w" and "i \<noteq> j" for i j
    using that less [of i j] less [of j i] by (cases "i < j") auto
  then show ?thesis by (simp add: distinct_conv_nth)
qed

text \<open>
  The puts of a list run one after the other by a server's put operation \<open>p\<close>, and that each
  of them is executed (\<open>rd\<close>) when its turn comes.
\<close>

fun run_puts :: "('s \<Rightarrow> PutArgs \<Rightarrow> 's \<times> Err) \<Rightarrow> 's \<Rightarrow> PutArgs list \<Rightarrow> 's \<times> Err list" where
  "run_puts p s [] = (s, [])"
| "run_puts p s (a # as) =
     (let (s', e) = p s a; (s'', es) = run_puts p s' as in (s'', e # es))"

lemma run_puts_append: "fst (run_puts p s (as @ bs)) = fst (run_puts p (fst (run_puts p s as)) bs)"
  by (induction as arbitrary: s) (simp_all add: case_prod_beta Let_def)

fun all_ready ::
    "('s \<Rightarrow> PutArgs \<Rightarrow> 's \<times> Err) \<Rightarrow> ('s \<Rightarrow> PutArgs \<Rightarrow> bool) \<Rightarrow> 's \<Rightarrow> PutArgs list \<Rightarrow> bool" where
  "all_ready p rd s [] = True"
| "all_ready p rd s (a # as) = (rd s a \<and> all_ready p rd (fst (p s a)) as)"

section \<open>The interface\<close>

text \<open>
  \<open>abs\<close> is the map a server state stands for; \<open>ready s a\<close> says that the server executes the
  put (it neither recognises it as a duplicate nor refuses the shard), \<open>readable s k\<close> that it
  answers reads of \<open>k\<close>. A put that is not executed leaves the map alone.
\<close>

locale cas_store =
  fixes abs :: "'s \<Rightarrow> kvmap"
    and do_put :: "'s \<Rightarrow> PutArgs \<Rightarrow> 's \<times> Err"
    and do_get :: "'s \<Rightarrow> string \<Rightarrow> GetReply"
    and ready :: "'s \<Rightarrow> PutArgs \<Rightarrow> bool"
    and readable :: "'s \<Rightarrow> string \<Rightarrow> bool"
  assumes put_refines: "ready s a \<Longrightarrow>
      abs (fst (do_put s a)) = fst (spec_put (abs s) a) \<and>
      snd (do_put s a) = snd (spec_put (abs s) a)"
    and put_skips: "\<not> ready s a \<Longrightarrow> abs (fst (do_put s a)) = abs s"
    and get_refines: "readable s k \<Longrightarrow> do_get s k = spec_get (abs s) k"
    and put_readable: "readable s k \<Longrightarrow> readable (fst (do_put s a)) k"
begin

text \<open>A put answered OK is what the next read of its key returns, one version up.\<close>

lemma put_then_get:
  assumes "ready s a" and "readable s (pa_Key a)" and "do_put s a = (s', OK)"
  shows "do_get s' (pa_Key a) =
    \<lparr>gr_Value = pa_Value a, gr_Version = pa_Version a + 1, gr_Err = OK\<rparr>"
  using assms put_refines [of s a] get_refines put_readable [of s "pa_Key a" a]
    spec_put_get [of "abs s" a]
  by (metis fst_conv snd_conv)

text \<open>A put answered with an error changes no key.\<close>

lemma put_error_no_effect:
  assumes "do_put s a = (s', e)" and "e \<noteq> OK"
  shows "abs s' = abs s"
proof (cases "ready s a")
  case True
  with assms put_refines [OF True] spec_put_refused [of "abs s" a] show ?thesis by simp
next
  case False
  with assms put_skips [OF False] show ?thesis by simp
qed

lemma puts_refine:
  "all_ready do_put ready s as \<Longrightarrow>
     abs (fst (run_puts do_put s as)) = fst (spec_puts (abs s) as) \<and>
     snd (run_puts do_put s as) = snd (spec_puts (abs s) as)"
proof (induction as arbitrary: s)
  case Nil
  then show ?case by simp
next
  case (Cons a as)
  then have "ready s a" and "all_ready do_put ready (fst (do_put s a)) as" by auto
  with Cons.IH [of "fst (do_put s a)"] put_refines [of s a] show ?case
    by (auto split: prod.splits)
qed

text \<open>Of the puts that name the same version of a key, at most one is answered OK.\<close>

lemma one_winner_per_version:
  assumes "all_ready do_put ready s as" and "length as < 2 ^ 64"
  shows "distinct (map pa_Version (wins k as (snd (run_puts do_put s as))))"
  using spec_puts_distinct_versions [OF assms(2), of k "abs s"] puts_refine [OF assms(1)]
  by simp

lemma version_counts_wins:
  assumes "all_ready do_put ready s as"
  shows "version_of (abs (fst (run_puts do_put s as))) k =
    version_of (abs s) k + of_nat (length (wins k as (snd (run_puts do_put s as))))"
  using spec_puts_version [of "abs s" as k] puts_refine [OF assms] by simp

end

end
