(* ===== verification/Kvsrv.thy ===== *)
theory Kvsrv
  imports Cas_Store
begin

text \<open>
  The unreplicated key/value server \<open>src/src/kvsrv/server.go\<close> and its clerk
  \<open>src/src/kvsrv/client.go\<close>. The server is one map under one lock, so each handler is one
  atomic step. The clerk's retry loop runs against a network that may lose a request or a
  reply, while other clients' puts reach the server between its attempts.
\<close>

section \<open>Server\<close>

record KVServer =
  kvm :: kvmap

definition MakeKVServer :: KVServer where
  "MakeKVServer = \<lparr>kvm = Map.empty\<rparr>"

definition kvsrv_Get :: "KVServer \<Rightarrow> GetArgs \<Rightarrow> GetReply" where
  "kvsrv_Get kv args =
     (case kvm kv (ga_Key args) of
        None \<Rightarrow> \<lparr>gr_Value = '''', gr_Version = 0, gr_Err = ErrNoKey\<rparr>
      | Some v \<Rightarrow> \<lparr>gr_Value = vv_Value v, gr_Version = vv_Version v, gr_Err = OK\<rparr>)"

definition kvsrv_Put :: "KVServer \<Rightarrow> PutArgs \<Rightarrow> KVServer \<times> PutReply" where
  "kvsrv_Put kv args =
     (case kvm kv (pa_Key args) of
        Some v \<Rightarrow>
          if vv_Version v = pa_Version args
          then (kv\<lparr>kvm := (kvm kv)(pa_Key args \<mapsto>
                  \<lparr>vv_Value = pa_Value args, vv_Version = vv_Version v + 1\<rparr>)\<rparr>,
                \<lparr>pr_Err = OK\<rparr>)
          else (kv, \<lparr>pr_Err = ErrVersion\<rparr>)
      | None \<Rightarrow>
          if pa_Version args = 0
          then (kv\<lparr>kvm := (kvm kv)(pa_Key args \<mapsto>
                  \<lparr>vv_Value = pa_Value args, vv_Version = 1\<rparr>)\<rparr>,
                \<lparr>pr_Err = OK\<rparr>)
          else (kv, \<lparr>pr_Err = ErrNoKey\<rparr>))"

text \<open>The server as an implementation of the versioned store.\<close>

definition kvsrv_put_err :: "KVServer \<Rightarrow> PutArgs \<Rightarrow> KVServer \<times> Err" where
  "kvsrv_put_err kv a = map_prod id pr_Err (kvsrv_Put kv a)"

definition kvsrv_get_key :: "KVServer \<Rightarrow> string \<Rightarrow> GetReply" where
  "kvsrv_get_key kv k = kvsrv_Get kv \<lparr>ga_Key = k\<rparr>"

interpretation kvsrv: cas_store kvm kvsrv_put_err kvsrv_get_key "\<lambda>_ _. True" "\<lambda>_ _. True"
  by unfold_locales
    (auto simp: kvsrv_put_err_def kvsrv_get_key_def kvsrv_Put_def kvsrv_Get_def
       spec_put_def spec_get_def split: option.splits)

section \<open>Clerk\<close>

text \<open>
  What happens to one RPC: the request is lost, the server executes it and the reply is lost,
  or the reply arrives. \<open>Call\<close> returns true in the last case only. An attempt of the clerk is
  the list of other clients' puts that the server executes before it, and its fate.
\<close>

datatype fate = RequestLost | ReplyLost | Delivered

type_synonym attempt = "PutArgs list \<times> fate"

definition others_put :: "KVServer \<Rightarrow> PutArgs list \<Rightarrow> KVServer" where
  "others_put kv as = foldl (\<lambda>kv a. fst (kvsrv_Put kv a)) kv as"

fun call_Put :: "KVServer \<Rightarrow> PutArgs \<Rightarrow> fate \<Rightarrow> KVServer \<times> PutReply option" where
  "call_Put kv args RequestLost = (kv, None)"
| "call_Put kv args ReplyLost = (fst (kvsrv_Put kv args), None)"
| "call_Put kv args Delivered = map_prod id Some (kvsrv_Put kv args)"

text \<open>
  The loop of \<open>Put\<close> after a first RPC without a reply. \<open>None\<close>: the attempts are used up and
  the loop is still running.
\<close>

fun kvsrv_Put_retry :: "KVServer \<Rightarrow> PutArgs \<Rightarrow> attempt list \<Rightarrow> (KVServer \<times> Err) option" where
  "kvsrv_Put_retry kv args [] = None"
| "kvsrv_Put_retry kv args ((others, f) # rest) =
     (case call_Put (others_put kv others) args f of
        (kv', None) \<Rightarrow> kvsrv_Put_retry kv' args rest
      | (kv', Some reply) \<Rightarrow> Some (kv', ErrMaybe))"

text \<open>The arguments the clerk's Put sends.\<close>

definition clerk_args :: "string \<Rightarrow> string \<Rightarrow> Tversion \<Rightarrow> PutArgs" where
  "clerk_args key val version = \<lparr>pa_ClientId = 0, pa_RequestId = 0, pa_Key = key,
     pa_Value = val, pa_Version = version\<rparr>"

definition kvsrv_Clerk_Put ::
    "KVServer \<Rightarrow> string \<Rightarrow> string \<Rightarrow> Tversion \<Rightarrow> attempt list \<Rightarrow> (KVServer \<times> Err) option" where
  "kvsrv_Clerk_Put kv key val version attempts =
     (case attempts of
        [] \<Rightarrow> None
      | (others, f) # rest \<Rightarrow>
          (case call_Put (others_put kv others) (clerk_args key val version) f of
             (kv', None) \<Rightarrow> kvsrv_Put_retry kv' (clerk_args key val version) rest
           | (kv', Some reply) \<Rightarrow> Some (kv', pr_Err reply)))"

text \<open>\<open>Get\<close> retries until a reply with OK or ErrNoKey arrives.\<close>

fun kvsrv_Clerk_Get :: "KVServer \<Rightarrow> string \<Rightarrow> attempt list \<Rightarrow> (string \<times> Tversion \<times> Err) option" where
  "kvsrv_Clerk_Get kv key [] = None"
| "kvsrv_Clerk_Get kv key ((others, f) # rest) =
     (let kv' = others_put kv others; reply = kvsrv_Get kv' \<lparr>ga_Key = key\<rparr>
      in if f \<noteq> Delivered then kvsrv_Clerk_Get kv' key rest
         else if gr_Err reply = ErrNoKey then Some (gr_Value reply, gr_Version reply, gr_Err reply)
         else if gr_Err reply = OK then Some (gr_Value reply, gr_Version reply, gr_Err reply)
         else kvsrv_Clerk_Get kv' key rest)"

text \<open>The puts the server executes while a clerk's Put is running, in order.\<close>

fun put_trace :: "PutArgs \<Rightarrow> attempt list \<Rightarrow> PutArgs list" where
  "put_trace args [] = []"
| "put_trace args ((others, f) # rest) =
     others @ (case f of RequestLost \<Rightarrow> put_trace args rest
               | ReplyLost \<Rightarrow> args # put_trace args rest
               | Delivered \<Rightarrow> [args])"

section \<open>Lemmas\<close>

lemma kvsrv_get_key_abs: "kvsrv_get_key kv k = spec_get (kvm kv) k"
  by (rule kvsrv.get_refines) simp

lemma kvsrv_puts_snoc_state: "fst (run_puts kvsrv_put_err kv as) = others_put kv as"
proof (induction as arbitrary: kv)
  case Nil
  then show ?case by (simp add: others_put_def)
next
  case (Cons a as)
  then show ?case
    by (simp add: others_put_def kvsrv_put_err_def case_prod_beta)
qed

lemma others_put_append: "others_put kv (as @ bs) = others_put (others_put kv as) bs"
  by (simp add: others_put_def)

lemma others_put_Cons: "others_put kv (a # as) = others_put (fst (kvsrv_Put kv a)) as"
  by (simp add: others_put_def)

lemma others_put_Nil: "others_put kv [] = kv"
  by (simp add: others_put_def)

lemmas others_put_simps = others_put_append others_put_Cons others_put_Nil

lemma kvsrv_all_ready [simp]: "all_ready p (\<lambda>_ _. True) kv as"
  by (induction as arbitrary: kv) auto

lemma kvsrv_Put_retry_state:
  "kvsrv_Put_retry kv args attempts = Some (kv', e) \<Longrightarrow>
     kv' = others_put kv (put_trace args attempts) \<and> e = ErrMaybe"
proof (induction kv args attempts rule: kvsrv_Put_retry.induct)
  case (2 kv args others f rest)
  then show ?case
    by (cases f)
      (auto simp: others_put_simps map_prod_def split: prod.splits option.splits)
qed simp

lemma kvsrv_Put_retry_returns:
  "(\<exists>r. kvsrv_Put_retry kv args attempts = Some r) \<longleftrightarrow> Delivered \<in> snd ` set attempts"
proof (induction kv args attempts rule: kvsrv_Put_retry.induct)
  case (2 kv args others f rest)
  then show ?case by (cases f) (auto simp: map_prod_def split: prod.splits option.splits)
qed simp

lemma count_list_le_1: "distinct xs \<Longrightarrow> count_list xs a \<le> 1"
  by (induction xs) auto

lemma count_wins_same_version:
  assumes "distinct (map pa_Version (wins k as es))"
  shows "count_list (wins k as es) a \<le> 1"
  using assms by (intro count_list_le_1) (simp add: distinct_map)

lemma kvsrv_put_trace_wins:
  assumes "length (put_trace args attempts) < 2 ^ 64"
  shows "count_list (wins (pa_Key args) (put_trace args attempts)
           (snd (run_puts kvsrv_put_err kv (put_trace args attempts)))) args \<le> 1"
  using assms by (intro count_wins_same_version kvsrv.one_winner_per_version) auto

lemma kvsrv_Put_Err: "pr_Err (snd (kvsrv_Put kv a)) \<in> {OK, ErrVersion, ErrNoKey}"
  by (auto simp: kvsrv_Put_def split: option.splits)

lemma kvsrv_Clerk_Put_first:
  "kvsrv_Clerk_Put kv key val version ((others, Delivered) # rest) =
     (let (kv', reply) = kvsrv_Put (others_put kv others) (clerk_args key val version)
      in Some (kv', pr_Err reply))"
  by (simp add: kvsrv_Clerk_Put_def map_prod_def split: prod.splits)

lemma kvsrv_Clerk_Put_later:
  assumes "f \<noteq> Delivered"
  shows "kvsrv_Clerk_Put kv key val version ((others, f) # rest) =
     kvsrv_Put_retry kv (clerk_args key val version) ((others, f) # rest)"
  using assms
  by (cases f) (auto simp: kvsrv_Clerk_Put_def)

section \<open>Properties\<close>

text \<open>
  C40. The clerk's Put takes effect at most once. When \<open>Put\<close> returns, the server has executed
  precisely the puts of its trace, and the clerk's own put was answered OK at most once among
  them, however often it was resent (fewer than \<open>2 ^ 64\<close> puts: versions wrap). ErrMaybe is
  returned exactly when the first RPC got no reply; any other answer is the server's own answer
  to that first RPC.
\<close>

theorem kvsrv_clerk_put_at_most_once:
  assumes "kvsrv_Clerk_Put kv key val version attempts = Some (kv', e)"
    and "length (put_trace (clerk_args key val version) attempts) < 2 ^ 64"
  shows "kv' = others_put kv (put_trace (clerk_args key val version) attempts) \<and>
    count_list (wins key (put_trace (clerk_args key val version) attempts)
      (snd (run_puts kvsrv_put_err kv (put_trace (clerk_args key val version) attempts))))
      (clerk_args key val version) \<le> 1 \<and>
    (e = ErrMaybe \<longleftrightarrow> snd (hd attempts) \<noteq> Delivered) \<and>
    (e \<noteq> ErrMaybe \<longrightarrow> e = pr_Err (snd (kvsrv_Put (others_put kv (fst (hd attempts)))
                                   (clerk_args key val version))))"
proof -
  obtain others f rest where att: "attempts = (others, f) # rest"
    using assms(1) by (cases attempts) (auto simp: kvsrv_Clerk_Put_def)
  have "kv' = others_put kv (put_trace (clerk_args key val version) attempts) \<and>
    (e = ErrMaybe \<longleftrightarrow> snd (hd attempts) \<noteq> Delivered) \<and>
    (e \<noteq> ErrMaybe \<longrightarrow> e = pr_Err (snd (kvsrv_Put (others_put kv (fst (hd attempts)))
                                   (clerk_args key val version))))"
  proof (cases "f = Delivered")
    case True
    with assms(1) att kvsrv_Put_Err [of "others_put kv others" "clerk_args key val version"]
    show ?thesis
      by (auto simp: kvsrv_Clerk_Put_first others_put_simps split: prod.splits)
  next
    case False
    with assms(1) att
      kvsrv_Put_retry_state [of kv "clerk_args key val version" attempts kv' e]
    show ?thesis by (auto simp: kvsrv_Clerk_Put_later)
  qed
  moreover have "count_list (wins key (put_trace (clerk_args key val version) attempts)
      (snd (run_puts kvsrv_put_err kv (put_trace (clerk_args key val version) attempts))))
      (clerk_args key val version) \<le> 1"
    using kvsrv_put_trace_wins [OF assms(2), of kv] by (simp add: clerk_args_def)
  ultimately show ?thesis by blast
qed

theorem kvsrv_clerk_put_at_most_once_witness:
  "kvsrv_Clerk_Put MakeKVServer ''x'' ''a'' 0
       [([], ReplyLost), ([clerk_args ''x'' ''b'' 1], RequestLost), ([], Delivered)] =
     Some (\<lparr>kvm = [''x'' \<mapsto> \<lparr>vv_Value = ''b'', vv_Version = 2\<rparr>]\<rparr>, ErrMaybe) \<and>
   count_list (wins ''x'' (put_trace (clerk_args ''x'' ''a'' 0)
       [([], ReplyLost), ([clerk_args ''x'' ''b'' 1], RequestLost), ([], Delivered)])
     (snd (run_puts kvsrv_put_err MakeKVServer (put_trace (clerk_args ''x'' ''a'' 0)
       [([], ReplyLost), ([clerk_args ''x'' ''b'' 1], RequestLost), ([], Delivered)]))))
     (clerk_args ''x'' ''a'' 0) \<le> 1"
proof -
  have run: "kvsrv_Clerk_Put MakeKVServer ''x'' ''a'' 0
       [([], ReplyLost), ([clerk_args ''x'' ''b'' 1], RequestLost), ([], Delivered)] =
     Some (\<lparr>kvm = [''x'' \<mapsto> \<lparr>vv_Value = ''b'', vv_Version = 2\<rparr>]\<rparr>, ErrMaybe)"
    by (simp add: kvsrv_Clerk_Put_def clerk_args_def kvsrv_Put_def MakeKVServer_def others_put_def)
  show ?thesis
    using run kvsrv_clerk_put_at_most_once [OF run] by simp
qed

text \<open>
  The clerk's Put returns exactly when some attempt's reply gets through: with one delivered
  attempt it stops there, and without any it keeps trying.
\<close>

lemma kvsrv_clerk_put_returns:
  "(\<exists>r. kvsrv_Clerk_Put kv key val version attempts = Some r) \<longleftrightarrow>
     Delivered \<in> snd ` set attempts"
proof (cases attempts)
  case Nil
  then show ?thesis by (simp add: kvsrv_Clerk_Put_def)
next
  case (Cons at rest)
  obtain others f where at: "at = (others, f)" by force
  show ?thesis
  proof (cases "f = Delivered")
    case True
    then show ?thesis using Cons at by (simp add: kvsrv_Clerk_Put_first split: prod.splits)
  next
    case False
    then show ?thesis using Cons at
      kvsrv_Put_retry_returns [of kv "clerk_args key val version" attempts]
      by (simp only: kvsrv_Clerk_Put_later [OF False] Cons at)
  qed
qed

end
