(* ===== verification/KvModel.thy ===== *)
theory KvModel
  imports Kvsrv "HOL-Library.Char_ord" "HOL-Library.List_Lexorder"
begin

text \<open>
  The sequential specification the test suite hands to the porcupine linearizability checker,
  \<open>src/src/models/kv.go\<close>: the partition of a history by key, the initial state of one key, and
  the step that says whether an output is allowed. The operation type of the checker itself is
  not in the repository; a history is a list of anything that carries an input.
\<close>

record KvInput =
  in_Op :: u8
  in_Key :: string
  in_Value :: string
  in_Version :: u64

record KvOutput =
  out_Value :: string
  out_Version :: u64
  out_Err :: string

record KvState =
  st_Value :: string
  st_Version :: u64

section \<open>Partition, Init and Step\<close>

text \<open>
  The Go map \<open>m\<close> from keys to sub-histories, with its keys in order of first appearance; an
  iteration over it may use any order, but the keys are sorted before they are used.
\<close>

fun group_by_key :: "('o \<Rightarrow> string) \<Rightarrow> 'o list \<Rightarrow> (string \<times> 'o list) list \<Rightarrow> (string \<times> 'o list) list" where
  "group_by_key key [] m = m"
| "group_by_key key (v # vs) m =
     (let k = key v
      in group_by_key key vs
           (case map_of m k of
              None \<Rightarrow> m @ [(k, [v])]
            | Some ops \<Rightarrow> map (\<lambda>(k', os). if k' = k then (k', os @ [v]) else (k', os)) m))"

definition KvModel_Partition :: "('o \<Rightarrow> KvInput) \<Rightarrow> 'o list \<Rightarrow> 'o list list" where
  "KvModel_Partition input history =
     (let m = group_by_key (\<lambda>v. in_Key (input v)) history [];
          keys = sort (map fst m)
      in map (\<lambda>k. the (map_of m k)) keys)"

definition KvModel_Init :: KvState where
  "KvModel_Init = \<lparr>st_Value = '''', st_Version = 0\<rparr>"

text \<open>\<open>None\<close> as the next state is the string \<open>"<invalid>"\<close> of the default branch.\<close>

definition KvModel_Step :: "KvState \<Rightarrow> KvInput \<Rightarrow> KvOutput \<Rightarrow> bool \<times> KvState option" where
  "KvModel_Step st inp out =
     (if in_Op inp = 0 then (out_Value out = st_Value st, Some st)
      else if in_Op inp = 1 then
        (if st_Version st = in_Version inp
         then (out_Err out = ''OK'' \<or> out_Err out = ''ErrMaybe'',
               Some \<lparr>st_Value = in_Value inp, st_Version = st_Version st + 1\<rparr>)
         else (out_Err out = ''ErrVersion'' \<or> out_Err out = ''ErrMaybe'', Some st))
      else (False, None))"

section \<open>Lemmas\<close>

text \<open>The grouping map: distinct keys, and each key's operations in history order.\<close>

definition grouped :: "('o \<Rightarrow> string) \<Rightarrow> 'o list \<Rightarrow> (string \<times> 'o list) list \<Rightarrow> bool" where
  "grouped key vs m \<longleftrightarrow> distinct (map fst m) \<and> set (map fst m) = key ` set vs \<and>
     (\<forall>k os. (k, os) \<in> set m \<longrightarrow> os = filter (\<lambda>v. key v = k) vs)"

lemma grouped_step:
  assumes "grouped key vs m"
  shows "grouped key (vs @ [v])
    (case map_of m (key v) of
       None \<Rightarrow> m @ [(key v, [v])]
     | Some ops \<Rightarrow> map (\<lambda>(k', os). if k' = key v then (k', os @ [v]) else (k', os)) m)"
proof (cases "map_of m (key v)")
  case None
  then have "key v \<notin> set (map fst m)" by (simp add: map_of_eq_None_iff)
  moreover from this have fresh: "key v \<notin> key ` set vs" using assms by (simp add: grouped_def)
  have "filter (\<lambda>w. key w = key v) vs = []"
  proof (rule filter_False, rule ballI)
    fix w assume "w \<in> set vs"
    then have "key w \<in> key ` set vs" by (rule imageI)
    with fresh show "key w \<noteq> key v" by metis
  qed
  ultimately show ?thesis using assms None by (auto simp: grouped_def)
next
  case (Some ops)
  define m' where "m' = map (\<lambda>(k', os). if k' = key v then (k', os @ [v]) else (k', os)) m"
  have "key v \<in> set (map fst m)" using Some map_of_eq_None_iff [of m "key v"] by auto
  moreover have keys: "map fst m' = map fst m"
    unfolding m'_def by (induction m) auto
  moreover have ops: "os = filter (\<lambda>w. key w = k) (vs @ [v])" if "(k, os) \<in> set m'" for k os
  proof -
    from that obtain os0 where "(k, os0) \<in> set m"
      and os: "os = (if k = key v then os0 @ [v] else os0)"
      by (auto simp: m'_def split: if_splits)
    then have "os0 = filter (\<lambda>w. key w = k) vs" using assms unfolding grouped_def by blast
    with os show ?thesis by auto
  qed
  ultimately have "distinct (map fst m')" and "set (map fst m') = key ` set (vs @ [v])"
    using assms unfolding grouped_def keys by auto
  then have "grouped key (vs @ [v]) m'" unfolding grouped_def using ops by blast
  then show ?thesis unfolding m'_def Some option.case .
qed

lemma grouped_group_by_key:
  "grouped key vs m \<Longrightarrow> grouped key (vs @ ws) (group_by_key key ws m)"
proof (induction ws arbitrary: vs m)
  case Nil
  then show ?case by simp
next
  case (Cons w ws)
  from Cons.IH [OF grouped_step [OF Cons.prems, of w]] show ?case by (simp add: Let_def)
qed

text \<open>The state of one key of a server, as the model sees it.\<close>

definition key_state :: "kvmap \<Rightarrow> string \<Rightarrow> KvState" where
  "key_state m k = (case m k of
       None \<Rightarrow> KvModel_Init
     | Some v \<Rightarrow> \<lparr>st_Value = vv_Value v, st_Version = vv_Version v\<rparr>)"

definition put_input :: "PutArgs \<Rightarrow> KvInput" where
  "put_input a = \<lparr>in_Op = 1, in_Key = pa_Key a, in_Value = pa_Value a, in_Version = pa_Version a\<rparr>"

definition get_input :: "string \<Rightarrow> KvInput" where
  "get_input k = \<lparr>in_Op = 0, in_Key = k, in_Value = '''', in_Version = 0\<rparr>"

definition put_output :: "Err \<Rightarrow> KvOutput" where
  "put_output e = \<lparr>out_Value = '''', out_Version = 0, out_Err = err_string e\<rparr>"

definition get_output :: "GetReply \<Rightarrow> KvOutput" where
  "get_output r = \<lparr>out_Value = gr_Value r, out_Version = gr_Version r,
     out_Err = err_string (gr_Err r)\<rparr>"

lemma key_state_spec_put:
  "key_state (fst (spec_put m a)) (pa_Key a) =
     (if st_Version (key_state m (pa_Key a)) = pa_Version a
      then \<lparr>st_Value = pa_Value a, st_Version = st_Version (key_state m (pa_Key a)) + 1\<rparr>
      else key_state m (pa_Key a))"
  by (auto simp: key_state_def spec_put_def KvModel_Init_def split: option.splits)

lemma model_step_spec_put:
  "KvModel_Step (key_state m (pa_Key a)) (put_input a) (put_output e) =
     (if st_Version (key_state m (pa_Key a)) = pa_Version a then e \<in> {OK, ErrMaybe}
      else e \<in> {ErrVersion, ErrMaybe},
      Some (key_state (fst (spec_put m a)) (pa_Key a)))"
  using err_string_inj [of e OK] err_string_inj [of e ErrMaybe] err_string_inj [of e ErrVersion]
  by (auto simp: KvModel_Step_def put_input_def put_output_def key_state_spec_put)

lemma spec_put_version_state:
  "snd (spec_put m a) = OK \<longleftrightarrow> st_Version (key_state m (pa_Key a)) = pa_Version a"
  by (auto simp: spec_put_def key_state_def KvModel_Init_def split: option.splits)

section \<open>Properties\<close>

text \<open>
  Partitioning a history keeps every operation: the parts are, in the order of their sorted
  distinct keys, exactly the sub-histories of one key each, in history order.
\<close>

lemma KvModel_Partition_by_key:
  "KvModel_Partition input history =
     map (\<lambda>k. filter (\<lambda>v. in_Key (input v) = k) history)
       (sorted_list_of_set ((\<lambda>v. in_Key (input v)) ` set history))"
proof -
  let ?key = "\<lambda>v. in_Key (input v)"
  let ?m = "group_by_key ?key history []"
  have g: "grouped ?key history ?m"
    using grouped_group_by_key [of ?key "[]" "[]" history] by (simp add: grouped_def)
  then have d: "distinct (map fst ?m)" and s: "set (map fst ?m) = ?key ` set history"
    and f: "\<And>k os. (k, os) \<in> set ?m \<Longrightarrow> os = filter (\<lambda>v. ?key v = k) history"
    unfolding grouped_def by blast+
  have "sort (map fst ?m) = sorted_list_of_set (?key ` set history)"
    unfolding s [symmetric] sorted_list_of_set_sort_remdups distinct_remdups_id [OF d] ..
  moreover have "the (map_of ?m k) = filter (\<lambda>v. ?key v = k) history"
    if "k \<in> ?key ` set history" for k
  proof -
    have "map_of ?m k \<noteq> None"
      using that s by (simp add: map_of_eq_None_iff)
    then obtain os where os: "map_of ?m k = Some os" by blast
    then show ?thesis using f [OF map_of_SomeD [OF os]] by simp
  qed
  ultimately show ?thesis unfolding KvModel_Partition_def Let_def by simp
qed

text \<open>
  The model and the server agree on every operation but one. Executing a Put at the server
  takes the key's model state to the model's next state, and the model accepts the server's
  answer exactly when it is not ErrNoKey: a Put with a non-zero version on a missing key is
  answered ErrNoKey by the server, which the model's step rejects.
\<close>

lemma kvsrv_put_follows_model:
  "KvModel_Step (key_state (kvm kv) (pa_Key a)) (put_input a)
       (put_output (pr_Err (snd (kvsrv_Put kv a)))) =
     (pr_Err (snd (kvsrv_Put kv a)) \<noteq> ErrNoKey,
      Some (key_state (kvm (fst (kvsrv_Put kv a))) (pa_Key a)))"
proof -
  have r: "kvm (fst (kvsrv_Put kv a)) = fst (spec_put (kvm kv) a)"
    "pr_Err (snd (kvsrv_Put kv a)) = snd (spec_put (kvm kv) a)"
    using kvsrv.put_refines [of kv a] by (simp_all add: kvsrv_put_err_def)
  show ?thesis
    using spec_put_Err [of "kvm kv" a]
    by (auto simp: r model_step_spec_put spec_put_version_state [symmetric])
qed

text \<open>
  Every read of the server is accepted by the model and leaves the key's state alone.
\<close>

lemma kvsrv_get_follows_model:
  "KvModel_Step (key_state (kvm kv) k) (get_input k)
       (get_output (kvsrv_Get kv \<lparr>ga_Key = k\<rparr>)) =
     (True, Some (key_state (kvm kv) k))"
  by (auto simp: KvModel_Step_def key_state_def get_input_def get_output_def kvsrv_Get_def
      KvModel_Init_def split: option.splits)

end
