(* ===== verification/Shardcfg.thy ===== *)
theory Shardcfg
  imports Prelude "HOL-Library.While_Combinator" "HOL-Library.AList" "HOL-Library.Multiset"
begin

unbundle bit_operations_syntax

text \<open>
  Shard configurations, \<open>src/src/shardkv/shardcfg/shardcfg.go\<close>: the hash that maps a key to a
  shard, the assignment of shards to groups, and the operations that change it (Join, Leave,
  Rebalance). A Go map is an association list with distinct keys, whose order is the order in
  which the run-time system happens to iterate.
\<close>

section \<open>Keys and shards\<close>

type_synonym Tshid = int
type_synonym Tnum = int
type_synonym Tgid = int

abbreviation (input) NShards :: nat where "NShards \<equiv> 12"
abbreviation (input) NumFirst :: Tnum where "NumFirst \<equiv> 1"
abbreviation (input) Gid1 :: Tgid where "Gid1 \<equiv> 1"

text \<open>Go's \<open>hash/fnv\<close>, 32-bit FNV-1a.\<close>

definition fnv32a :: "u8 list \<Rightarrow> u32" where
  "fnv32a bs = foldl (\<lambda>h b. (h XOR ucast b) * 16777619) 2166136261 bs"

definition Key2Shard :: "string \<Rightarrow> Tshid" where
  "Key2Shard key = uint (fnv32a (map of_char key)) mod int NShards"

section \<open>Configurations\<close>

record ShardConfig =
  Num :: Tnum
  Shards :: "Tgid list"
  Groups :: "(Tgid \<times> string list) list"

definition MakeShardConfig :: ShardConfig where
  "MakeShardConfig = \<lparr>Num = 0, Shards = replicate NShards 0, Groups = []\<rparr>"

definition EqualTo :: "ShardConfig \<Rightarrow> ShardConfig \<Rightarrow> bool" where
  "EqualTo cfg other =
     (if Num cfg \<noteq> Num other then False
      else list_all (\<lambda>i. Shards cfg ! i = Shards other ! i) [0..<NShards])"

definition Copy :: "ShardConfig \<Rightarrow> ShardConfig" where
  "Copy cfg = MakeShardConfig\<lparr>Num := Num cfg, Shards := Shards cfg,
     Groups := foldl (\<lambda>gs (k, srvs). AList.update k srvs gs) [] (Groups cfg)\<rparr>"

section \<open>Rebalancing\<close>

definition shard_counts :: "Tgid list \<Rightarrow> Tgid \<Rightarrow> int" where
  "shard_counts shards = foldl (\<lambda>counts g. counts(g := counts g + 1)) (\<lambda>_. 0) shards"

fun analyze_step :: "(Tgid \<Rightarrow> int) \<Rightarrow> Tgid \<times> int \<times> Tgid \<times> int \<Rightarrow> Tgid \<Rightarrow> Tgid \<times> int \<times> Tgid \<times> int" where
  "analyze_step counts (mg, mn, lg, ln) g =
     (let (lg', ln') = (if counts g < ln then (g, counts g) else (lg, ln));
          (mg', mn') = (if counts g > mn then (g, counts g) else (mg, mn))
      in (mg', mn', lg', ln'))"

definition analyze :: "ShardConfig \<Rightarrow> Tgid \<times> int \<times> Tgid \<times> int" where
  "analyze c =
     (let counts = shard_counts (Shards c); groups = sort (map fst (Groups c))
      in foldl (analyze_step counts) (-1, -1, -1, 257) groups)"

definition least :: "ShardConfig \<Rightarrow> Tgid" where
  "least c = (let (_, _, lg, _) = analyze c in lg)"

text \<open>
  The first loop of \<open>Rebalance\<close>. \<open>range cfg.Shards\<close> iterates over a copy of the array, so \<open>g\<close>
  is the shard's group before the loop; \<open>gs\<close> is what is left of that copy.
\<close>

fun assign_shards :: "ShardConfig \<Rightarrow> nat \<Rightarrow> Tgid list \<Rightarrow> ShardConfig" where
  "assign_shards cfg s [] = cfg"
| "assign_shards cfg s (g # gs) =
     (let cfg' = (if map_of (Groups cfg) g = None
                  then cfg\<lparr>Shards := (Shards cfg)[s := least cfg]\<rparr> else cfg)
      in assign_shards cfg' (Suc s) gs)"

text \<open>Move the first shard of \<open>mg\<close> to \<open>lg\<close>.\<close>

fun move_one :: "Tgid \<Rightarrow> Tgid \<Rightarrow> Tgid list \<Rightarrow> Tgid list" where
  "move_one mg lg [] = []"
| "move_one mg lg (g # gs) = (if g = mg then lg # gs else g # move_one mg lg gs)"

text \<open>The second loop; \<open>None\<close> would be a loop that does not end.\<close>

definition unbalanced :: "ShardConfig \<Rightarrow> bool" where
  "unbalanced cfg = (let (_, mn, _, ln) = analyze cfg in \<not> mn < ln + 2)"

definition move_step :: "ShardConfig \<Rightarrow> ShardConfig" where
  "move_step cfg =
     (let (mg, _, lg, _) = analyze cfg in cfg\<lparr>Shards := move_one mg lg (Shards cfg)\<rparr>)"

definition Rebalance :: "ShardConfig \<Rightarrow> ShardConfig option" where
  "Rebalance cfg =
     (if length (Groups cfg) < 1 then Some (cfg\<lparr>Shards := map (\<lambda>_. 0) (Shards cfg)\<rparr>)
      else while_option unbalanced move_step (assign_shards cfg 0 (Shards cfg)))"

section \<open>Join and Leave\<close>

text \<open>
  Both return the boolean of the source with the configuration as the call leaves it; \<open>None\<close> is
  \<open>log.Fatalf\<close>. The list of joining groups is in the order in which the Go map is iterated.
\<close>

definition shares_server :: "(Tgid \<times> string list) list \<Rightarrow> string list \<Rightarrow> bool" where
  "shares_server groups servers =
     list_ex (\<lambda>(xgid, xservers). list_ex (\<lambda>s1. list_ex (\<lambda>s2. s1 = s2) servers) xservers) groups"

fun Join_loop ::
    "ShardConfig \<Rightarrow> bool \<Rightarrow> (Tgid \<times> string list) list \<Rightarrow> (bool \<times> ShardConfig) option" where
  "Join_loop cfg changed [] =
     (if changed then Some (True, cfg\<lparr>Num := Num cfg + 1\<rparr>) else None)"
| "Join_loop cfg changed ((gid, servers) # rest) =
     (if map_of (Groups cfg) gid \<noteq> None then Some (False, cfg)
      else if shares_server (Groups cfg) servers then None
      else Join_loop (cfg\<lparr>Groups := AList.update gid servers (Groups cfg)\<rparr>) True rest)"

definition Join :: "ShardConfig \<Rightarrow> (Tgid \<times> string list) list \<Rightarrow> (bool \<times> ShardConfig) option" where
  "Join cfg servers = Join_loop cfg False servers"

fun Leave_loop :: "ShardConfig \<Rightarrow> bool \<Rightarrow> Tgid list \<Rightarrow> (bool \<times> ShardConfig) option" where
  "Leave_loop cfg changed [] =
     (if changed then Some (True, cfg\<lparr>Num := Num cfg + 1\<rparr>) else None)"
| "Leave_loop cfg changed (gid # rest) =
     (if map_of (Groups cfg) gid = None then Some (False, cfg)
      else Leave_loop (cfg\<lparr>Groups := AList.delete gid (Groups cfg)\<rparr>) True rest)"

definition Leave :: "ShardConfig \<Rightarrow> Tgid list \<Rightarrow> (bool \<times> ShardConfig) option" where
  "Leave cfg gids = Leave_loop cfg False gids"

definition JoinBalance :: "ShardConfig \<Rightarrow> (Tgid \<times> string list) list \<Rightarrow> (bool \<times> ShardConfig) option" where
  "JoinBalance cfg servers = do {
     (ok, cfg') \<leftarrow> Join cfg servers;
     if \<not> ok then Some (False, cfg')
     else do { cfg'' \<leftarrow> Rebalance cfg'; Some (True, cfg'') } }"

definition LeaveBalance :: "ShardConfig \<Rightarrow> Tgid list \<Rightarrow> (bool \<times> ShardConfig) option" where
  "LeaveBalance cfg gids = do {
     (ok, cfg') \<leftarrow> Leave cfg gids;
     if \<not> ok then Some (False, cfg')
     else do { cfg'' \<leftarrow> Rebalance cfg'; Some (True, cfg'') } }"

section \<open>Queries\<close>

text \<open>The array access of \<open>GidServers\<close> panics (\<open>None\<close>) on a shard id out of range.\<close>

definition GidServers :: "ShardConfig \<Rightarrow> Tshid \<Rightarrow> (Tgid \<times> string list \<times> bool) option" where
  "GidServers cfg sh = do {
     gid \<leftarrow> slice_at (Shards cfg) sh;
     Some (case map_of (Groups cfg) gid of
             None \<Rightarrow> (gid, [], False)
           | Some srvs \<Rightarrow> (gid, srvs, True)) }"

definition IsMember :: "ShardConfig \<Rightarrow> Tgid \<Rightarrow> bool" where
  "IsMember cfg gid = list_ex (\<lambda>g. g = gid) (Shards cfg)"

text \<open>The checks of \<open>CheckConfig\<close>; each failing one is a \<open>t.Fatalf\<close>.\<close>

definition CheckConfig :: "ShardConfig \<Rightarrow> Tgid list \<Rightarrow> bool" where
  "CheckConfig cfg groups =
     (length (Groups cfg) = length groups \<and>
      list_all (\<lambda>g. map_of (Groups cfg) g \<noteq> None) groups \<and>
      (length groups > 0 \<longrightarrow> list_all (\<lambda>g. map_of (Groups cfg) g \<noteq> None) (Shards cfg)) \<and>
      (let counts = shard_counts (Shards cfg);
           mn = foldl (\<lambda>m (g, _). if counts g < m then counts g else m) 257 (Groups cfg);
           mx = foldl (\<lambda>m (g, _). if counts g > m then counts g else m) 0 (Groups cfg)
       in \<not> mx > mn + 1))"

section \<open>Well-formed configurations\<close>

text \<open>The array has its length and the map has no duplicate keys.\<close>

definition wf_cfg :: "ShardConfig \<Rightarrow> bool" where
  "wf_cfg cfg \<longleftrightarrow> length (Shards cfg) = NShards \<and> distinct (map fst (Groups cfg))"

abbreviation gids :: "ShardConfig \<Rightarrow> Tgid set" where
  "gids cfg \<equiv> set (map fst (Groups cfg))"

lemma map_of_gids: "map_of (Groups cfg) g = None \<longleftrightarrow> g \<notin> gids cfg"
  by (simp add: map_of_eq_None_iff)

section \<open>Counting shards\<close>

lemma shard_counts_eq: "shard_counts shards g = int (count_list shards g)"
proof -
  have "foldl (\<lambda>counts g. counts(g := counts g + 1)) c shards g = c g + int (count_list shards g)"
    for c
    by (induction shards arbitrary: c) auto
  then show ?thesis by (simp add: shard_counts_def)
qed

lemma shard_counts_range:
  "0 \<le> shard_counts shards g \<and> shard_counts shards g \<le> int (length shards)"
  by (simp add: shard_counts_eq count_le_length)

text \<open>What the loop of \<open>analyze\<close> knows after a prefix of the groups.\<close>

definition analyzed :: "(Tgid \<Rightarrow> int) \<Rightarrow> Tgid list \<Rightarrow> Tgid \<times> int \<times> Tgid \<times> int \<Rightarrow> bool" where
  "analyzed counts gs r \<longleftrightarrow> (case r of (mg, mn, lg, ln) \<Rightarrow>
     if gs = [] then r = (-1, -1, -1, 257)
     else mg \<in> set gs \<and> mn = counts mg \<and> (\<forall>g \<in> set gs. counts g \<le> mn) \<and>
          lg \<in> set gs \<and> ln = counts lg \<and> (\<forall>g \<in> set gs. ln \<le> counts g))"

lemma analyzed_foldl:
  assumes "\<forall>g. 0 \<le> counts g \<and> counts g < 257"
  shows "analyzed counts gs (foldl (analyze_step counts) (-1, -1, -1, 257) gs)"
proof (induction gs rule: rev_induct)
  case Nil
  then show ?case by (simp add: analyzed_def)
next
  case (snoc g gs)
  obtain mg mn lg ln where r: "foldl (analyze_step counts) (-1, -1, -1, 257) gs = (mg, mn, lg, ln)"
    by (metis prod_cases4)
  have g: "0 \<le> counts g" "counts g < 257" using assms by auto
  show ?case
  proof (cases "gs = []")
    case True
    with g show ?thesis by (auto simp: analyzed_def)
  next
    case False
    with snoc r have "mg \<in> set gs \<and> mn = counts mg \<and> (\<forall>g \<in> set gs. counts g \<le> mn) \<and>
      lg \<in> set gs \<and> ln = counts lg \<and> (\<forall>g \<in> set gs. ln \<le> counts g)"
      unfolding analyzed_def by auto
    then show ?thesis using r by (force simp: analyzed_def)
  qed
qed

lemma analyze_correct:
  assumes "wf_cfg cfg" and "Groups cfg \<noteq> []" and "analyze cfg = (mg, mn, lg, ln)"
  shows "mg \<in> gids cfg" and "mn = int (count_list (Shards cfg) mg)"
    and "\<And>g. g \<in> gids cfg \<Longrightarrow> int (count_list (Shards cfg) g) \<le> mn"
    and "lg \<in> gids cfg" and "ln = int (count_list (Shards cfg) lg)"
    and "\<And>g. g \<in> gids cfg \<Longrightarrow> ln \<le> int (count_list (Shards cfg) g)"
proof -
  have "0 \<le> shard_counts (Shards cfg) g \<and> shard_counts (Shards cfg) g < 257" for g
    using shard_counts_range [of "Shards cfg" g] assms(1) by (simp add: wf_cfg_def)
  then have "analyzed (shard_counts (Shards cfg)) (sort (map fst (Groups cfg))) (mg, mn, lg, ln)"
    using analyzed_foldl [of "shard_counts (Shards cfg)" "sort (map fst (Groups cfg))"] assms(3)
    by (simp add: analyze_def)
  moreover have "sort (map fst (Groups cfg)) \<noteq> []"
    using assms(2) by (metis map_is_Nil_conv set_empty set_sort)
  ultimately show "mg \<in> gids cfg" and "mn = int (count_list (Shards cfg) mg)"
    and "\<And>g. g \<in> gids cfg \<Longrightarrow> int (count_list (Shards cfg) g) \<le> mn"
    and "lg \<in> gids cfg" and "ln = int (count_list (Shards cfg) lg)"
    and "\<And>g. g \<in> gids cfg \<Longrightarrow> ln \<le> int (count_list (Shards cfg) g)"
    by (auto simp: analyzed_def shard_counts_eq)
qed

lemma least_in_gids: "wf_cfg cfg \<Longrightarrow> Groups cfg \<noteq> [] \<Longrightarrow> least cfg \<in> gids cfg"
  using analyze_correct(4) [of cfg] by (force simp: least_def split: prod.splits)

section \<open>The loops of Rebalance\<close>

lemma assign_shards_correct:
  assumes "wf_cfg cfg" and "Groups cfg \<noteq> []"
    and "Shards cfg = pre @ gs" and "set pre \<subseteq> gids cfg"
  shows "wf_cfg (assign_shards cfg (length pre) gs) \<and>
    Groups (assign_shards cfg (length pre) gs) = Groups cfg \<and>
    Num (assign_shards cfg (length pre) gs) = Num cfg \<and>
    set (Shards (assign_shards cfg (length pre) gs)) \<subseteq> gids cfg"
  using assms
proof (induction gs arbitrary: cfg pre)
  case Nil
  then show ?case by simp
next
  case (Cons g gs)
  define h where "h = (if g \<in> gids cfg then g else least cfg)"
  define cfg' where "cfg' = cfg\<lparr>Shards := (pre @ [h]) @ gs\<rparr>"
  have "cfg' = (if map_of (Groups cfg) g = None
      then cfg\<lparr>Shards := (Shards cfg)[length pre := least cfg]\<rparr> else cfg)"
  proof (cases "g \<in> gids cfg")
    case True
    then have "cfg' = cfg\<lparr>Shards := Shards cfg\<rparr>"
      unfolding cfg'_def h_def Cons.prems(3) by simp
    with True show ?thesis by (simp add: map_of_gids)
  next
    case False
    then show ?thesis unfolding cfg'_def h_def Cons.prems(3) by (simp add: map_of_gids)
  qed
  then have step: "assign_shards cfg (length pre) (g # gs) = assign_shards cfg' (length (pre @ [h])) gs"
    by simp
  have "h \<in> gids cfg" using least_in_gids Cons.prems by (simp add: h_def)
  then have "wf_cfg cfg'" and "Groups cfg' \<noteq> []" and "set (pre @ [h]) \<subseteq> gids cfg'"
    using Cons.prems by (auto simp: cfg'_def wf_cfg_def)
  then have "wf_cfg (assign_shards cfg' (length (pre @ [h])) gs) \<and>
    Groups (assign_shards cfg' (length (pre @ [h])) gs) = Groups cfg' \<and>
    Num (assign_shards cfg' (length (pre @ [h])) gs) = Num cfg' \<and>
    set (Shards (assign_shards cfg' (length (pre @ [h])) gs)) \<subseteq> gids cfg'"
    by (intro Cons.IH) (simp_all add: cfg'_def)
  then show ?case unfolding step by (simp add: cfg'_def)
qed

lemma count_move_one:
  assumes "mg \<in> set shards" and "mg \<noteq> lg"
  shows "count_list (move_one mg lg shards) g + (if g = mg then 1 else 0) =
    count_list shards g + (if g = lg then 1 else 0)"
  using assms by (induction shards) auto

lemma set_move_one: "set (move_one mg lg shards) \<subseteq> insert lg (set shards)"
  by (induction shards) auto

lemma length_move_one [simp]: "length (move_one mg lg shards) = length shards"
  by (induction shards) auto

text \<open>The loop's invariant, and the sum of squared loads it lowers.\<close>

definition balancing :: "ShardConfig \<Rightarrow> ShardConfig \<Rightarrow> bool" where
  "balancing cfg0 cfg \<longleftrightarrow> wf_cfg cfg \<and> Groups cfg = Groups cfg0 \<and> Num cfg = Num cfg0 \<and>
     Groups cfg \<noteq> [] \<and> set (Shards cfg) \<subseteq> gids cfg"

definition load :: "ShardConfig \<Rightarrow> nat" where
  "load cfg = (\<Sum>g \<in> gids cfg. (count_list (Shards cfg) g)\<^sup>2)"

lemma squares_decrease:
  fixes f f' :: "'a \<Rightarrow> nat"
  assumes "finite S" and "a \<in> S" and "b \<in> S" and "a \<noteq> b" and "f b + 2 \<le> f a"
    and "f' a + 1 = f a" and "f' b = f b + 1"
    and "\<And>x. x \<in> S \<Longrightarrow> x \<noteq> a \<Longrightarrow> x \<noteq> b \<Longrightarrow> f' x = f x"
  shows "(\<Sum>x \<in> S. (f' x)\<^sup>2) < (\<Sum>x \<in> S. (f x)\<^sup>2)"
proof -
  let ?R = "S - {a} - {b}"
  have split: "(\<Sum>x \<in> S. g x) = g a + g b + (\<Sum>x \<in> ?R. g x)" for g :: "'a \<Rightarrow> nat"
    using assms(1-4) by (simp add: sum.remove [of S a] sum.remove [of "S - {a}" b])
  have "(\<Sum>x \<in> ?R. (f' x)\<^sup>2) = (\<Sum>x \<in> ?R. (f x)\<^sup>2)"
    by (rule sum.cong) (auto simp: assms(8))
  moreover have "(f' a)\<^sup>2 + (f' b)\<^sup>2 < (f a)\<^sup>2 + (f b)\<^sup>2"
  proof -
    obtain d where d: "f a = f b + 2 + d" using assms(5) le_Suc_ex by blast
    with assms(6) have "f' a = f b + 1 + d" by simp
    with d assms(7) show ?thesis by (simp add: power2_eq_square algebra_simps)
  qed
  ultimately show ?thesis by (simp add: split)
qed

lemma move_step_balancing:
  assumes "balancing cfg0 cfg" and "unbalanced cfg"
  shows "balancing cfg0 (move_step cfg) \<and> load (move_step cfg) < load cfg"
proof -
  obtain mg mn lg ln where an: "analyze cfg = (mg, mn, lg, ln)" by (metis prod_cases4)
  have wf: "wf_cfg cfg" and ne: "Groups cfg \<noteq> []" and sub: "set (Shards cfg) \<subseteq> gids cfg"
    using assms(1) by (auto simp: balancing_def)
  note an_facts = analyze_correct [OF wf ne an]
  have gap: "count_list (Shards cfg) lg + 2 \<le> count_list (Shards cfg) mg"
    using assms(2) an an_facts(2,5) by (simp add: unbalanced_def)
  then have neq: "mg \<noteq> lg" by auto
  have "mg \<in> set (Shards cfg)" using gap by (metis count_list_0_iff add_2_eq_Suc' not_less_eq_eq zero_le)
  note cnt = count_move_one [OF this neq]
  have ms: "move_step cfg = cfg\<lparr>Shards := move_one mg lg (Shards cfg)\<rparr>"
    by (simp add: move_step_def an)
  have "balancing cfg0 (move_step cfg)"
    using assms(1) set_move_one [of mg lg "Shards cfg"] an_facts(4) sub
    by (auto simp: ms balancing_def wf_cfg_def)
  moreover have "load (move_step cfg) < load cfg"
  proof -
    have "count_list (move_one mg lg (Shards cfg)) g = count_list (Shards cfg) g"
      if "g \<noteq> mg" and "g \<noteq> lg" for g
      using cnt [of g] that by simp
    then have "(\<Sum>g \<in> gids cfg. (count_list (move_one mg lg (Shards cfg)) g)\<^sup>2)
        < (\<Sum>g \<in> gids cfg. (count_list (Shards cfg) g)\<^sup>2)"
      using an_facts(1,4) neq gap cnt [of mg] cnt [of lg]
      by (intro squares_decrease [of _ mg lg]) auto
    then show ?thesis by (simp add: load_def ms)
  qed
  ultimately show ?thesis by blast
qed

lemma balance_loop:
  assumes "balancing cfg0 cfg"
  obtains cfg' where "while_option unbalanced move_step cfg = Some cfg'"
    and "balancing cfg0 cfg'" and "\<not> unbalanced cfg'"
proof -
  from assms obtain cfg' where t: "while_option unbalanced move_step cfg = Some cfg'"
    using measure_while_option_Some [of "balancing cfg0" unbalanced move_step load cfg]
      move_step_balancing by blast
  moreover have "balancing cfg0 cfg'"
    using while_option_rule [where P = "balancing cfg0", OF _ t assms] move_step_balancing
    by blast
  moreover have "\<not> unbalanced cfg'" by (rule while_option_stop [OF t])
  ultimately show thesis by (rule that)
qed

lemma Rebalance_returns:
  assumes "wf_cfg cfg" and "Groups cfg \<noteq> []"
  obtains cfg' where "Rebalance cfg = Some cfg'" and "balancing cfg cfg'" and "\<not> unbalanced cfg'"
proof -
  have "balancing cfg (assign_shards cfg 0 (Shards cfg))"
    using assign_shards_correct [OF assms, of "[]" "Shards cfg"] assms
    by (simp add: balancing_def)
  then obtain cfg' where "while_option unbalanced move_step (assign_shards cfg 0 (Shards cfg)) = Some cfg'"
    and "balancing cfg cfg'" and "\<not> unbalanced cfg'"
    by (rule balance_loop)
  with assms(2) that show thesis by (simp add: Rebalance_def)
qed

section \<open>Balance\<close>

lemma foldl_min_ge:
  fixes counts :: "Tgid \<Rightarrow> int"
  assumes "b \<le> m" and "\<forall>(g, x) \<in> set gs. b \<le> counts g"
  shows "b \<le> foldl (\<lambda>m (g, _). if counts g < m then counts g else m) m gs"
  using assms by (induction gs arbitrary: m) auto

lemma foldl_max_le:
  fixes counts :: "Tgid \<Rightarrow> int"
  assumes "m \<le> b" and "\<forall>(g, x) \<in> set gs. counts g \<le> b"
  shows "foldl (\<lambda>m (g, _). if counts g > m then counts g else m) m gs \<le> b"
  using assms by (induction gs arbitrary: m) auto

lemma foldl_min_le:
  fixes counts :: "Tgid \<Rightarrow> int"
  shows "foldl (\<lambda>m (g, _). if counts g < m then counts g else m) m gs \<le> m"
    and "(g, x) \<in> set gs \<Longrightarrow> foldl (\<lambda>m (g, _). if counts g < m then counts g else m) m gs \<le> counts g"
proof -
  show base: "foldl (\<lambda>m (g, _). if counts g < m then counts g else m) m gs \<le> m"
    for m and gs :: "(Tgid \<times> 'x) list"
  proof (induction gs arbitrary: m)
    case (Cons p gs)
    from Cons.IH [of "if counts (fst p) < m then counts (fst p) else m"] show ?case
      by (simp add: case_prod_beta split: if_splits)
  qed simp
  show "(g, x) \<in> set gs \<Longrightarrow>
    foldl (\<lambda>m (g, _). if counts g < m then counts g else m) m gs \<le> counts g"
  proof (induction gs arbitrary: m)
    case (Cons p gs)
    show ?case
    proof (cases "p = (g, x)")
      case True
      then show ?thesis
        using base [of "if counts g < m then counts g else m" gs] by (simp split: if_splits)
    next
      case False
      then show ?thesis using Cons by (simp add: case_prod_beta)
    qed
  qed simp
qed

lemma foldl_max_ge:
  fixes counts :: "Tgid \<Rightarrow> int"
  assumes "(g, x) \<in> set gs"
  shows "counts g \<le> foldl (\<lambda>m (g, _). if counts g > m then counts g else m) m gs"
proof -
  have "foldl (\<lambda>m (g, _). if - counts g < m then - counts g else m) (- m) gs =
      - foldl (\<lambda>m (g, _). if counts g > m then counts g else m) m gs"
  proof (induction gs arbitrary: m)
    case (Cons p gs)
    from Cons [of "if counts (fst p) > m then counts (fst p) else m"] show ?case
      by (simp add: case_prod_beta split: if_splits)
  qed simp
  with foldl_min_le(2) [OF assms, of "\<lambda>g. - counts g" "- m"] show ?thesis by simp
qed

text \<open>\<open>unbalanced\<close> in terms of the loads of the groups.\<close>

lemma unbalanced_iff:
  assumes "wf_cfg cfg" and "Groups cfg \<noteq> []"
  shows "\<not> unbalanced cfg \<longleftrightarrow>
    (\<forall>g \<in> gids cfg. \<forall>h \<in> gids cfg. count_list (Shards cfg) g \<le> count_list (Shards cfg) h + 1)"
    (is "_ \<longleftrightarrow> ?even")
proof -
  obtain mg mn lg ln where an: "analyze cfg = (mg, mn, lg, ln)" by (metis prod_cases4)
  note f = analyze_correct [OF assms an]
  have "\<not> unbalanced cfg \<longleftrightarrow> mn < ln + 2" by (simp add: unbalanced_def an)
  also have "\<dots> \<longleftrightarrow> ?even"
  proof
    assume lt: "mn < ln + 2"
    show ?even
    proof (intro ballI)
      fix g h assume "g \<in> gids cfg" and "h \<in> gids cfg"
      with lt f(3) [of g] f(6) [of h] show "count_list (Shards cfg) g \<le> count_list (Shards cfg) h + 1"
        by linarith
    qed
  next
    assume ?even
    with f(1,4) have "count_list (Shards cfg) mg \<le> count_list (Shards cfg) lg + 1" by blast
    with f(2,5) show "mn < ln + 2" by linarith
  qed
  finally show ?thesis .
qed

lemma CheckConfig_balanced:
  assumes "wf_cfg cfg" and "Groups cfg \<noteq> []" and "set (Shards cfg) \<subseteq> gids cfg"
  shows "CheckConfig cfg (map fst (Groups cfg)) \<longleftrightarrow> \<not> unbalanced cfg"
proof -
  let ?c = "shard_counts (Shards cfg)"
  let ?mn = "foldl (\<lambda>m (g, _). if ?c g < m then ?c g else m) 257 (Groups cfg)"
  let ?mx = "foldl (\<lambda>m (g, _). if ?c g > m then ?c g else m) 0 (Groups cfg)"
  obtain mg mn lg ln where an: "analyze cfg = (mg, mn, lg, ln)" by (metis prod_cases4)
  note f = analyze_correct [OF assms(1,2) an]
  have c: "?c g = int (count_list (Shards cfg) g)" for g by (rule shard_counts_eq)
  have le: "ln \<le> 257"
    using f(5) assms(1) count_le_length [of "Shards cfg" lg] by (simp add: wf_cfg_def)
  have "?mx = mn"
  proof (rule antisym)
    show "?mx \<le> mn" by (rule foldl_max_le) (use f(2,3) in \<open>force simp: c\<close>)+
    show "mn \<le> ?mx" using foldl_max_ge [of mg _ "Groups cfg" ?c 0] f(1,2) c by auto
  qed
  moreover have "?mn = ln"
  proof (rule antisym)
    show "ln \<le> ?mn" by (rule foldl_min_ge) (use f(6) le in \<open>force simp: c\<close>)+
    show "?mn \<le> ln" using foldl_min_le(2) [of lg _ "Groups cfg" ?c 257] f(4,5) c by auto
  qed
  moreover have "list_all (\<lambda>g. map_of (Groups cfg) g \<noteq> None) (map fst (Groups cfg))"
    and "list_all (\<lambda>g. map_of (Groups cfg) g \<noteq> None) (Shards cfg)"
    using assms(3) by (auto simp: list_all_iff map_of_gids)
  ultimately show ?thesis by (auto simp: CheckConfig_def unbalanced_def an Let_def)
qed

section \<open>Which shards move\<close>

lemma count_list_update:
  assumes "i < length xs"
  shows "count_list (xs[i := y]) g + (if xs ! i = g then 1 else 0) =
    count_list xs g + (if y = g then 1 else 0)"
  using assms
proof (induction xs arbitrary: i)
  case (Cons x xs)
  show ?case
  proof (cases i)
    case (Suc j)
    with Cons.IH [of j] Cons.prems show ?thesis by (auto split: if_splits)
  qed simp
qed simp

text \<open>Giving an unassigned shard to the least loaded group keeps the loads within one.\<close>

lemma assign_least_balanced:
  assumes "wf_cfg cfg" and "Groups cfg \<noteq> []" and "\<not> unbalanced cfg"
    and "s < NShards" and "Shards cfg ! s \<notin> gids cfg"
  shows "\<not> unbalanced (cfg\<lparr>Shards := (Shards cfg)[s := least cfg]\<rparr>)"
proof -
  let ?c = "count_list (Shards cfg)" and ?c' = "count_list ((Shards cfg)[s := least cfg])"
  obtain mg mn lg ln where an: "analyze cfg = (mg, mn, lg, ln)" by (metis prod_cases4)
  note f = analyze_correct [OF assms(1,2) an]
  have lg: "least cfg = lg" by (simp add: least_def an)
  have even: "?c g \<le> ?c h + 1" if "g \<in> gids cfg" and "h \<in> gids cfg" for g h
    using assms(3) that unbalanced_iff [OF assms(1,2)] by blast
  have min: "?c lg \<le> ?c h" if "h \<in> gids cfg" for h
    using f(5,6) that by fastforce
  have c': "?c' g = ?c g + (if g = lg then 1 else 0)" if "g \<in> gids cfg" for g
    using count_list_update [of s "Shards cfg" lg g] assms(1,4,5) that lg
    by (auto simp: wf_cfg_def split: if_splits)
  have "?c' g \<le> ?c' h + 1" if "g \<in> gids cfg" and "h \<in> gids cfg" for g h
    using c' [OF that(1)] c' [OF that(2)] even [OF that] min [OF that(2)]
    by (auto split: if_splits)
  then show ?thesis
    using unbalanced_iff [of "cfg\<lparr>Shards := (Shards cfg)[s := least cfg]\<rparr>"] assms(1,2)
    by (simp add: wf_cfg_def)
qed

lemma assign_shards_keeps:
  assumes "wf_cfg cfg" and "Groups cfg \<noteq> []" and "\<not> unbalanced cfg"
    and "Shards cfg = pre @ gs"
  shows "\<not> unbalanced (assign_shards cfg (length pre) gs) \<and>
    (\<forall>s < NShards. Shards cfg ! s \<in> gids cfg \<or> s < length pre \<longrightarrow>
       Shards (assign_shards cfg (length pre) gs) ! s = Shards cfg ! s)"
  using assms
proof (induction gs arbitrary: cfg pre)
  case Nil
  then show ?case by simp
next
  case (Cons g gs)
  have at: "Shards cfg ! length pre = g" and len: "length pre < NShards"
    using Cons.prems(1,4) by (auto simp: wf_cfg_def nth_append)
  show ?case
  proof (cases "g \<in> gids cfg")
    case True
    with Cons.IH [of cfg "pre @ [g]"] Cons.prems show ?thesis
      by (auto simp: map_of_gids)
  next
    case False
    let ?cfg = "cfg\<lparr>Shards := (Shards cfg)[length pre := least cfg]\<rparr>"
    have "\<not> unbalanced ?cfg"
      using assign_least_balanced [OF Cons.prems(1-3) len] at False by simp
    moreover have "wf_cfg ?cfg" and "Groups ?cfg \<noteq> []"
      and "Shards ?cfg = (pre @ [least cfg]) @ gs"
      using Cons.prems(1,2,4) by (auto simp: wf_cfg_def)
    ultimately have "\<not> unbalanced (assign_shards ?cfg (length (pre @ [least cfg])) gs) \<and>
      (\<forall>s < NShards. Shards ?cfg ! s \<in> gids ?cfg \<or> s < length (pre @ [least cfg]) \<longrightarrow>
       Shards (assign_shards ?cfg (length (pre @ [least cfg])) gs) ! s = Shards ?cfg ! s)"
      by (intro Cons.IH) auto
    moreover have "assign_shards cfg (length pre) (g # gs) =
        assign_shards ?cfg (length (pre @ [least cfg])) gs"
      using False by (simp add: map_of_gids)
    moreover have "Shards ?cfg ! s = Shards cfg ! s" if "s \<noteq> length pre" for s
      using that by simp
    ultimately show ?thesis using at False
      by (metis (no_types, lifting) length_append_singleton less_SucI less_irrefl
          ShardConfig.select_convs(3) ShardConfig.surjective ShardConfig.update_convs(2))
  qed
qed

lemma Leave_one:
  "Leave cfg [gid] =
     (if gid \<in> gids cfg
      then Some (True, cfg\<lparr>Num := Num cfg + 1, Groups := AList.delete gid (Groups cfg)\<rparr>)
      else Some (False, cfg))"
  by (auto simp: Leave_def map_of_gids map_of_eq_None_iff)

lemma gids_delete [simp]: "fst ` set (AList.delete gid gs) = fst ` set gs - {gid}"
  by (auto simp: AList.delete_eq)

lemma wf_cfg_leave:
  "wf_cfg cfg \<Longrightarrow> wf_cfg (cfg\<lparr>Num := n, Groups := AList.delete gid (Groups cfg)\<rparr>)"
  by (simp add: wf_cfg_def AList.distinct_delete)

text \<open>
  Removing a group from a balanced configuration leaves the others balanced, so the second loop
  of Rebalance has nothing to do.
\<close>

lemma Rebalance_after_leave:
  assumes wf: "wf_cfg cfg" and bal: "\<not> unbalanced cfg" and ne: "gids cfg - {gid} \<noteq> {}"
    and c1: "c1 = cfg\<lparr>Num := n, Groups := AList.delete gid (Groups cfg)\<rparr>"
  shows "Rebalance c1 = Some (assign_shards c1 0 (Shards c1)) \<and>
    (\<forall>s < NShards. Shards cfg ! s \<in> gids cfg - {gid} \<longrightarrow>
       Shards (assign_shards c1 0 (Shards c1)) ! s = Shards cfg ! s)"
proof -
  have g1: "gids c1 = gids cfg - {gid}" by (simp add: c1)
  with ne have ne1: "Groups c1 \<noteq> []" by auto
  have wf1: "wf_cfg c1" unfolding c1 by (rule wf_cfg_leave [OF wf])
  have "Groups cfg \<noteq> []" using ne by auto
  then have "\<not> unbalanced c1"
    using bal unbalanced_iff [OF wf] unbalanced_iff [OF wf1 ne1] g1 by (auto simp: c1)
  from assign_shards_keeps [OF wf1 ne1 this, of "[]" "Shards c1"]
  have "\<not> unbalanced (assign_shards c1 0 (Shards c1))"
    and keep: "\<forall>s < NShards. Shards c1 ! s \<in> gids c1 \<longrightarrow>
       Shards (assign_shards c1 0 (Shards c1)) ! s = Shards c1 ! s"
    by auto
  then have "Rebalance c1 = Some (assign_shards c1 0 (Shards c1))"
    using ne1 by (cases "Groups c1") (auto simp: Rebalance_def while_option_unfold)
  with keep g1 show ?thesis by (simp add: c1)
qed

text \<open>The order of the groups does not matter to any step of Rebalance.\<close>

lemma analyze_reorder:
  assumes "mset gs = mset (Groups cfg)"
  shows "analyze (cfg\<lparr>Groups := gs\<rparr>) = analyze cfg"
proof -
  have "sort (map fst gs) = sort (map fst (Groups cfg))"
    using assms by (metis mset_map properties_for_sort mset_sort sorted_sort)
  then show ?thesis by (simp add: analyze_def)
qed

lemma map_of_reorder:
  assumes "mset gs = mset gs'" and "distinct (map fst gs')"
  shows "map_of gs g = map_of gs' g"
proof (rule map_of_eqI [THEN fun_cong])
  have s: "set gs = set gs'" using assms(1) by (rule mset_eq_setD)
  then show "set (map fst gs) = set (map fst gs')" by simp
  have "distinct (map fst gs)" using assms by (metis mset_map mset_eq_imp_distinct_iff)
  then show "\<forall>k \<in> set (map fst gs). map_of gs k = map_of gs' k"
    using s assms(2) by (metis map_of_inject_set)
qed

lemma assign_shards_reorder:
  assumes "mset gs = mset (Groups cfg)" and "distinct (map fst (Groups cfg))"
  shows "assign_shards (cfg\<lparr>Groups := gs\<rparr>) s xs = (assign_shards cfg s xs)\<lparr>Groups := gs\<rparr>"
  using assms
proof (induction xs arbitrary: cfg s)
  case Nil
  then show ?case by simp
next
  case (Cons g xs)
  have l: "least (cfg\<lparr>Groups := gs\<rparr>) = least cfg"
    using analyze_reorder [OF Cons.prems(1)] by (simp add: least_def)
  have m: "map_of gs g = map_of (Groups cfg) g" by (rule map_of_reorder [OF Cons.prems])
  show ?case
  proof (cases "map_of (Groups cfg) g = None")
    case True
    have "cfg\<lparr>Groups := gs, Shards := t\<rparr> = cfg\<lparr>Shards := t, Groups := gs\<rparr>" for t
      by (cases cfg) simp
    note this [simp]
    from True Cons.IH [of "cfg\<lparr>Shards := (Shards cfg)[s := least cfg]\<rparr>" "Suc s"] Cons.prems l m
    show ?thesis by simp
  next
    case False
    then obtain v where "map_of (Groups cfg) g = Some v" by blast
    with Cons.IH [of cfg "Suc s"] Cons.prems m show ?thesis by simp
  qed
qed

lemma assign_shards_Groups [simp]: "Groups (assign_shards cfg s xs) = Groups cfg"
  by (induction xs arbitrary: cfg s) (simp_all add: Let_def)

lemma Rebalance_reorder:
  assumes "wf_cfg cfg" and "mset gs = mset (Groups cfg)"
  shows "Rebalance (cfg\<lparr>Groups := gs\<rparr>) = map_option (\<lambda>c. c\<lparr>Groups := gs\<rparr>) (Rebalance cfg)"
proof -
  let ?f = "\<lambda>c. c\<lparr>Groups := gs\<rparr>" and ?P = "\<lambda>c. mset gs = mset (Groups c)"
  let ?a = "assign_shards cfg 0 (Shards cfg)"
  have len: "length gs = length (Groups cfg)" using assms(2) by (rule mset_eq_length)
  have "map_option ?f (while_option unbalanced move_step ?a) =
      while_option unbalanced move_step (?f ?a)"
  proof (rule while_option_commute_invariant [where P = ?P])
    show "?P ?a" using assms(2) by simp
  qed (auto simp: unbalanced_def move_step_def analyze_reorder split: prod.splits)
  then show ?thesis
    using len assms
      assign_shards_reorder [OF assms(2), of 0 "Shards cfg"]
    by (auto simp: Rebalance_def wf_cfg_def)
qed

section \<open>Properties\<close>

text \<open>
  C38. Rebalance always ends, and its result passes the repository's own \<open>CheckConfig\<close>: the groups
  and the configuration number are unchanged, every shard belongs to a member group, and the
  loads of any two groups differ by at most one.
\<close>

theorem Rebalance_correct:
  assumes "wf_cfg cfg"
  shows "\<exists>cfg'. Rebalance cfg = Some cfg' \<and> wf_cfg cfg' \<and> Groups cfg' = Groups cfg \<and>
    Num cfg' = Num cfg \<and> CheckConfig cfg' (map fst (Groups cfg))"
proof (cases "Groups cfg = []")
  case True
  with assms show ?thesis by (simp add: Rebalance_def wf_cfg_def CheckConfig_def)
next
  case False
  with assms obtain cfg' where r: "Rebalance cfg = Some cfg'" "balancing cfg cfg'" "\<not> unbalanced cfg'"
    by (rule Rebalance_returns)
  then have "CheckConfig cfg' (map fst (Groups cfg'))"
    using CheckConfig_balanced [of cfg'] unfolding balancing_def by blast
  with r show ?thesis by (auto simp: balancing_def)
qed

theorem Rebalance_correct_witness:
  "wf_cfg \<lparr>Num = 3, Shards = replicate 12 1, Groups = [(2, [''b'']), (1, [''a''])]\<rparr> \<and>
   (\<exists>cfg'. Rebalance \<lparr>Num = 3, Shards = replicate 12 1, Groups = [(2, [''b'']), (1, [''a''])]\<rparr>
      = Some cfg' \<and> CheckConfig cfg' [2, 1])"
proof -
  have "wf_cfg \<lparr>Num = 3, Shards = replicate 12 1, Groups = [(2, [''b'']), (1, [''a''])]\<rparr>"
    by (simp add: wf_cfg_def)
  from this Rebalance_correct [OF this] show ?thesis by auto
qed

text \<open>
  C39. When a group leaves a configuration that passes \<open>CheckConfig\<close>, only its own shards move:
  the call succeeds with the next configuration number, every shard of every other group stays
  where it is, and the result again passes \<open>CheckConfig\<close>.
\<close>

theorem LeaveBalance_moves_only_leaving:
  assumes "wf_cfg cfg" and "CheckConfig cfg (map fst (Groups cfg))"
    and "gid \<in> gids cfg" and "gids cfg \<noteq> {gid}"
  shows "\<exists>cfg'. LeaveBalance cfg [gid] = Some (True, cfg') \<and> Num cfg' = Num cfg + 1 \<and>
    gids cfg' = gids cfg - {gid} \<and>
    (\<forall>s < NShards. Shards cfg ! s \<noteq> gid \<longrightarrow> Shards cfg' ! s = Shards cfg ! s) \<and>
    CheckConfig cfg' (map fst (Groups cfg'))"
proof -
  let ?c1 = "cfg\<lparr>Num := Num cfg + 1, Groups := AList.delete gid (Groups cfg)\<rparr>"
  let ?c2 = "assign_shards ?c1 0 (Shards ?c1)"
  have gne: "Groups cfg \<noteq> []" using assms(3) by auto
  have all: "set (Shards cfg) \<subseteq> gids cfg"
    using assms(2) gne by (auto simp: CheckConfig_def list_all_iff map_of_gids)
  then have bal: "\<not> unbalanced cfg" using CheckConfig_balanced assms(1,2) gne by blast
  have ne: "gids cfg - {gid} \<noteq> {}" using assms(3,4) by auto
  note r = Rebalance_after_leave [OF assms(1) bal ne refl, of "Num cfg + 1"]
  have wf1: "wf_cfg ?c1" by (rule wf_cfg_leave [OF assms(1)])
  have ne1: "Groups ?c1 \<noteq> []" using ne gids_delete [of gid "Groups cfg"]
    by (metis ShardConfig.select_convs(3) ShardConfig.surjective ShardConfig.update_convs(1,3)
        image_empty set_empty set_map)
  obtain c3 where "Rebalance ?c1 = Some c3" and b: "balancing ?c1 c3" "\<not> unbalanced c3"
    using Rebalance_returns [OF wf1 ne1] by blast
  with r have c3: "c3 = ?c2" by simp
  have "Shards cfg ! s \<in> gids cfg" if "s < NShards" for s
    using all that assms(1) by (auto simp: wf_cfg_def)
  moreover have "CheckConfig ?c2 (map fst (Groups ?c2))"
    using b c3 CheckConfig_balanced unfolding balancing_def by blast
  moreover have "LeaveBalance cfg [gid] = Some (True, ?c2)"
    using assms(3) r by (simp add: LeaveBalance_def Leave_one)
  moreover have "Groups ?c2 = Groups ?c1" and "Num ?c2 = Num ?c1"
    using b c3 by (auto simp: balancing_def)
  ultimately show ?thesis using r by auto
qed

theorem LeaveBalance_moves_only_leaving_witness:
  "\<exists>cfg'. LeaveBalance \<lparr>Num = 4, Shards = [1, 1, 1, 1, 2, 2, 2, 2, 3, 3, 3, 3],
        Groups = [(3, [''c'']), (1, [''a'']), (2, [''b''])]\<rparr> [2] = Some (True, cfg') \<and>
     Num cfg' = 5 \<and> (\<forall>s < 12. s \<notin> {4, 5, 6, 7} \<longrightarrow>
        Shards cfg' ! s = [1, 1, 1, 1, 2, 2, 2, 2, 3, 3, 3, 3] ! s)"
proof -
  let ?c = "\<lparr>Num = 4, Shards = [1, 1, 1, 1, 2, 2, 2, 2, 3, 3, 3, 3],
        Groups = [(3, [''c'']), (1, [''a'']), (2, [''b''])]\<rparr>"
  have 1: "wf_cfg ?c" by (simp add: wf_cfg_def)
  have 2: "CheckConfig ?c (map fst (Groups ?c))" by (simp add: CheckConfig_def shard_counts_def)
  have 3: "2 \<in> gids ?c" and 4: "gids ?c \<noteq> {2}" by auto
  have "[1, 1, 1, 1, 2, 2, 2, 2, 3, 3, 3, 3] ! s \<noteq> (2::int)"
    if "s < 12" and "s \<notin> {4, 5, 6, 7}" for s :: nat
    using that by (auto simp: less_Suc_eq numeral_eq_Suc)
  with LeaveBalance_moves_only_leaving [OF 1 2 3 4] show ?thesis by auto
qed

text \<open>
  The order in which Go happens to iterate over the map of groups does not matter: two
  configurations with the same shards and the same groups in a different order are rebalanced to
  the same assignment.
\<close>

lemma Rebalance_map_order:
  assumes "wf_cfg cfg" and "mset gs = mset (Groups cfg)"
  shows "Rebalance (cfg\<lparr>Groups := gs\<rparr>) = map_option (\<lambda>c. c\<lparr>Groups := gs\<rparr>) (Rebalance cfg)"
  by (rule Rebalance_reorder [OF assms])

text \<open>
  Every key belongs to one of the twelve shards, so \<open>GidServers\<close> never reads outside the
  array for a key's shard.
\<close>

lemma Key2Shard_in_range:
  assumes "wf_cfg cfg"
  shows "0 \<le> Key2Shard key \<and> Key2Shard key < int NShards \<and>
    (\<exists>r. GidServers cfg (Key2Shard key) = Some r)"
  using assms unfolding Key2Shard_def GidServers_def slice_at_def wf_cfg_def
  by (simp del: split_paired_Ex)

end
