(* ===== verification/Dedup_Store.thy ===== *)
theory Dedup_Store
  imports Cas_Store
begin

text \<open>
  Duplicate detection, the contract that \<open>kvraft/server.go\<close> and \<open>shardgrp/server.go\<close> share: the
  server remembers, per client, the id and the reply of the last Put it executed and answers a
  Put whose id is not larger from that memory. The locale \<open>dedup_store\<close> extends \<open>cas_store\<close> with
  this memory; its lemmas say that a log in which requests are repeated is executed exactly once
  and that a retry is given the reply of the execution.
\<close>

record LastPut =
  lp_RequestId :: u64
  lp_Reply :: PutReply

text \<open>A put is fresh if its id is larger than the last one recorded for its client.\<close>

definition fresh :: "(u64 \<Rightarrow> LastPut option) \<Rightarrow> PutArgs \<Rightarrow> bool" where
  "fresh l a = (case l (pa_ClientId a) of None \<Rightarrow> True | Some p \<Rightarrow> lp_RequestId p < pa_RequestId a)"

text \<open>
  The puts of a log that are executed: those whose id is larger than every earlier id of the
  client. \<open>ids\<close> holds the largest id seen of each client.
\<close>

definition newer :: "(u64 \<rightharpoonup> u64) \<Rightarrow> PutArgs \<Rightarrow> bool" where
  "newer ids a = (case ids (pa_ClientId a) of None \<Rightarrow> True | Some r \<Rightarrow> r < pa_RequestId a)"

fun executed :: "(u64 \<rightharpoonup> u64) \<Rightarrow> PutArgs list \<Rightarrow> PutArgs list" where
  "executed ids [] = []"
| "executed ids (a # as) =
     (if newer ids a
      then a # executed (ids(pa_ClientId a \<mapsto> pa_RequestId a)) as
      else executed ids as)"

abbreviation request :: "PutArgs \<Rightarrow> u64 \<times> u64" where
  "request a \<equiv> (pa_ClientId a, pa_RequestId a)"

text \<open>
  Clients number their puts upwards: a put is either a repetition of an earlier one of the log or
  has a larger id than every earlier put of its client.
\<close>

fun in_order :: "(u64 \<times> u64) list \<Rightarrow> PutArgs list \<Rightarrow> bool" where
  "in_order seen [] = True"
| "in_order seen (a # as) =
     ((request a \<in> set seen \<or>
       list_all (\<lambda>(c, r). c = pa_ClientId a \<longrightarrow> r < pa_RequestId a) seen) \<and>
      in_order (request a # seen) as)"

lemma fresh_newer: "fresh l a = newer (\<lambda>c. map_option lp_RequestId (l c)) a"
  by (simp add: fresh_def newer_def option.case_eq_if option.map_sel)

lemma executed_above:
  assumes "a \<in> set (executed ids as)" and "ids (pa_ClientId a) = Some r"
  shows "r < pa_RequestId a"
  using assms
proof (induction ids as arbitrary: r rule: executed.induct)
  case (1 ids)
  then show ?case by simp
next
  case (2 ids b as)
  show ?case
  proof (cases "newer ids b")
    case new: True
    show ?thesis
    proof (cases "a = b")
      case True
      with new "2.prems"(2) show ?thesis by (simp add: newer_def)
    next
      case False
      then have a: "a \<in> set (executed (ids(pa_ClientId b \<mapsto> pa_RequestId b)) as)"
        using "2.prems"(1) new by simp
      show ?thesis
      proof (cases "pa_ClientId a = pa_ClientId b")
        case same: True
        with "2.IH"(1) [OF new a, of "pa_RequestId b"] have "pa_RequestId b < pa_RequestId a"
          by simp
        moreover have "r < pa_RequestId b" using new "2.prems"(2) same by (simp add: newer_def)
        ultimately show ?thesis by simp
      next
        case False
        with "2.IH"(1) [OF new a, of r] "2.prems"(2) show ?thesis by simp
      qed
    qed
  next
    case False
    with "2.IH"(2) [of r] "2.prems" show ?thesis by simp
  qed
qed

lemma executed_subset: "set (executed ids as) \<subseteq> set as"
proof (induction as arbitrary: ids)
  case (Cons a as)
  from Cons [of ids] Cons [of "ids(pa_ClientId a \<mapsto> pa_RequestId a)"] show ?case by (simp del: fun_upd_apply) blast
qed simp

lemma executed_distinct: "distinct (map request (executed ids as))"
proof (induction ids as rule: executed.induct)
  case (2 ids a as)
  then show ?case
    using executed_above [of _ "ids(pa_ClientId a \<mapsto> pa_RequestId a)" as "pa_RequestId a"]
    by fastforce
qed simp

text \<open>\<open>ids\<close> holds the largest id of each client in \<open>seen\<close>.\<close>

definition largest :: "(u64 \<rightharpoonup> u64) \<Rightarrow> (u64 \<times> u64) set \<Rightarrow> bool" where
  "largest ids seen \<longleftrightarrow> (\<forall>c r. ids c = Some r \<longrightarrow> (c, r) \<in> seen) \<and>
     (\<forall>(c, r) \<in> seen. \<exists>r'. ids c = Some r' \<and> r \<le> r')"

lemma largest_insert_old:
  "largest ids seen \<Longrightarrow> (c, r) \<in> seen \<Longrightarrow> largest ids (insert (c, r) seen)"
  by (auto simp: largest_def)

lemma largest_insert_new:
  assumes "largest ids seen" and "\<forall>(c', r') \<in> seen. c' = c \<longrightarrow> r' < r"
  shows "largest (ids(c \<mapsto> r)) (insert (c, r) seen)"
proof -
  have 1: "\<And>c' r'. ids c' = Some r' \<Longrightarrow> (c', r') \<in> seen"
    and 2: "\<And>c' r'. (c', r') \<in> seen \<Longrightarrow> \<exists>q. ids c' = Some q \<and> r' \<le> q"
    and 3: "\<And>r'. (c, r') \<in> seen \<Longrightarrow> r' \<le> r"
    using assms unfolding largest_def by fastforce+
  show ?thesis unfolding largest_def using 1 2 3 by auto
qed

lemma in_order_executed:
  assumes "in_order seen as" and "largest ids (set seen)"
  shows "request ` set as \<subseteq> request ` set (executed ids as) \<union> set seen"
  using assms
proof (induction seen as arbitrary: ids rule: in_order.induct)
  case (1 seen)
  then show ?case by simp
next
  case (2 seen a as)
  show ?case
  proof (cases "request a \<in> set seen")
    case True
    with "2.prems"(2) obtain r where "ids (pa_ClientId a) = Some r" and "pa_RequestId a \<le> r"
      unfolding largest_def by fast
    then have "\<not> newer ids a" by (simp add: newer_def)
    with "2.IH" [of ids] "2.prems" True show ?thesis
      by (auto simp: insert_absorb)
  next
    case False
    with "2.prems"(1) have above: "\<forall>(c, r) \<in> set seen. c = pa_ClientId a \<longrightarrow> r < pa_RequestId a"
      by (auto simp: list_all_iff)
    with "2.prems"(2) have "newer ids a"
      unfolding newer_def largest_def by (auto split: option.splits)
    moreover have "largest (ids(pa_ClientId a \<mapsto> pa_RequestId a)) (set (request a # seen))"
      using largest_insert_new [OF "2.prems"(2) above] by simp
    moreover from this have "request ` set as \<subseteq> request ` set (executed
        (ids(pa_ClientId a \<mapsto> pa_RequestId a)) as) \<union> set (request a # seen)"
      using "2.prems"(1) by (intro "2.IH") (simp_all del: fun_upd_apply)
    ultimately show ?thesis by auto
  qed
qed

lemma in_order_executed_all:
  assumes "in_order [] as"
  shows "request ` set (executed Map.empty as) = request ` set as"
proof
  show "request ` set as \<subseteq> request ` set (executed Map.empty as)"
    using in_order_executed [OF assms, of Map.empty] by (simp add: largest_def)
  have "set (executed ids as) \<subseteq> set as" for ids
    by (induction ids as rule: executed.induct) (auto simp del: fun_upd_apply)
  then show "request ` set (executed Map.empty as) \<subseteq> request ` set as" by auto
qed

section \<open>The interface\<close>

text \<open>
  \<open>last s\<close> is the memory of last puts, \<open>serves s k\<close> says that the server answers puts on \<open>k\<close>.
\<close>

locale dedup_store = cas_store abs do_put do_get ready readable
  for abs :: "'s \<Rightarrow> kvmap"
    and do_put :: "'s \<Rightarrow> PutArgs \<Rightarrow> 's \<times> Err"
    and do_get :: "'s \<Rightarrow> string \<Rightarrow> GetReply"
    and ready :: "'s \<Rightarrow> PutArgs \<Rightarrow> bool"
    and readable :: "'s \<Rightarrow> string \<Rightarrow> bool" +
  fixes last_put :: "'s \<Rightarrow> u64 \<Rightarrow> LastPut option"
    and serves :: "'s \<Rightarrow> string \<Rightarrow> bool"
  assumes ready_iff: "ready s a \<longleftrightarrow> serves s (pa_Key a) \<and> fresh (last_put s) a"
    and fresh_recorded: "serves s (pa_Key a) \<Longrightarrow> fresh (last_put s) a \<Longrightarrow>
      last_put (fst (do_put s a)) = (last_put s)(pa_ClientId a \<mapsto>
        \<lparr>lp_RequestId = pa_RequestId a, lp_Reply = \<lparr>pr_Err = snd (do_put s a)\<rparr>\<rparr>)"
    and duplicate_answered: "serves s (pa_Key a) \<Longrightarrow> last_put s (pa_ClientId a) = Some p \<Longrightarrow>
      pa_RequestId a \<le> lp_RequestId p \<Longrightarrow> do_put s a = (s, pr_Err (lp_Reply p))"
    and put_serves: "serves (fst (do_put s a)) k = serves s k"
begin

lemma not_fresh:
  "\<not> fresh l a \<longleftrightarrow> (\<exists>p. l (pa_ClientId a) = Some p \<and> pa_RequestId a \<le> lp_RequestId p)"
  by (auto simp: fresh_def not_less split: option.splits)

lemma executed_refines:
  assumes "\<forall>a \<in> set as. serves s (pa_Key a)"
  shows "abs (fst (run_puts do_put s as)) =
    fst (spec_puts (abs s) (executed (\<lambda>c. map_option lp_RequestId (last_put s c)) as))"
  using assms
proof (induction as arbitrary: s)
  case Nil
  then show ?case by simp
next
  case (Cons a as)
  then have srv: "serves s (pa_Key a)" by simp
  have rest: "\<forall>b \<in> set as. serves (fst (do_put s a)) (pa_Key b)"
    using Cons.prems put_serves by simp
  note IH = Cons.IH [OF rest]
  show ?case
  proof (cases "fresh (last_put s) a")
    case True
    then have "(\<lambda>c. map_option lp_RequestId (last_put (fst (do_put s a)) c)) =
      (\<lambda>c. map_option lp_RequestId (last_put s c))(pa_ClientId a \<mapsto> pa_RequestId a)"
      using fresh_recorded [OF srv True] by (auto simp: fun_eq_iff)
    with True IH put_refines [of s a] ready_iff [of s a] srv show ?thesis
      by (simp add: fresh_newer case_prod_beta Let_def)
  next
    case False
    then obtain p where "last_put s (pa_ClientId a) = Some p"
      and "pa_RequestId a \<le> lp_RequestId p" unfolding not_fresh by blast
    with duplicate_answered [OF srv] have "fst (do_put s a) = s" by simp
    with False IH show ?thesis by (simp add: fresh_newer case_prod_beta Let_def)
  qed
qed

text \<open>After a put the client's record answers it: the reply is the recorded one.\<close>

lemma reply_recorded:
  assumes "serves s (pa_Key a)"
  shows "\<exists>p. last_put (fst (do_put s a)) (pa_ClientId a) = Some p \<and>
    pa_RequestId a \<le> lp_RequestId p \<and> pr_Err (lp_Reply p) = snd (do_put s a)"
proof (cases "fresh (last_put s) a")
  case True
  with fresh_recorded [OF assms] show ?thesis by simp
next
  case False
  then obtain p where "last_put s (pa_ClientId a) = Some p"
    and "pa_RequestId a \<le> lp_RequestId p" unfolding not_fresh by blast
  with duplicate_answered [OF assms] show ?thesis by simp
qed

text \<open>The record survives the puts of other clients and older puts of the same client.\<close>

lemma record_kept:
  assumes "last_put s c = Some p"
    and "\<forall>a \<in> set as. serves s (pa_Key a)"
    and "\<forall>a \<in> set as. pa_ClientId a = c \<longrightarrow> pa_RequestId a \<le> lp_RequestId p"
  shows "last_put (fst (run_puts do_put s as)) c = Some p"
  using assms
proof (induction as arbitrary: s)
  case Nil
  then show ?case by simp
next
  case (Cons a as)
  then have srv: "serves s (pa_Key a)" by simp
  have "last_put (fst (do_put s a)) c = Some p"
  proof (cases "fresh (last_put s) a")
    case True
    with Cons.prems have "pa_ClientId a \<noteq> c" by (auto simp: fresh_def not_less)
    with fresh_recorded [OF srv True] Cons.prems(1) show ?thesis by simp
  next
    case False
    then obtain q where "last_put s (pa_ClientId a) = Some q"
      and "pa_RequestId a \<le> lp_RequestId q" unfolding not_fresh by blast
    with duplicate_answered [OF srv] Cons.prems(1) show ?thesis by simp
  qed
  with Cons.IH [of "fst (do_put s a)"] Cons.prems put_serves show ?case
    by (simp add: case_prod_beta Let_def)
qed

lemma run_serves: "serves (fst (run_puts do_put s as)) k = serves s k"
  by (induction as arbitrary: s) (simp_all add: case_prod_beta Let_def put_serves)

lemma retry_same_reply:
  assumes srv: "\<forall>b \<in> set (a # mid @ [a']). serves s (pa_Key b)"
    and "request a' = request a"
    and "\<forall>b \<in> set mid. pa_ClientId b = pa_ClientId a \<longrightarrow> pa_RequestId b \<le> pa_RequestId a"
  shows "snd (do_put (fst (run_puts do_put s (a # mid))) a') = snd (do_put s a)"
proof -
  have "serves s (pa_Key a)" using srv by simp
  then obtain p where p: "last_put (fst (do_put s a)) (pa_ClientId a) = Some p"
    "pa_RequestId a \<le> lp_RequestId p" "pr_Err (lp_Reply p) = snd (do_put s a)"
    using reply_recorded by blast
  have "\<forall>b \<in> set mid. serves (fst (do_put s a)) (pa_Key b)" using srv put_serves by simp
  from record_kept [OF p(1) this] p(2) assms(3)
  have kept: "last_put (fst (run_puts do_put s (a # mid))) (pa_ClientId a') = Some p"
    using assms(2) by (force simp: case_prod_beta Let_def)
  have "serves (fst (run_puts do_put s (a # mid))) (pa_Key a')"
    using srv by (simp add: case_prod_beta Let_def run_serves put_serves)
  from duplicate_answered [OF this kept] p assms(2) show ?thesis by simp
qed

lemma other_clients_keep:
  assumes "\<forall>b \<in> set as. serves s (pa_Key b) \<and> pa_ClientId b \<noteq> c"
  shows "last_put (fst (run_puts do_put s as)) c = last_put s c"
  using assms
proof (induction as arbitrary: s)
  case (Cons b as)
  then have srv: "serves s (pa_Key b)" by simp
  have "last_put (fst (do_put s b)) c = last_put s c"
  proof (cases "fresh (last_put s) b")
    case True
    with fresh_recorded [OF srv True] Cons.prems show ?thesis by auto
  next
    case False
    then obtain p where "last_put s (pa_ClientId b) = Some p" "pa_RequestId b \<le> lp_RequestId p"
      unfolding not_fresh by blast
    with duplicate_answered [OF srv] show ?thesis by simp
  qed
  with Cons.IH [of "fst (do_put s b)"] Cons.prems put_serves show ?case by (simp add: case_prod_beta Let_def)
qed simp

text \<open>
  A put that its client repeats while other clients put is executed once: the store runs \<open>xs\<close>,
  the put, and \<open>ys\<close>, puts of the others.
\<close>

lemma once_among_others:
  assumes srv: "\<forall>b \<in> set (pre @ a # post). serves s (pa_Key b)" and fr: "fresh (last_put s) a"
    and pre: "\<forall>b \<in> set pre. pa_ClientId b \<noteq> pa_ClientId a"
    and post: "\<forall>b \<in> set post. b = a \<or> pa_ClientId b \<noteq> pa_ClientId a"
  shows "\<exists>xs ys. (\<forall>b \<in> set (xs @ ys). pa_ClientId b \<noteq> pa_ClientId a) \<and> set (xs @ ys) \<subseteq> set (pre @ post) \<and>
    abs (fst (run_puts do_put s (pre @ a # post))) = fst (spec_puts (abs s) (xs @ a # ys)) \<and>
    snd (do_put (fst (run_puts do_put s pre)) a) = snd (spec_put (fst (spec_puts (abs s) xs)) a)"
proof -
  let ?ids = "\<lambda>s c. map_option lp_RequestId (last_put s c)"
  define s1 where "s1 = fst (run_puts do_put s pre)"
  define s2 where "s2 = fst (do_put s1 a)"
  let ?xs = "executed (?ids s) pre" and ?ys = "executed (?ids s2) post"
  have srv1: "serves s1 k = serves s k" and srv2: "serves s2 k = serves s k" for k
    by (simp_all add: s1_def s2_def run_serves put_serves)
  have "last_put s1 (pa_ClientId a) = last_put s (pa_ClientId a)"
    unfolding s1_def by (rule other_clients_keep) (use srv pre in auto)
  then have fr1: "fresh (last_put s1) a" using fr by (simp add: fresh_def)
  have sa: "serves s1 (pa_Key a)" using srv srv1 by simp
  have "last_put s2 (pa_ClientId a) = Some \<lparr>lp_RequestId = pa_RequestId a, lp_Reply = \<lparr>pr_Err = snd (do_put s1 a)\<rparr>\<rparr>"
    unfolding s2_def using fresh_recorded [OF sa fr1] by simp
  then have "a \<notin> set ?ys" using executed_above [of a "?ids s2" post "pa_RequestId a"] by auto
  then have ys: "pa_ClientId b \<noteq> pa_ClientId a" if "b \<in> set ?ys" for b
    using that post subsetD [OF executed_subset that] by auto
  have xs: "pa_ClientId b \<noteq> pa_ClientId a" if "b \<in> set ?xs" for b
    using pre subsetD [OF executed_subset that] by blast
  have a1: "abs s1 = fst (spec_puts (abs s) ?xs)" unfolding s1_def by (rule executed_refines) (use srv in auto)
  have a2: "abs s2 = fst (spec_put (abs s1) a)" "snd (do_put s1 a) = snd (spec_put (abs s1) a)"
    unfolding s2_def using put_refines [of s1 a] ready_iff sa fr1 by auto
  have a3: "abs (fst (run_puts do_put s2 post)) = fst (spec_puts (abs s2) ?ys)"
    by (rule executed_refines) (use srv srv2 in auto)
  have "fst (run_puts do_put s (pre @ a # post)) = fst (run_puts do_put s2 post)"
    by (simp add: run_puts_append s1_def s2_def case_prod_beta Let_def)
  then have "abs (fst (run_puts do_put s (pre @ a # post))) = fst (spec_puts (abs s) (?xs @ a # ?ys))"
    by (simp add: a3 a2(1) a1 spec_puts_append case_prod_beta Let_def)
  moreover have "snd (do_put (fst (run_puts do_put s pre)) a) = snd (spec_put (fst (spec_puts (abs s) ?xs)) a)"
    using a2(2) a1 by (simp add: s1_def)
  moreover have "set (?xs @ ?ys) \<subseteq> set (pre @ post)"
    using executed_subset [of "?ids s" pre] executed_subset [of "?ids s2" post] by auto
  moreover have "\<forall>b \<in> set (?xs @ ?ys). pa_ClientId b \<noteq> pa_ClientId a" using xs ys by auto
  ultimately show ?thesis by blast
qed

end

end
