(* ===== verification/State_Machine.thy ===== *)
theory State_Machine
  imports Prelude
begin

text \<open>
  The interface \<open>StateMachine\<close> of \<open>kvraft/rsm/rsm.go\<close>: a server that wants to be replicated offers
  DoOp, Snapshot and Restore. The locale \<open>state_machine\<close> states what the replication layer relies
  on (DoOp does not crash on valid requests, it depends only on the replicated part of the state,
  and a snapshot carries that part) and proves what it gets: replicas that apply the same
  commands agree, whether they replayed the log or restored a snapshot and replayed the rest.
\<close>

text \<open>Apply a list of requests one after the other; \<open>None\<close> is a crash.\<close>

fun run_ops :: "('s \<Rightarrow> 'q \<Rightarrow> ('s \<times> 'p) option) \<Rightarrow> 's \<Rightarrow> 'q list \<Rightarrow> ('s \<times> 'p list) option" where
  "run_ops f s [] = Some (s, [])"
| "run_ops f s (q # qs) = do {
     (s', p) \<leftarrow> f s q;
     (s'', ps) \<leftarrow> run_ops f s' qs;
     Some (s'', p # ps) }"

lemma run_ops_append:
  "run_ops f s (xs @ ys) = do {
     (s', ps) \<leftarrow> run_ops f s xs;
     (s'', qs) \<leftarrow> run_ops f s' ys;
     Some (s'', ps @ qs) }"
  by (induction xs arbitrary: s) (auto split: Option.bind_splits)

locale state_machine =
  fixes DoOp :: "'s \<Rightarrow> 'q \<Rightarrow> ('s \<times> 'p) option"
    and Snapshot :: "'s \<Rightarrow> 'b"
    and Restore :: "'s \<Rightarrow> 'b \<Rightarrow> 's option"
    and ok :: "'s \<Rightarrow> bool"
    and valid :: "'q \<Rightarrow> bool"
    and replicated :: "'s \<Rightarrow> 'r"
  assumes DoOp_total: "ok s \<Longrightarrow> valid q \<Longrightarrow> \<exists>s' p. DoOp s q = Some (s', p) \<and> ok s'"
    and DoOp_replicated: "ok s \<Longrightarrow> ok t \<Longrightarrow> replicated s = replicated t \<Longrightarrow> valid q \<Longrightarrow>
      map_option (map_prod replicated id) (DoOp s q) =
      map_option (map_prod replicated id) (DoOp t q)"
    and Restore_Snapshot: "ok s \<Longrightarrow>
      \<exists>t'. Restore t (Snapshot s) = Some t' \<and> ok t' \<and> replicated t' = replicated s"
begin

lemma run_total:
  "ok s \<Longrightarrow> list_all valid qs \<Longrightarrow> \<exists>s' ps. run_ops DoOp s qs = Some (s', ps) \<and> ok s'"
proof (induction qs arbitrary: s)
  case Nil
  then show ?case by simp
next
  case (Cons q qs)
  then obtain s' p where "DoOp s q = Some (s', p)" and "ok s'"
    using DoOp_total [of s q] by auto
  with Cons.IH [of s'] Cons.prems show ?case by auto
qed

lemma run_replicated:
  assumes "ok s" and "ok t" and "replicated s = replicated t" and "list_all valid qs"
    and "run_ops DoOp s qs = Some (s', ps)"
  shows "\<exists>t'. run_ops DoOp t qs = Some (t', ps) \<and> ok s' \<and> ok t' \<and> replicated s' = replicated t'"
  using assms
proof (induction qs arbitrary: s t ps)
  case Nil
  then show ?case by simp
next
  case (Cons q qs)
  obtain s1 p where s1: "DoOp s q = Some (s1, p)" "ok s1"
    using DoOp_total [OF Cons.prems(1), of q] Cons.prems(4) by auto
  obtain t1 p' where t1: "DoOp t q = Some (t1, p')" "ok t1"
    using DoOp_total [OF Cons.prems(2), of q] Cons.prems(4) by auto
  have eq: "replicated s1 = replicated t1" "p' = p"
    using DoOp_replicated [OF Cons.prems(1-3), of q] Cons.prems(4) s1 t1 by auto
  obtain ps' where "run_ops DoOp s1 qs = Some (s', ps')" and "ps = p # ps'"
    using Cons.prems(5) s1 by (auto simp: bind_eq_Some_conv)
  with Cons.IH [OF s1(2) t1(2) eq(1)] Cons.prems(4) t1 eq(2) show ?case by auto
qed

text \<open>
  A replica restored from the snapshot taken after \<open>xs\<close> that then applies \<open>ys\<close> gives the
  replies and reaches the replicated state of one that applied \<open>xs @ ys\<close>.
\<close>

lemma snapshot_then_replay:
  assumes "ok s" and "list_all valid (xs @ ys)"
  shows "\<exists>s1 ps t1 s2 qs t2. run_ops DoOp s xs = Some (s1, ps) \<and> Restore t (Snapshot s1) = Some t1 \<and>
    run_ops DoOp s (xs @ ys) = Some (s2, ps @ qs) \<and> run_ops DoOp t1 ys = Some (t2, qs) \<and>
    replicated t2 = replicated s2"
proof -
  obtain s1 ps where s1: "run_ops DoOp s xs = Some (s1, ps)" "ok s1"
    using run_total [OF assms(1), of xs] assms(2) by auto
  obtain t1 where t1: "Restore t (Snapshot s1) = Some t1" "ok t1" "replicated t1 = replicated s1"
    using Restore_Snapshot [OF s1(2)] by blast
  obtain s2 qs where s2: "run_ops DoOp s1 ys = Some (s2, qs)"
    using run_total [OF s1(2), of ys] assms(2) by auto
  obtain t2 where "run_ops DoOp t1 ys = Some (t2, qs)" "replicated s2 = replicated t2"
    using run_replicated [OF s1(2) t1(2) t1(3) [symmetric] _ s2] assms(2) by auto
  with s1 t1 s2 show ?thesis by (auto simp: run_ops_append)
qed

end

end
