(* ===== verification/Kvraft_Server.thy ===== *)
theory Kvraft_Server
  imports Dedup_Store State_Machine
begin

text \<open>
  The replicated key/value server, \<open>kvraft/server.go\<close>: the state machine that the replication
  layer drives through DoOp, Snapshot and Restore, and the RPC handlers Get and Put. A Go map is
  an \<open>option\<close> of a map (\<open>None\<close> is the nil map, which can be read but not written); a crash
  (write to a nil map, failed type assertion, \<open>log.Fatal\<close>) is \<open>None\<close>. The byte slices that
  \<open>labgob\<close> produces are represented by the value they encode, the nil slice by \<open>None\<close>.
\<close>

section \<open>State and requests\<close>

record KvraftServer =
  kr_me :: int
  kr_kvm :: "kvmap option"
  kr_lastPutByClientId :: "(u64 \<rightharpoonup> LastPut) option"

record KvraftSnapshotData =
  krs_Kvm :: kvmap
  krs_LastPutByClientId :: "u64 \<rightharpoonup> LastPut"

text \<open>The dynamic types that \<open>DoOp\<close> distinguishes, and those of its replies.\<close>

datatype kv_req = GetReq GetArgs | PutReq PutArgs | OtherReq
datatype kv_rep = GetRep GetReply | PutRep PutReply | NilRep

section \<open>Operations\<close>

definition kvraft_DoOp_Get :: "KvraftServer \<Rightarrow> GetArgs \<Rightarrow> GetReply" where
  "kvraft_DoOp_Get kv a = (case go_lookup (kr_kvm kv) (ga_Key a) of
       None \<Rightarrow> \<lparr>gr_Value = '''', gr_Version = 0, gr_Err = ErrNoKey\<rparr>
     | Some v \<Rightarrow> \<lparr>gr_Value = vv_Value v, gr_Version = vv_Version v, gr_Err = OK\<rparr>)"

text \<open>The branch that executes a put on the map.\<close>

definition kvraft_execute :: "kvmap option \<Rightarrow> PutArgs \<Rightarrow> (kvmap option \<times> PutReply) option" where
  "kvraft_execute m a = (case go_lookup m (pa_Key a) of
       Some v \<Rightarrow>
         if vv_Version v = pa_Version a
         then do {
           m' \<leftarrow> go_update m (pa_Key a)
             \<lparr>vv_Value = pa_Value a, vv_Version = vv_Version v + 1\<rparr>;
           Some (m', \<lparr>pr_Err = OK\<rparr>) }
         else Some (m, \<lparr>pr_Err = ErrVersion\<rparr>)
     | None \<Rightarrow>
         if pa_Version a = 0
         then do {
           m' \<leftarrow> go_update m (pa_Key a) \<lparr>vv_Value = pa_Value a, vv_Version = 1\<rparr>;
           Some (m', \<lparr>pr_Err = OK\<rparr>) }
         else Some (m, \<lparr>pr_Err = ErrNoKey\<rparr>))"

definition kvraft_run_Put :: "KvraftServer \<Rightarrow> PutArgs \<Rightarrow> (KvraftServer \<times> PutReply) option" where
  "kvraft_run_Put kv a = do {
     (m, r) \<leftarrow> kvraft_execute (kr_kvm kv) a;
     l \<leftarrow> go_update (kr_lastPutByClientId kv) (pa_ClientId a)
       \<lparr>lp_RequestId = pa_RequestId a, lp_Reply = r\<rparr>;
     Some (kv\<lparr>kr_kvm := m, kr_lastPutByClientId := l\<rparr>, r) }"

definition kvraft_DoOp_Put :: "KvraftServer \<Rightarrow> PutArgs \<Rightarrow> (KvraftServer \<times> PutReply) option" where
  "kvraft_DoOp_Put kv a = (case go_lookup (kr_lastPutByClientId kv) (pa_ClientId a) of
       Some lastPut \<Rightarrow>
         if pa_RequestId a \<le> lp_RequestId lastPut then Some (kv, lp_Reply lastPut)
         else kvraft_run_Put kv a
     | None \<Rightarrow> kvraft_run_Put kv a)"

fun kvraft_DoOp :: "KvraftServer \<Rightarrow> kv_req \<Rightarrow> (KvraftServer \<times> kv_rep) option" where
  "kvraft_DoOp kv (GetReq a) = Some (kv, GetRep (kvraft_DoOp_Get kv a))"
| "kvraft_DoOp kv (PutReq a) = map_option (map_prod id PutRep) (kvraft_DoOp_Put kv a)"
| "kvraft_DoOp kv OtherReq = Some (kv, NilRep)"

definition kvraft_Snapshot :: "KvraftServer \<Rightarrow> KvraftSnapshotData option" where
  "kvraft_Snapshot kv = Some
     \<lparr>krs_Kvm = go_copy (kr_kvm kv),
      krs_LastPutByClientId = go_copy (kr_lastPutByClientId kv)\<rparr>"

definition kvraft_Restore :: "KvraftServer \<Rightarrow> KvraftSnapshotData option \<Rightarrow> KvraftServer option" where
  "kvraft_Restore kv data = (case data of
       None \<Rightarrow> Some kv
     | Some snapshot \<Rightarrow> Some (kv\<lparr>kr_kvm := Some (krs_Kvm snapshot),
         kr_lastPutByClientId := Some (krs_LastPutByClientId snapshot)\<rparr>))"

text \<open>The RPC handlers; \<open>submit\<close> is the \<open>Submit\<close> of the server's replication layer.\<close>

definition kvraft_Get :: "(kv_req \<Rightarrow> Err \<times> kv_rep) \<Rightarrow> GetArgs \<Rightarrow> GetReply \<Rightarrow> GetReply option" where
  "kvraft_Get submit args reply = (case submit (GetReq args) of (rpcErr, rep) \<Rightarrow>
     if rpcErr = OK then (case rep of GetRep r \<Rightarrow> Some r | _ \<Rightarrow> None)
     else Some (reply\<lparr>gr_Err := rpcErr\<rparr>))"

definition kvraft_Put :: "(kv_req \<Rightarrow> Err \<times> kv_rep) \<Rightarrow> PutArgs \<Rightarrow> PutReply \<Rightarrow> PutReply option" where
  "kvraft_Put submit args reply = (case submit (PutReq args) of (rpcErr, rep) \<Rightarrow>
     if rpcErr = OK then (case rep of PutRep r \<Rightarrow> Some r | _ \<Rightarrow> None)
     else Some (reply\<lparr>pr_Err := rpcErr\<rparr>))"

text \<open>
  Start-up: the replication layer first restores the persisted snapshot, then the maps are made
  if they are still nil.
\<close>

definition StartKVServer :: "int \<Rightarrow> KvraftSnapshotData option \<Rightarrow> KvraftServer option" where
  "StartKVServer me snapshot = do {
     kv \<leftarrow> kvraft_Restore \<lparr>kr_me = me, kr_kvm = None, kr_lastPutByClientId = None\<rparr> snapshot;
     Some (if kr_kvm kv = None
           then kv\<lparr>kr_kvm := Some Map.empty, kr_lastPutByClientId := Some Map.empty\<rparr>
           else kv) }"

section \<open>The contracts\<close>

definition kvraft_ok :: "KvraftServer \<Rightarrow> bool" where
  "kvraft_ok kv \<longleftrightarrow> kr_kvm kv \<noteq> None \<and> kr_lastPutByClientId kv \<noteq> None"

definition kvraft_put_err :: "KvraftServer \<Rightarrow> PutArgs \<Rightarrow> KvraftServer \<times> Err" where
  "kvraft_put_err kv a = (case kvraft_DoOp_Put kv a of
       Some (kv', r) \<Rightarrow> (kv', pr_Err r) | None \<Rightarrow> (kv, ErrZero))"

definition kvraft_last :: "KvraftServer \<Rightarrow> u64 \<Rightarrow> LastPut option" where
  "kvraft_last kv = go_lookup (kr_lastPutByClientId kv)"

lemmas kvraft_defs = kvraft_put_err_def kvraft_DoOp_Put_def kvraft_run_Put_def kvraft_execute_def
  kvraft_ok_def kvraft_last_def

lemma kvraft_execute_spec:
  "kvraft_execute (Some m) a =
     Some (Some (fst (spec_put m a)), \<lparr>pr_Err = snd (spec_put m a)\<rparr>)"
  by (auto simp: kvraft_execute_def spec_put_def split: option.splits)

lemma kvraft_DoOp_Put_fresh:
  assumes "kr_kvm kv = Some m" and "kr_lastPutByClientId kv = Some l" and "fresh l a"
  shows "kvraft_DoOp_Put kv a = Some
    (kv\<lparr>kr_kvm := Some (fst (spec_put m a)), kr_lastPutByClientId :=
        Some (l(pa_ClientId a \<mapsto> \<lparr>lp_RequestId = pa_RequestId a,
          lp_Reply = \<lparr>pr_Err = snd (spec_put m a)\<rparr>\<rparr>))\<rparr>,
     \<lparr>pr_Err = snd (spec_put m a)\<rparr>)"
  using assms
  by (auto simp: kvraft_DoOp_Put_def kvraft_run_Put_def kvraft_execute_spec
      fresh_def not_less split: option.splits)

lemma kvraft_DoOp_Put_dup:
  assumes "kvraft_last kv (pa_ClientId a) = Some p" and "pa_RequestId a \<le> lp_RequestId p"
  shows "kvraft_DoOp_Put kv a = Some (kv, lp_Reply p)"
  using assms by (simp add: kvraft_DoOp_Put_def kvraft_last_def)

lemma kvraft_DoOp_Put_abs:
  assumes "\<not> (kvraft_ok kv \<and> fresh (kvraft_last kv) a)"
  shows "go_copy (kr_kvm (fst (kvraft_put_err kv a))) = go_copy (kr_kvm kv)"
proof (cases "fresh (kvraft_last kv) a")
  case True
  with assms have "kr_kvm kv = None \<or> kr_lastPutByClientId kv = None"
    by (simp add: kvraft_ok_def)
  then show ?thesis
    by (auto simp: kvraft_defs split: option.splits Option.bind_splits)
next
  case False
  then obtain p where "kvraft_last kv (pa_ClientId a) = Some p"
    and "pa_RequestId a \<le> lp_RequestId p"
    by (auto simp: fresh_def not_less split: option.splits)
  then show ?thesis by (simp add: kvraft_put_err_def kvraft_DoOp_Put_dup)
qed

interpretation kvraft: dedup_store
  "\<lambda>kv. go_copy (kr_kvm kv)" kvraft_put_err "\<lambda>kv k. kvraft_DoOp_Get kv \<lparr>ga_Key = k\<rparr>"
  "\<lambda>kv a. kvraft_ok kv \<and> fresh (kvraft_last kv) a" "\<lambda>kv k. kvraft_ok kv"
  kvraft_last "\<lambda>kv k. kvraft_ok kv"
proof
  fix kv a k p
  show "go_copy (kr_kvm (fst (kvraft_put_err kv a))) = fst (spec_put (go_copy (kr_kvm kv)) a) \<and>
      snd (kvraft_put_err kv a) = snd (spec_put (go_copy (kr_kvm kv)) a)"
    if "kvraft_ok kv \<and> fresh (kvraft_last kv) a"
    using that kvraft_DoOp_Put_fresh [of kv _ _ a]
    by (auto simp: kvraft_ok_def kvraft_put_err_def kvraft_last_def)
  show "go_copy (kr_kvm (fst (kvraft_put_err kv a))) = go_copy (kr_kvm kv)"
    if "\<not> (kvraft_ok kv \<and> fresh (kvraft_last kv) a)"
    using that by (rule kvraft_DoOp_Put_abs)
  show "kvraft_DoOp_Get kv \<lparr>ga_Key = k\<rparr> = spec_get (go_copy (kr_kvm kv)) k"
    by (auto simp: kvraft_DoOp_Get_def spec_get_def split: option.splits)
  show ok: "kvraft_ok (fst (kvraft_put_err kv a)) = kvraft_ok kv"
    by (cases "kr_kvm kv"; cases "kr_lastPutByClientId kv")
      (auto simp: kvraft_defs split: option.splits)
  then show "kvraft_ok kv \<Longrightarrow> kvraft_ok (fst (kvraft_put_err kv a))" by simp
  show "kvraft_last (fst (kvraft_put_err kv a)) = (kvraft_last kv)(pa_ClientId a \<mapsto>
        \<lparr>lp_RequestId = pa_RequestId a, lp_Reply = \<lparr>pr_Err = snd (kvraft_put_err kv a)\<rparr>\<rparr>)"
    if "kvraft_ok kv" and "fresh (kvraft_last kv) a"
    using that kvraft_DoOp_Put_fresh [of kv _ _ a]
    by (auto simp: kvraft_ok_def kvraft_put_err_def kvraft_last_def)
  show "kvraft_put_err kv a = (kv, pr_Err (lp_Reply p))"
    if "kvraft_last kv (pa_ClientId a) = Some p" and "pa_RequestId a \<le> lp_RequestId p"
    using kvraft_DoOp_Put_dup [OF that] by (simp add: kvraft_put_err_def)
qed simp_all

lemma kvraft_DoOp_Put_ok:
  assumes "kvraft_ok kv"
  shows "\<exists>kv' r. kvraft_DoOp_Put kv a = Some (kv', r) \<and> kvraft_ok kv' \<and> kr_me kv' = kr_me kv"
  using assms
  by (cases "fresh (kvraft_last kv) a")
    (auto simp: kvraft_defs fresh_def not_less split: option.splits if_splits)

definition kvraft_replicated :: "KvraftServer \<Rightarrow> kvmap option \<times> (u64 \<rightharpoonup> LastPut) option" where
  "kvraft_replicated kv = (kr_kvm kv, kr_lastPutByClientId kv)"

lemma kvraft_replicated_eq_iff:
  "kvraft_replicated s = kvraft_replicated t \<longleftrightarrow> (\<exists>i. t = s\<lparr>kr_me := i\<rparr>)"
  by (cases s; cases t) (auto simp: kvraft_replicated_def)

lemma kvraft_DoOp_Put_me:
  "kvraft_DoOp_Put (kv\<lparr>kr_me := i\<rparr>) a =
     map_option (map_prod (\<lambda>k. k\<lparr>kr_me := i\<rparr>) id) (kvraft_DoOp_Put kv a)"
  by (cases kv)
    (auto simp: kvraft_DoOp_Put_def kvraft_run_Put_def split: option.splits Option.bind_splits)

interpretation kvraft_sm: state_machine kvraft_DoOp kvraft_Snapshot kvraft_Restore
  kvraft_ok "\<lambda>q. True" kvraft_replicated
proof
  fix s t q
  show "\<exists>s' p. kvraft_DoOp s q = Some (s', p) \<and> kvraft_ok s'" if "kvraft_ok s"
    using that kvraft_DoOp_Put_ok [OF that] by (cases q) force+
  show "map_option (map_prod kvraft_replicated id) (kvraft_DoOp s q) =
      map_option (map_prod kvraft_replicated id) (kvraft_DoOp t q)"
    if "kvraft_replicated s = kvraft_replicated t"
  proof -
    from that obtain i where t: "t = s\<lparr>kr_me := i\<rparr>" unfolding kvraft_replicated_eq_iff by blast
    show ?thesis unfolding t
      by (cases q) (auto simp: kvraft_DoOp_Put_me option.map_comp comp_def map_prod_def
          kvraft_replicated_def kvraft_DoOp_Get_def split: prod.splits intro!: option.map_cong)
  qed
  show "\<exists>t'. kvraft_Restore t (kvraft_Snapshot s) = Some t' \<and> kvraft_ok t' \<and>
      kvraft_replicated t' = kvraft_replicated s" if "kvraft_ok s"
    using that by (auto simp: kvraft_Restore_def kvraft_Snapshot_def kvraft_ok_def
        kvraft_replicated_def)
qed

section \<open>Logs of requests\<close>

fun puts_of :: "kv_req list \<Rightarrow> PutArgs list" where
  "puts_of [] = []"
| "puts_of (PutReq a # qs) = a # puts_of qs"
| "puts_of (GetReq a # qs) = puts_of qs"
| "puts_of (OtherReq # qs) = puts_of qs"

lemma puts_of_append [simp]: "puts_of (xs @ ys) = puts_of xs @ puts_of ys"
  by (induction xs rule: puts_of.induct) auto

text \<open>Gets leave the state alone, so a log acts as its puts do.\<close>

lemma kvraft_put_err_ok:
  assumes "kvraft_ok kv"
  shows "kvraft_DoOp_Put kv a =
    Some (fst (kvraft_put_err kv a), \<lparr>pr_Err = snd (kvraft_put_err kv a)\<rparr>)"
  using kvraft_DoOp_Put_ok [OF assms, of a] by (auto simp: kvraft_put_err_def)

lemma run_kvraft:
  assumes "kvraft_ok kv"
  shows "\<exists>ps. run_ops kvraft_DoOp kv qs =
      Some (fst (run_puts kvraft_put_err kv (puts_of qs)), ps) \<and> length ps = length qs"
  using assms
proof (induction qs arbitrary: kv rule: puts_of.induct)
  case (2 a qs)
  then have "kvraft_ok (fst (kvraft_put_err kv a))" using kvraft.put_serves by blast
  with "2.IH" [OF this] "2.prems" show ?case
    by (auto simp: kvraft_put_err_ok case_prod_beta Let_def)
next
  case (3 a qs)
  from "3.IH" [OF "3.prems"] show ?case by auto
next
  case (4 qs)
  from "4.IH" [OF "4.prems"] show ?case by auto
qed simp

lemma run_kvraft_ok:
  assumes "kvraft_ok kv" shows "kvraft_ok (fst (run_puts kvraft_put_err kv as))"
  using kvraft.run_serves assms by blast

section \<open>Properties\<close>

text \<open>
  C28. Exactly once: whatever the log contains (retries, reordered duplicates, gets in between),
  a server started without a snapshot applies it without crashing, its map is that of the abstract
  store after the executed puts, no request is executed twice, and when every client numbers its
  puts upwards every request of the log is executed.
\<close>

theorem kvraft_exactly_once:
  "\<exists>kv kv' ps. StartKVServer me None = Some kv \<and> run_ops kvraft_DoOp kv qs = Some (kv', ps) \<and>
     kr_kvm kv' = Some (fst (spec_puts Map.empty (executed Map.empty (puts_of qs)))) \<and>
     distinct (map request (executed Map.empty (puts_of qs))) \<and>
     (in_order [] (puts_of qs) \<longrightarrow>
       request ` set (executed Map.empty (puts_of qs)) = request ` set (puts_of qs))"
proof -
  let ?kv = "\<lparr>kr_me = me, kr_kvm = Some Map.empty, kr_lastPutByClientId = Some Map.empty\<rparr>"
  let ?kv' = "fst (run_puts kvraft_put_err ?kv (puts_of qs))"
  have ok: "kvraft_ok ?kv" by (simp add: kvraft_ok_def)
  obtain ps where run: "run_ops kvraft_DoOp ?kv qs = Some (?kv', ps)"
    using run_kvraft [OF ok] by blast
  have "go_copy (kr_kvm ?kv') = fst (spec_puts Map.empty (executed Map.empty (puts_of qs)))"
    using kvraft.executed_refines [of "puts_of qs" ?kv] ok by (simp add: kvraft_last_def)
  moreover obtain m where "kr_kvm ?kv' = Some m"
    using run_kvraft_ok [OF ok] unfolding kvraft_ok_def by blast
  ultimately have "kr_kvm ?kv' = Some (fst (spec_puts Map.empty (executed Map.empty (puts_of qs))))"
    by simp
  moreover have "StartKVServer me None = Some ?kv"
    by (simp add: StartKVServer_def kvraft_Restore_def)
  ultimately show ?thesis
    using run executed_distinct in_order_executed_all by blast
qed

theorem kvraft_exactly_once_witness:
  "let a = \<lparr>pa_ClientId = 7, pa_RequestId = 1, pa_Key = ''k'', pa_Value = ''v'', pa_Version = 0\<rparr>;
       b = \<lparr>pa_ClientId = 7, pa_RequestId = 2, pa_Key = ''k'', pa_Value = ''w'', pa_Version = 1\<rparr>
   in \<exists>kv kv' ps. StartKVServer 0 None = Some kv \<and>
     run_ops kvraft_DoOp kv [PutReq a, PutReq a, PutReq b, PutReq a] = Some (kv', ps) \<and>
     kr_kvm kv' = Some [''k'' \<mapsto> \<lparr>vv_Value = ''w'', vv_Version = 2\<rparr>] \<and>
     in_order [] [a, a, b, a] \<and> request ` set (executed Map.empty [a, a, b, a]) = {(7, 1), (7, 2)}"
proof -
  let ?a = "\<lparr>pa_ClientId = 7, pa_RequestId = 1, pa_Key = ''k'', pa_Value = ''v'', pa_Version = 0\<rparr>"
  let ?b = "\<lparr>pa_ClientId = 7, pa_RequestId = 2, pa_Key = ''k'', pa_Value = ''w'', pa_Version = 1\<rparr>"
  have ord: "in_order [] [?a, ?a, ?b, ?a]" by simp
  have exec: "executed Map.empty [?a, ?a, ?b, ?a] = [?a, ?b]" by (simp add: newer_def)
  have map: "fst (spec_puts Map.empty [?a, ?b]) = [''k'' \<mapsto> \<lparr>vv_Value = ''w'', vv_Version = 2\<rparr>]"
    by (simp add: spec_put_def)
  show ?thesis
    using kvraft_exactly_once [of 0 "[PutReq ?a, PutReq ?a, PutReq ?b, PutReq ?a]"] ord
    unfolding Let_def puts_of.simps exec map by auto
qed

text \<open>
  A retry is answered as the original: when a put is repeated later in the log and its client
  has sent nothing newer in between, both get the same reply.
\<close>

lemma kvraft_retry_same_reply:
  assumes "kvraft_ok kv" and "request a' = request a"
    and "\<forall>b \<in> set (puts_of mid). pa_ClientId b = pa_ClientId a \<longrightarrow> pa_RequestId b \<le> pa_RequestId a"
  shows "\<exists>kv' ps r qs. run_ops kvraft_DoOp kv (xs @ PutReq a # mid @ [PutReq a']) =
    Some (kv', ps @ PutRep r # qs @ [PutRep r]) \<and> length ps = length xs"
proof -
  let ?s = "fst (run_puts kvraft_put_err kv (puts_of xs))"
  let ?t = "fst (kvraft_put_err ?s a)"
  let ?u = "fst (run_puts kvraft_put_err ?t (puts_of mid))"
  have s: "kvraft_ok ?s" using run_kvraft_ok [OF assms(1)] .
  then have t: "kvraft_ok ?t" using kvraft.put_serves by blast
  then have u: "kvraft_ok ?u" by (rule run_kvraft_ok)
  obtain ps where "run_ops kvraft_DoOp kv xs = Some (?s, ps)" and "length ps = length xs"
    using run_kvraft [OF assms(1)] by blast
  moreover obtain qs where "run_ops kvraft_DoOp ?t mid = Some (?u, qs)"
    using run_kvraft [OF t] by blast
  moreover have "snd (kvraft_put_err ?u a') = snd (kvraft_put_err ?s a)"
    using kvraft.retry_same_reply [of a "puts_of mid" a' ?s] assms(2,3) s
    by (simp add: case_prod_beta Let_def)
  ultimately show ?thesis
    by (auto simp: run_ops_append kvraft_put_err_ok [OF s] kvraft_put_err_ok [OF u])
qed

text \<open>
  A replica that restores the snapshot another replica took after \<open>xs\<close> and then applies \<open>ys\<close>
  gives the replies, and reaches the map and the duplicate table, of a replica that applied all of
  \<open>xs @ ys\<close>.
\<close>

lemma kvraft_snapshot_replay:
  assumes "kvraft_ok kv"
  shows "\<exists>s1 ps t1 s2 qs t2. run_ops kvraft_DoOp kv xs = Some (s1, ps) \<and>
    StartKVServer me (kvraft_Snapshot s1) = Some t1 \<and>
    run_ops kvraft_DoOp kv (xs @ ys) = Some (s2, ps @ qs) \<and>
    run_ops kvraft_DoOp t1 ys = Some (t2, qs) \<and> kvraft_replicated t2 = kvraft_replicated s2"
proof -
  let ?t = "\<lparr>kr_me = me, kr_kvm = None, kr_lastPutByClientId = None\<rparr>"
  have "StartKVServer me (kvraft_Snapshot s) = kvraft_Restore ?t (kvraft_Snapshot s)" for s
    by (simp add: StartKVServer_def kvraft_Restore_def kvraft_Snapshot_def)
  with kvraft_sm.snapshot_then_replay [OF assms, of xs ys ?t] show ?thesis
    by (simp add: list_all_iff)
qed

end
