(* ===== verification/Shardgrp_Server.thy ===== *)
theory Shardgrp_Server
  imports Shardcfg Kvraft_Server
begin

text \<open>
  The server of one shard group, \<open>shardkv/shardgrp/server.go\<close> with the RPC types of
  \<open>shardgrp/shardrpc\<close>: a state machine that serves Get and Put on the shards it owns and hands
  shards over with Freeze, Install and Delete. As in the kvraft server, \<open>None\<close> is a crash, a Go
  map is an option of a map, and a byte slice written by labgob is the value it encodes (\<open>None\<close>
  is the nil slice). A Go map that is iterated over (the set of clients of a shard, the
  duplicate table inside a marshalled shard) is a list.
\<close>

section \<open>Types\<close>

datatype ShardStatus = Absent | Serving | Frozen

record ShardState =
  ss_Kv :: kvmap
  ss_LastPutByClientId :: "(u64 \<times> LastPut) list"

record ShardgrpSnapshotData =
  sgs_Kvm :: "kvmap list"
  sgs_LastPutByClientId :: "u64 \<rightharpoonup> LastPut"
  sgs_CfgNumByShid :: "Tshid \<rightharpoonup> Tnum"
  sgs_ShardStatuses :: "ShardStatus list"
  sgs_ShardClients :: "u64 list list"

record ShardgrpServer =
  sg_me :: int
  sg_gid :: Tgid
  sg_kvm :: "kvmap option list"
  sg_lastPutByClientId :: "(u64 \<rightharpoonup> LastPut) option"
  sg_cfgNumByShid :: "(Tshid \<rightharpoonup> Tnum) option"
  sg_shardStatuses :: "ShardStatus list"
  sg_shardClients :: "u64 list option list"

record FreezeShardArgs =
  fa_Shard :: Tshid
  fa_Num :: Tnum

record FreezeShardReply =
  fr_State :: "ShardState option"
  fr_Num :: Tnum
  fr_Err :: Err

record InstallShardArgs =
  ia_Shard :: Tshid
  ia_State :: "ShardState option"
  ia_Num :: Tnum

record InstallShardReply =
  ir_Err :: Err

record DeleteShardArgs =
  da_Shard :: Tshid
  da_Num :: Tnum

record DeleteShardReply =
  dr_Err :: Err

datatype sg_req = SGet GetArgs | SPut PutArgs | SFreeze FreezeShardArgs
  | SInstall InstallShardArgs | SDelete DeleteShardArgs | SOther

datatype sg_rep = SGetRep GetReply | SPutRep PutReply | SFreezeRep FreezeShardReply
  | SInstallRep InstallShardReply | SDeleteRep DeleteShardReply | SNil

section \<open>Operations\<close>

text \<open>The clients that a loop over a possibly nil set visits.\<close>

definition client_list :: "u64 list option \<Rightarrow> u64 list" where
  "client_list cs = (case cs of None \<Rightarrow> [] | Some xs \<Rightarrow> xs)"

text \<open>\<open>kv.cfgNumByShid[shid]\<close>: a missing entry reads as 0.\<close>

definition local_num :: "ShardgrpServer \<Rightarrow> Tshid \<Rightarrow> Tnum" where
  "local_num kv shid = (case go_lookup (sg_cfgNumByShid kv) shid of None \<Rightarrow> 0 | Some n \<Rightarrow> n)"

text \<open>\<open>kv.cfgNumByShid[shid] = n\<close> and \<open>kv.shardStatuses[shid] = st\<close>.\<close>

definition set_status :: "ShardgrpServer \<Rightarrow> Tshid \<Rightarrow> ShardStatus \<Rightarrow> Tnum \<Rightarrow> ShardgrpServer option" where
  "set_status kv shid st n = do {
     sts \<leftarrow> slice_set (sg_shardStatuses kv) shid st;
     nums \<leftarrow> go_update (sg_cfgNumByShid kv) shid n;
     Some (kv\<lparr>sg_shardStatuses := sts, sg_cfgNumByShid := nums\<rparr>) }"

definition shardgrp_DoOp_Get :: "ShardgrpServer \<Rightarrow> GetArgs \<Rightarrow> GetReply option" where
  "shardgrp_DoOp_Get kv a = do {
     st \<leftarrow> slice_at (sg_shardStatuses kv) (Key2Shard (ga_Key a));
     if st \<noteq> Serving then Some \<lparr>gr_Value = '''', gr_Version = 0, gr_Err = ErrWrongGroup\<rparr>
     else do {
       m \<leftarrow> slice_at (sg_kvm kv) (Key2Shard (ga_Key a));
       Some (case go_lookup m (ga_Key a) of
           None \<Rightarrow> \<lparr>gr_Value = '''', gr_Version = 0, gr_Err = ErrNoKey\<rparr>
         | Some v \<Rightarrow> \<lparr>gr_Value = vv_Value v, gr_Version = vv_Version v, gr_Err = OK\<rparr>) } }"

text \<open>
  Execute a put: the compare-and-swap on the shard's map, then the duplicate table and the
  shard's set of clients. (\<open>kvraft_execute\<close> is the same code on one map.)
\<close>

definition shardgrp_run_Put :: "ShardgrpServer \<Rightarrow> PutArgs \<Rightarrow> (ShardgrpServer \<times> PutReply) option" where
  "shardgrp_run_Put kv a = do {
     m \<leftarrow> slice_at (sg_kvm kv) (Key2Shard (pa_Key a));
     (m', r) \<leftarrow> kvraft_execute m a;
     kvm \<leftarrow> slice_set (sg_kvm kv) (Key2Shard (pa_Key a)) m';
     l \<leftarrow> go_update (sg_lastPutByClientId kv) (pa_ClientId a)
       \<lparr>lp_RequestId = pa_RequestId a, lp_Reply = r\<rparr>;
     cs \<leftarrow> slice_at (sg_shardClients kv) (Key2Shard (pa_Key a));
     cs' \<leftarrow> map_option (List.insert (pa_ClientId a)) cs;
     clients \<leftarrow> slice_set (sg_shardClients kv) (Key2Shard (pa_Key a)) (Some cs');
     Some (kv\<lparr>sg_kvm := kvm, sg_lastPutByClientId := l, sg_shardClients := clients\<rparr>, r) }"

definition shardgrp_DoOp_Put :: "ShardgrpServer \<Rightarrow> PutArgs \<Rightarrow> (ShardgrpServer \<times> PutReply) option" where
  "shardgrp_DoOp_Put kv a = do {
     st \<leftarrow> slice_at (sg_shardStatuses kv) (Key2Shard (pa_Key a));
     if st \<noteq> Serving then Some (kv, \<lparr>pr_Err = ErrWrongGroup\<rparr>)
     else (case go_lookup (sg_lastPutByClientId kv) (pa_ClientId a) of
         Some lastPut \<Rightarrow>
           if pa_RequestId a \<le> lp_RequestId lastPut then Some (kv, lp_Reply lastPut)
           else shardgrp_run_Put kv a
       | None \<Rightarrow> shardgrp_run_Put kv a) }"

text \<open>
  The state of a shard as it is sent: its map and the last puts of the clients that worked on it.
  The encoder fails on a nil pointer, that is on a client without a last put, and then
  \<open>log.Fatal\<close> ends the server.
\<close>

definition marshallShardState :: "ShardgrpServer \<Rightarrow> Tshid \<Rightarrow> ShardState option" where
  "marshallShardState kv shid = do {
     cs \<leftarrow> slice_at (sg_shardClients kv) shid;
     lps \<leftarrow> those (map (\<lambda>c. map_option (Pair c) (go_lookup (sg_lastPutByClientId kv) c))
       (client_list cs));
     m \<leftarrow> slice_at (sg_kvm kv) shid;
     Some \<lparr>ss_Kv = go_copy m, ss_LastPutByClientId = lps\<rparr> }"

text \<open>One iteration of the loop over the received last puts: keep the larger request id.\<close>

definition merge_lastPut :: "(u64 \<rightharpoonup> LastPut) \<Rightarrow> u64 \<times> LastPut \<Rightarrow> (u64 \<rightharpoonup> LastPut)" where
  "merge_lastPut l e = (case l (fst e) of
       None \<Rightarrow> l(fst e \<mapsto> snd e)
     | Some q \<Rightarrow> if lp_RequestId q < lp_RequestId (snd e) then l(fst e \<mapsto> snd e) else l)"

definition installShardState :: "ShardgrpServer \<Rightarrow> Tshid \<Rightarrow> ShardState option \<Rightarrow> ShardgrpServer option" where
  "installShardState kv shid data = do {
     state \<leftarrow> data;
     kvm \<leftarrow> slice_set (sg_kvm kv) shid (Some (ss_Kv state));
     clients \<leftarrow> slice_set (sg_shardClients kv) shid
       (Some (fold (\<lambda>e. List.insert (fst e)) (ss_LastPutByClientId state) []));
     l \<leftarrow> (if ss_LastPutByClientId state = [] then Some (sg_lastPutByClientId kv)
           else map_option (\<lambda>l. Some (foldl merge_lastPut l (ss_LastPutByClientId state)))
             (sg_lastPutByClientId kv));
     Some (kv\<lparr>sg_kvm := kvm, sg_shardClients := clients, sg_lastPutByClientId := l\<rparr>) }"

definition DoOp_Freeze ::
    "ShardgrpServer \<Rightarrow> FreezeShardArgs \<Rightarrow> (ShardgrpServer \<times> FreezeShardReply) option" where
  "DoOp_Freeze kv a = (
     if local_num kv (fa_Shard a) < fa_Num a then do {
       st \<leftarrow> slice_at (sg_shardStatuses kv) (fa_Shard a);
       if st = Serving then do {
         kv' \<leftarrow> set_status kv (fa_Shard a) Frozen (fa_Num a);
         state \<leftarrow> marshallShardState kv' (fa_Shard a);
         Some (kv', \<lparr>fr_State = Some state, fr_Num = fa_Num a, fr_Err = OK\<rparr>) }
       else Some (kv, \<lparr>fr_State = None, fr_Num = local_num kv (fa_Shard a),
                       fr_Err = ErrIllegalOperation\<rparr>) }
     else if fa_Num a = local_num kv (fa_Shard a) then do {
       st \<leftarrow> slice_at (sg_shardStatuses kv) (fa_Shard a);
       if st = Serving
       then Some (kv, \<lparr>fr_State = None, fr_Num = fa_Num a, fr_Err = ErrIllegalOperation\<rparr>)
       else do {
         state \<leftarrow> marshallShardState kv (fa_Shard a);
         Some (kv, \<lparr>fr_State = Some state, fr_Num = fa_Num a, fr_Err = OK\<rparr>) } }
     else Some (kv, \<lparr>fr_State = None, fr_Num = local_num kv (fa_Shard a), fr_Err = OK\<rparr>))"

definition DoOp_Install ::
    "ShardgrpServer \<Rightarrow> InstallShardArgs \<Rightarrow> (ShardgrpServer \<times> InstallShardReply) option" where
  "DoOp_Install kv a = (
     if local_num kv (ia_Shard a) < ia_Num a then do {
       st \<leftarrow> slice_at (sg_shardStatuses kv) (ia_Shard a);
       if st = Absent then do {
         kv1 \<leftarrow> installShardState kv (ia_Shard a) (ia_State a);
         kv2 \<leftarrow> set_status kv1 (ia_Shard a) Serving (ia_Num a);
         Some (kv2, \<lparr>ir_Err = OK\<rparr>) }
       else Some (kv, \<lparr>ir_Err = ErrIllegalOperation\<rparr>) }
     else if ia_Num a = local_num kv (ia_Shard a) then do {
       st \<leftarrow> slice_at (sg_shardStatuses kv) (ia_Shard a);
       Some (kv, \<lparr>ir_Err = (if st = Serving then OK else ErrIllegalOperation)\<rparr>) }
     else Some (kv, \<lparr>ir_Err = OK\<rparr>))"

definition DoOp_Delete ::
    "ShardgrpServer \<Rightarrow> DeleteShardArgs \<Rightarrow> (ShardgrpServer \<times> DeleteShardReply) option" where
  "DoOp_Delete kv a = (
     if da_Num a = local_num kv (da_Shard a) then do {
       st \<leftarrow> slice_at (sg_shardStatuses kv) (da_Shard a);
       (case st of
          Frozen \<Rightarrow> do {
            kvm \<leftarrow> slice_set (sg_kvm kv) (da_Shard a) None;
            clients \<leftarrow> slice_set (sg_shardClients kv) (da_Shard a) None;
            kv' \<leftarrow> set_status (kv\<lparr>sg_kvm := kvm, sg_shardClients := clients\<rparr>)
              (da_Shard a) Absent (da_Num a);
            Some (kv', \<lparr>dr_Err = OK\<rparr>) }
        | Absent \<Rightarrow> Some (kv, \<lparr>dr_Err = OK\<rparr>)
        | Serving \<Rightarrow> Some (kv, \<lparr>dr_Err = ErrIllegalOperation\<rparr>)) }
     else if local_num kv (da_Shard a) < da_Num a
     then Some (kv, \<lparr>dr_Err = ErrIllegalOperation\<rparr>)
     else Some (kv, \<lparr>dr_Err = OK\<rparr>))"

fun shardgrp_DoOp :: "ShardgrpServer \<Rightarrow> sg_req \<Rightarrow> (ShardgrpServer \<times> sg_rep) option" where
  "shardgrp_DoOp kv (SGet a) = map_option (\<lambda>r. (kv, SGetRep r)) (shardgrp_DoOp_Get kv a)"
| "shardgrp_DoOp kv (SPut a) = map_option (map_prod id SPutRep) (shardgrp_DoOp_Put kv a)"
| "shardgrp_DoOp kv (SFreeze a) = map_option (map_prod id SFreezeRep) (DoOp_Freeze kv a)"
| "shardgrp_DoOp kv (SInstall a) = map_option (map_prod id SInstallRep) (DoOp_Install kv a)"
| "shardgrp_DoOp kv (SDelete a) = map_option (map_prod id SDeleteRep) (DoOp_Delete kv a)"
| "shardgrp_DoOp kv SOther = Some (kv, SNil)"

definition shardgrp_Snapshot :: "ShardgrpServer \<Rightarrow> ShardgrpSnapshotData option" where
  "shardgrp_Snapshot kv = Some
     \<lparr>sgs_Kvm = map go_copy (sg_kvm kv),
      sgs_LastPutByClientId = go_copy (sg_lastPutByClientId kv),
      sgs_CfgNumByShid = go_copy (sg_cfgNumByShid kv),
      sgs_ShardStatuses = sg_shardStatuses kv,
      sgs_ShardClients = map client_list (sg_shardClients kv)\<rparr>"

definition shardgrp_Restore :: "ShardgrpServer \<Rightarrow> ShardgrpSnapshotData option \<Rightarrow> ShardgrpServer option" where
  "shardgrp_Restore kv data = (case data of
       None \<Rightarrow> Some kv
     | Some s \<Rightarrow> Some (kv\<lparr>sg_kvm := map Some (sgs_Kvm s),
         sg_lastPutByClientId := Some (sgs_LastPutByClientId s),
         sg_cfgNumByShid := Some (sgs_CfgNumByShid s),
         sg_shardStatuses := sgs_ShardStatuses s,
         sg_shardClients := map Some (sgs_ShardClients s)\<rparr>))"

text \<open>The RPC handlers; \<open>submit\<close> is the \<open>Submit\<close> of the server's replication layer.\<close>

definition shardgrp_Get :: "(sg_req \<Rightarrow> Err \<times> sg_rep) \<Rightarrow> GetArgs \<Rightarrow> GetReply \<Rightarrow> GetReply option" where
  "shardgrp_Get submit args reply = (case submit (SGet args) of (rpcErr, rep) \<Rightarrow>
     if rpcErr = OK then (case rep of SGetRep r \<Rightarrow> Some r | _ \<Rightarrow> None)
     else Some (reply\<lparr>gr_Err := rpcErr\<rparr>))"

definition shardgrp_Put :: "(sg_req \<Rightarrow> Err \<times> sg_rep) \<Rightarrow> PutArgs \<Rightarrow> PutReply \<Rightarrow> PutReply option" where
  "shardgrp_Put submit args reply = (case submit (SPut args) of (rpcErr, rep) \<Rightarrow>
     if rpcErr = OK then (case rep of SPutRep r \<Rightarrow> Some r | _ \<Rightarrow> None)
     else Some (reply\<lparr>pr_Err := rpcErr\<rparr>))"

definition shardgrp_FreezeShard ::
    "(sg_req \<Rightarrow> Err \<times> sg_rep) \<Rightarrow> FreezeShardArgs \<Rightarrow> FreezeShardReply \<Rightarrow> FreezeShardReply option" where
  "shardgrp_FreezeShard submit args reply = (case submit (SFreeze args) of (rpcErr, rep) \<Rightarrow>
     if rpcErr = OK then (case rep of SFreezeRep r \<Rightarrow> Some r | _ \<Rightarrow> None)
     else Some (reply\<lparr>fr_Err := rpcErr\<rparr>))"

definition shardgrp_InstallShard ::
    "(sg_req \<Rightarrow> Err \<times> sg_rep) \<Rightarrow> InstallShardArgs \<Rightarrow> InstallShardReply \<Rightarrow> InstallShardReply option" where
  "shardgrp_InstallShard submit args reply = (case submit (SInstall args) of (rpcErr, rep) \<Rightarrow>
     if rpcErr = OK then (case rep of SInstallRep r \<Rightarrow> Some r | _ \<Rightarrow> None)
     else Some (reply\<lparr>ir_Err := rpcErr\<rparr>))"

definition shardgrp_DeleteShard ::
    "(sg_req \<Rightarrow> Err \<times> sg_rep) \<Rightarrow> DeleteShardArgs \<Rightarrow> DeleteShardReply \<Rightarrow> DeleteShardReply option" where
  "shardgrp_DeleteShard submit args reply = (case submit (SDelete args) of (rpcErr, rep) \<Rightarrow>
     if rpcErr = OK then (case rep of SDeleteRep r \<Rightarrow> Some r | _ \<Rightarrow> None)
     else Some (reply\<lparr>dr_Err := rpcErr\<rparr>))"

text \<open>Start-up: the initial group owns every shard; then the snapshot, if any, is restored.\<close>

definition shardgrp_init :: "Tgid \<Rightarrow> int \<Rightarrow> ShardgrpServer" where
  "shardgrp_init gid me =
     \<lparr>sg_me = me, sg_gid = gid,
      sg_kvm = replicate NShards (Some Map.empty),
      sg_lastPutByClientId = Some Map.empty,
      sg_cfgNumByShid = Some (map_of
        (map (\<lambda>i. (int i, if gid = Gid1 then 1 else 0)) [0..<NShards])),
      sg_shardStatuses = replicate NShards (if gid = Gid1 then Serving else Absent),
      sg_shardClients = replicate NShards (Some [])\<rparr>"

definition StartServerShardGrp ::
    "Tgid \<Rightarrow> int \<Rightarrow> ShardgrpSnapshotData option \<Rightarrow> ShardgrpServer option" where
  "StartServerShardGrp gid me snapshot = shardgrp_Restore (shardgrp_init gid me) snapshot"

section \<open>Well-formedness\<close>

definition shard_range :: "Tshid \<Rightarrow> bool" where
  "shard_range shid \<longleftrightarrow> 0 \<le> shid \<and> shid < int NShards"

text \<open>
  The arrays have their length, the server's maps are not nil, a shard that is served has a map
  and a set of clients, and every client of a shard has a last put.
\<close>

definition sg_ok :: "ShardgrpServer \<Rightarrow> bool" where
  "sg_ok kv \<longleftrightarrow> length (sg_kvm kv) = NShards \<and> length (sg_shardStatuses kv) = NShards \<and>
     length (sg_shardClients kv) = NShards \<and> sg_lastPutByClientId kv \<noteq> None \<and>
     sg_cfgNumByShid kv \<noteq> None \<and>
     (\<forall>i < NShards. sg_shardStatuses kv ! i = Serving \<longrightarrow>
        sg_kvm kv ! i \<noteq> None \<and> sg_shardClients kv ! i \<noteq> None) \<and>
     (\<forall>i < NShards. \<forall>cs. sg_shardClients kv ! i = Some cs \<longrightarrow>
        (\<forall>c \<in> set cs. go_lookup (sg_lastPutByClientId kv) c \<noteq> None))"

text \<open>Requests the controller and the clients send: shards exist, installed states are not nil.\<close>

fun sg_valid :: "sg_req \<Rightarrow> bool" where
  "sg_valid (SFreeze a) = shard_range (fa_Shard a)"
| "sg_valid (SInstall a) = (shard_range (ia_Shard a) \<and> ia_State a \<noteq> None)"
| "sg_valid (SDelete a) = shard_range (da_Shard a)"
| "sg_valid _ = True"

lemma shard_range_Key2Shard [simp]: "shard_range (Key2Shard k)"
  by (simp add: shard_range_def Key2Shard_def)

lemma slice_range:
  assumes "shard_range i" and "length xs = NShards"
  shows "slice_at xs i = Some (xs ! nat i)" and "slice_set xs i v = Some (xs[nat i := v])"
  using assms by (simp_all add: shard_range_def slice_at_def slice_set_def)

lemma nat_shard_less: "shard_range i \<Longrightarrow> nat i < 12"
  by (simp add: shard_range_def nat_less_iff)

lemmas sg_Put_defs = shardgrp_DoOp_Put_def shardgrp_run_Put_def

section \<open>Puts and gets: the contract of a store with duplicate detection\<close>

definition servable :: "ShardgrpServer \<Rightarrow> string \<Rightarrow> bool" where
  "servable kv k \<longleftrightarrow> slice_at (sg_shardStatuses kv) (Key2Shard k) = Some Serving \<and>
     (\<exists>m. slice_at (sg_kvm kv) (Key2Shard k) = Some (Some m)) \<and>
     (\<exists>cs. slice_at (sg_shardClients kv) (Key2Shard k) = Some (Some cs)) \<and>
     sg_lastPutByClientId kv \<noteq> None"

definition shardgrp_put_err :: "ShardgrpServer \<Rightarrow> PutArgs \<Rightarrow> ShardgrpServer \<times> Err" where
  "shardgrp_put_err kv a = (case shardgrp_DoOp_Put kv a of
       Some (kv', r) \<Rightarrow> (kv', pr_Err r) | None \<Rightarrow> (kv, ErrZero))"

definition shardgrp_get_key :: "ShardgrpServer \<Rightarrow> string \<Rightarrow> GetReply" where
  "shardgrp_get_key kv k = (case shardgrp_DoOp_Get kv \<lparr>ga_Key = k\<rparr> of
       Some r \<Rightarrow> r | None \<Rightarrow> \<lparr>gr_Value = '''', gr_Version = 0, gr_Err = ErrZero\<rparr>)"

definition sg_last :: "ShardgrpServer \<Rightarrow> u64 \<Rightarrow> LastPut option" where
  "sg_last kv = go_lookup (sg_lastPutByClientId kv)"

text \<open>The keys of all shards as one map.\<close>

definition sg_map :: "ShardgrpServer \<Rightarrow> kvmap" where
  "sg_map kv k = (case slice_at (sg_kvm kv) (Key2Shard k) of None \<Rightarrow> None | Some m \<Rightarrow> go_lookup m k)"

lemma spec_put_cong:
  assumes "m (pa_Key a) = m' (pa_Key a)"
  shows "snd (spec_put m a) = snd (spec_put m' a)"
    and "fst (spec_put m a) (pa_Key a) = fst (spec_put m' a) (pa_Key a)"
  using assms by (auto simp: spec_put_def split: option.splits)

lemma shardgrp_Put_dup:
  assumes "slice_at (sg_shardStatuses kv) (Key2Shard (pa_Key a)) = Some Serving"
    and "sg_last kv (pa_ClientId a) = Some p" and "pa_RequestId a \<le> lp_RequestId p"
  shows "shardgrp_DoOp_Put kv a = Some (kv, lp_Reply p)"
  using assms by (simp add: shardgrp_DoOp_Put_def sg_last_def)

lemma shardgrp_Put_not_serving:
  assumes "slice_at (sg_shardStatuses kv) (Key2Shard (pa_Key a)) = Some st" and "st \<noteq> Serving"
  shows "shardgrp_DoOp_Put kv a = Some (kv, \<lparr>pr_Err = ErrWrongGroup\<rparr>)"
  using assms by (simp add: shardgrp_DoOp_Put_def)

lemma shardgrp_Put_fresh:
  assumes "slice_at (sg_shardStatuses kv) (Key2Shard (pa_Key a)) = Some Serving"
    and "slice_at (sg_kvm kv) (Key2Shard (pa_Key a)) = Some (Some m)"
    and "slice_at (sg_shardClients kv) (Key2Shard (pa_Key a)) = Some (Some cs)"
    and "sg_lastPutByClientId kv = Some l" and "fresh l a"
  shows "shardgrp_DoOp_Put kv a = Some
    (kv\<lparr>sg_kvm := (sg_kvm kv)[nat (Key2Shard (pa_Key a)) := Some (fst (spec_put m a))],
        sg_lastPutByClientId := Some (l(pa_ClientId a \<mapsto>
          \<lparr>lp_RequestId = pa_RequestId a, lp_Reply = \<lparr>pr_Err = snd (spec_put m a)\<rparr>\<rparr>)),
        sg_shardClients := (sg_shardClients kv)[nat (Key2Shard (pa_Key a)) :=
          Some (List.insert (pa_ClientId a) cs)]\<rparr>,
     \<lparr>pr_Err = snd (spec_put m a)\<rparr>)"
proof -
  have "slice_set (sg_kvm kv) (Key2Shard (pa_Key a)) v =
      Some ((sg_kvm kv)[nat (Key2Shard (pa_Key a)) := v])"
    and "slice_set (sg_shardClients kv) (Key2Shard (pa_Key a)) w =
      Some ((sg_shardClients kv)[nat (Key2Shard (pa_Key a)) := w])" for v w
    using assms(2,3) by (auto simp: slice_at_Some_iff slice_set_def)
  with assms show ?thesis
    by (auto simp: sg_Put_defs kvraft_execute_spec fresh_def not_less split: option.splits)
qed

text \<open>A put that neither finds a nil map nor a full record either is refused or touches no map.\<close>

lemma shardgrp_Put_nil:
  assumes "shardgrp_run_Put kv a = Some (kv', r)"
    and "\<not> servable kv (pa_Key a)"
    and "slice_at (sg_shardStatuses kv) (Key2Shard (pa_Key a)) = Some Serving"
  shows "\<exists>i l' cs. slice_at (sg_kvm kv) (Key2Shard (pa_Key a)) = Some None \<and> i = nat (Key2Shard (pa_Key a)) \<and>
    sg_shardClients kv ! i \<noteq> None \<and> sg_lastPutByClientId kv \<noteq> None \<and>
    kv' = kv\<lparr>sg_lastPutByClientId := Some l', sg_shardClients := (sg_shardClients kv)[i := Some cs]\<rparr>"
proof -
  obtain m where m: "slice_at (sg_kvm kv) (Key2Shard (pa_Key a)) = Some m"
    using assms(1) by (auto simp: shardgrp_run_Put_def bind_eq_Some_conv)
  obtain cs where cs: "slice_at (sg_shardClients kv) (Key2Shard (pa_Key a)) = Some (Some cs)"
    using assms(1) by (auto simp: shardgrp_run_Put_def bind_eq_Some_conv)
  obtain l where l: "sg_lastPutByClientId kv = Some l"
    using assms(1) by (auto simp: shardgrp_run_Put_def bind_eq_Some_conv go_update_def split: option.splits)
  have "m = None" using assms(2,3) m cs l by (cases m) (auto simp: servable_def)
  moreover have "(sg_kvm kv)[nat (Key2Shard (pa_Key a)) := None] = sg_kvm kv"
    using m calculation by (auto simp: slice_at_Some_iff intro: list_update_same_conv [THEN iffD2])
  ultimately show ?thesis
    using assms(1) m cs l
    by (auto simp: shardgrp_run_Put_def kvraft_execute_def bind_eq_Some_conv slice_Some_iffs
        split: if_splits dest: sym [of "Some _"])
qed

lemma slice_at_update:
  "slice_at (xs[nat i := v]) j =
     (if 0 \<le> i \<and> 0 \<le> j \<and> i = j \<and> i < int (length xs) then Some v
      else if 0 \<le> i then slice_at xs j else slice_at (xs[0 := v]) j)"
  by (auto simp: slice_at_def nth_list_update nat_eq_iff)

lemma shardgrp_put_cases:
  obtains (crash) "shardgrp_DoOp_Put kv a = None" "\<not> (servable kv (pa_Key a) \<and> fresh (sg_last kv) a)"
  | (refused) e where "shardgrp_DoOp_Put kv a = Some (kv, e)"
      "\<not> (servable kv (pa_Key a) \<and> fresh (sg_last kv) a)"
  | (nil) l' cs kv' r where "shardgrp_DoOp_Put kv a = Some (kv', r)" "\<not> servable kv (pa_Key a)"
      "slice_at (sg_kvm kv) (Key2Shard (pa_Key a)) = Some None" "sg_lastPutByClientId kv \<noteq> None"
      "sg_shardClients kv ! nat (Key2Shard (pa_Key a)) \<noteq> None"
      "kv' = kv\<lparr>sg_lastPutByClientId := Some l',
         sg_shardClients := (sg_shardClients kv)[nat (Key2Shard (pa_Key a)) := Some cs]\<rparr>"
  | (fresh) m cs l where "servable kv (pa_Key a)" "sg_lastPutByClientId kv = Some l" "fresh l a"
      "slice_at (sg_kvm kv) (Key2Shard (pa_Key a)) = Some (Some m)"
      "slice_at (sg_shardClients kv) (Key2Shard (pa_Key a)) = Some (Some cs)"
      "shardgrp_DoOp_Put kv a = Some
        (kv\<lparr>sg_kvm := (sg_kvm kv)[nat (Key2Shard (pa_Key a)) := Some (fst (spec_put m a))],
          sg_lastPutByClientId := Some (l(pa_ClientId a \<mapsto>
            \<lparr>lp_RequestId = pa_RequestId a, lp_Reply = \<lparr>pr_Err = snd (spec_put m a)\<rparr>\<rparr>)),
          sg_shardClients := (sg_shardClients kv)[nat (Key2Shard (pa_Key a)) :=
            Some (List.insert (pa_ClientId a) cs)]\<rparr>,
         \<lparr>pr_Err = snd (spec_put m a)\<rparr>)"
proof (cases "slice_at (sg_shardStatuses kv) (Key2Shard (pa_Key a))")
  case None
  then show ?thesis using crash by (simp add: shardgrp_DoOp_Put_def servable_def)
next
  case (Some st)
  show ?thesis
  proof (cases "st = Serving \<and> fresh (sg_last kv) a")
    case False
    then show ?thesis
    proof (cases "st = Serving")
      case True
      with False obtain p where "sg_last kv (pa_ClientId a) = Some p"
        and "pa_RequestId a \<le> lp_RequestId p"
        by (auto simp: fresh_def not_less split: option.splits)
      with True False Some show ?thesis using refused shardgrp_Put_dup by blast
    next
      case notserving: False
      have "\<not> servable kv (pa_Key a)" using notserving Some by (auto simp: servable_def)
      then show ?thesis using refused shardgrp_Put_not_serving [OF Some notserving] by blast
    qed
  next
    case True
    then have run: "shardgrp_DoOp_Put kv a = shardgrp_run_Put kv a" using Some
      by (auto simp: shardgrp_DoOp_Put_def sg_last_def fresh_def split: option.splits)
    show ?thesis
    proof (cases "servable kv (pa_Key a)")
      case srv: True
      then obtain m cs l where
        "slice_at (sg_kvm kv) (Key2Shard (pa_Key a)) = Some (Some m)"
        "slice_at (sg_shardClients kv) (Key2Shard (pa_Key a)) = Some (Some cs)"
        "sg_lastPutByClientId kv = Some l" "fresh l a"
        using True by (auto simp: servable_def sg_last_def)
      with srv Some True show ?thesis
        using fresh [OF srv] shardgrp_Put_fresh [of kv a m cs l] by blast
    next
      case nsrv: False
      show ?thesis
      proof (cases "shardgrp_run_Put kv a")
        case None
        with crash run nsrv show ?thesis by simp
      next
        case (Some r)
        with nil nsrv run True shardgrp_Put_nil [of kv a "fst r" "snd r"]
          \<open>slice_at (sg_shardStatuses kv) _ = Some st\<close> show ?thesis by (cases r) auto
      qed
    qed
  qed
qed

lemma sg_map_fresh:
  assumes "slice_at (sg_kvm kv) (Key2Shard (pa_Key a)) = Some (Some m)"
  shows "fst (spec_put (sg_map kv) a) = (\<lambda>k.
      case slice_at ((sg_kvm kv)[nat (Key2Shard (pa_Key a)) := Some (fst (spec_put m a))]) (Key2Shard k) of
        None \<Rightarrow> None | Some m \<Rightarrow> go_lookup m k)"
    and "snd (spec_put (sg_map kv) a) = snd (spec_put m a)"
proof -
  have key: "sg_map kv (pa_Key a) = m (pa_Key a)" using assms by (simp add: sg_map_def)
  show "snd (spec_put (sg_map kv) a) = snd (spec_put m a)" using spec_put_cong(1) [of "sg_map kv" a m, OF key] .
  show "fst (spec_put (sg_map kv) a) = (\<lambda>k.
      case slice_at ((sg_kvm kv)[nat (Key2Shard (pa_Key a)) := Some (fst (spec_put m a))]) (Key2Shard k) of
        None \<Rightarrow> None | Some m \<Rightarrow> go_lookup m k)" (is "_ = ?f")
  proof
    fix k
    have i: "0 \<le> Key2Shard (pa_Key a)" "Key2Shard (pa_Key a) < int (length (sg_kvm kv))"
      using assms by (auto simp: slice_at_Some_iff)
    show "fst (spec_put (sg_map kv) a) k = ?f k"
    proof (cases "k = pa_Key a")
      case True
      then show ?thesis using spec_put_cong(2) [of "sg_map kv" a m, OF key] i
        by (simp add: slice_at_update)
    next
      case False
      show ?thesis
      proof (cases "Key2Shard k = Key2Shard (pa_Key a)")
        case same: True
        have "sg_map kv k = m k" using same assms by (simp add: sg_map_def)
        with same False i show ?thesis by (simp add: spec_put_other_key slice_at_update)
      next
        case other: False
        with False i show ?thesis by (simp add: spec_put_other_key slice_at_update sg_map_def)
      qed
    qed
  qed
qed

lemma shardgrp_put_servable:
  "servable (fst (shardgrp_put_err kv a)) k = servable kv k"
proof (cases rule: shardgrp_put_cases [of kv a])
  case (nil l' cs kv' r)
  then have "0 \<le> Key2Shard (pa_Key a)" by (simp add: slice_at_Some_iff)
  with nil show ?thesis
    by (cases "Key2Shard k = Key2Shard (pa_Key a)")
      (auto simp: shardgrp_put_err_def servable_def slice_at_update)
next
  case (fresh m cs l)
  then have "0 \<le> Key2Shard (pa_Key a)" by (simp add: slice_at_Some_iff)
  with fresh show ?thesis
    by (cases "Key2Shard k = Key2Shard (pa_Key a)")
      (auto simp: shardgrp_put_err_def servable_def slice_at_update slice_at_Some_iff)
qed (auto simp: shardgrp_put_err_def)

interpretation shardgrp: dedup_store sg_map shardgrp_put_err shardgrp_get_key
  "\<lambda>kv a. servable kv (pa_Key a) \<and> fresh (sg_last kv) a" servable sg_last servable
proof
  fix kv a k p
  show "sg_map (fst (shardgrp_put_err kv a)) = fst (spec_put (sg_map kv) a) \<and>
      snd (shardgrp_put_err kv a) = snd (spec_put (sg_map kv) a)"
    if "servable kv (pa_Key a) \<and> fresh (sg_last kv) a"
    using that
  proof (cases rule: shardgrp_put_cases [of kv a])
    case (fresh m cs l)
    then show ?thesis using sg_map_fresh [OF fresh(4)]
      by (simp add: shardgrp_put_err_def fun_eq_iff sg_map_def)
  qed simp_all
  show "sg_map (fst (shardgrp_put_err kv a)) = sg_map kv"
    if "\<not> (servable kv (pa_Key a) \<and> fresh (sg_last kv) a)"
    using that
    by (cases rule: shardgrp_put_cases [of kv a])
      (auto simp: shardgrp_put_err_def fun_eq_iff sg_map_def sg_last_def)
  show "shardgrp_get_key kv k = spec_get (sg_map kv) k" if "servable kv k"
    using that by (auto simp: shardgrp_get_key_def shardgrp_DoOp_Get_def servable_def spec_get_def sg_map_def)
  show "servable (fst (shardgrp_put_err kv a)) k = servable kv k" by (rule shardgrp_put_servable)
  then show "servable kv k \<Longrightarrow> servable (fst (shardgrp_put_err kv a)) k" by simp
  show "sg_last (fst (shardgrp_put_err kv a)) = (sg_last kv)(pa_ClientId a \<mapsto>
        \<lparr>lp_RequestId = pa_RequestId a, lp_Reply = \<lparr>pr_Err = snd (shardgrp_put_err kv a)\<rparr>\<rparr>)"
    if "servable kv (pa_Key a)" and "fresh (sg_last kv) a"
  proof (cases rule: shardgrp_put_cases [of kv a])
    case (fresh m cs l)
    then show ?thesis by (simp add: shardgrp_put_err_def sg_last_def)
  qed (use that in auto)
  show "shardgrp_put_err kv a = (kv, pr_Err (lp_Reply p))"
    if "servable kv (pa_Key a)" and "sg_last kv (pa_ClientId a) = Some p"
      and "pa_RequestId a \<le> lp_RequestId p"
    using that shardgrp_Put_dup [of kv a p] by (simp add: shardgrp_put_err_def servable_def)
qed simp_all

section \<open>Every operation keeps the server well formed\<close>

lemma those_map_Some: "(\<And>x. x \<in> set xs \<Longrightarrow> f x = Some (g x)) \<Longrightarrow> those (map f xs) = Some (map g xs)"
  by (induction xs) auto

lemma client_list_simps [simp]: "client_list None = []" "client_list (Some xs) = xs"
  by (simp_all add: client_list_def)

lemma sg_okD:
  assumes "sg_ok kv"
  shows "length (sg_kvm kv) = 12" "length (sg_shardStatuses kv) = 12" "length (sg_shardClients kv) = 12"
    "\<exists>l. sg_lastPutByClientId kv = Some l" "\<exists>n. sg_cfgNumByShid kv = Some n"
    "\<And>i. i < 12 \<Longrightarrow> sg_shardStatuses kv ! i = Serving \<Longrightarrow>
      (\<exists>m. sg_kvm kv ! i = Some m) \<and> (\<exists>cs. sg_shardClients kv ! i = Some cs)"
    "\<And>i c. i < 12 \<Longrightarrow> c \<in> set (client_list (sg_shardClients kv ! i)) \<Longrightarrow> \<exists>p. sg_last kv c = Some p"
proof -
  show "\<exists>p. sg_last kv c = Some p" if "i < 12" "c \<in> set (client_list (sg_shardClients kv ! i))" for i c
    using assms that unfolding sg_ok_def sg_last_def
    by (cases "sg_shardClients kv ! i") auto
qed (use assms in \<open>auto simp: sg_ok_def\<close>)

lemma sg_okI:
  assumes "length (sg_kvm kv) = 12" "length (sg_shardStatuses kv) = 12" "length (sg_shardClients kv) = 12"
    "sg_lastPutByClientId kv = Some l" "sg_cfgNumByShid kv = Some n"
    "\<And>i. i < 12 \<Longrightarrow> sg_shardStatuses kv ! i = Serving \<Longrightarrow>
      sg_kvm kv ! i \<noteq> None \<and> sg_shardClients kv ! i \<noteq> None"
    "\<And>i c. i < 12 \<Longrightarrow> c \<in> set (client_list (sg_shardClients kv ! i)) \<Longrightarrow> l c \<noteq> None"
  shows "sg_ok kv"
  using assms unfolding sg_ok_def by force

lemma marshall_ok:
  assumes "sg_ok kv" and "shard_range shid"
  shows "marshallShardState kv shid = Some
    \<lparr>ss_Kv = go_lookup (sg_kvm kv ! nat shid),
     ss_LastPutByClientId = map (\<lambda>c. (c, the (sg_last kv c)))
       (client_list (sg_shardClients kv ! nat shid))\<rparr>"
proof -
  have "those (map (\<lambda>c. map_option (Pair c) (go_lookup (sg_lastPutByClientId kv) c))
      (client_list (sg_shardClients kv ! nat shid))) =
    Some (map (\<lambda>c. (c, the (sg_last kv c))) (client_list (sg_shardClients kv ! nat shid)))"
  proof (rule those_map_Some)
    fix c assume "c \<in> set (client_list (sg_shardClients kv ! nat shid))"
    then obtain p where "sg_last kv c = Some p"
      using sg_okD(7) [OF assms(1)] nat_shard_less [OF assms(2)] by blast
    then show "map_option (Pair c) (go_lookup (sg_lastPutByClientId kv) c) = Some (c, the (sg_last kv c))"
      by (simp add: sg_last_def)
  qed
  then show ?thesis
    using assms(2) sg_okD(1,3) [OF assms(1)]
    by (simp add: marshallShardState_def slice_range)
qed

lemma set_status_ok:
  assumes "sg_ok kv" and "shard_range shid"
  shows "set_status kv shid st n = Some (kv\<lparr>sg_shardStatuses := (sg_shardStatuses kv)[nat shid := st],
      sg_cfgNumByShid := Some ((go_lookup (sg_cfgNumByShid kv))(shid \<mapsto> n))\<rparr>)"
  using assms(2) sg_okD(2,5) [OF assms(1)] by (auto simp: set_status_def slice_range)

lemma sg_ok_status:
  assumes "sg_ok kv" and "shard_range shid"
    and "st = Serving \<Longrightarrow> sg_kvm kv ! nat shid \<noteq> None \<and> sg_shardClients kv ! nat shid \<noteq> None"
  shows "sg_ok (kv\<lparr>sg_shardStatuses := (sg_shardStatuses kv)[nat shid := st], sg_cfgNumByShid := Some n\<rparr>)"
proof -
  obtain l where l: "sg_lastPutByClientId kv = Some l" using sg_okD(4) [OF assms(1)] by blast
  show ?thesis
  proof (rule sg_okI [where l = l and n = n])
    fix i :: nat assume "i < 12"
      and "sg_shardStatuses (kv\<lparr>sg_shardStatuses := (sg_shardStatuses kv)[nat shid := st],
        sg_cfgNumByShid := Some n\<rparr>) ! i = Serving"
    then show "sg_kvm (kv\<lparr>sg_shardStatuses := (sg_shardStatuses kv)[nat shid := st],
        sg_cfgNumByShid := Some n\<rparr>) ! i \<noteq> None \<and>
      sg_shardClients (kv\<lparr>sg_shardStatuses := (sg_shardStatuses kv)[nat shid := st],
        sg_cfgNumByShid := Some n\<rparr>) ! i \<noteq> None"
      using sg_okD(6) [OF assms(1), of i] assms(3) sg_okD(2) [OF assms(1)]
      by (cases "i = nat shid") auto
  next
    fix i :: nat and c assume "i < 12" and "c \<in> set (client_list (sg_shardClients
      (kv\<lparr>sg_shardStatuses := (sg_shardStatuses kv)[nat shid := st], sg_cfgNumByShid := Some n\<rparr>) ! i))"
    then show "l c \<noteq> None" using sg_okD(7) [OF assms(1), of i c] l by (auto simp: sg_last_def)
  qed (use sg_okD [OF assms(1)] l in auto)
qed

lemma sg_ok_servable:
  assumes "sg_ok kv"
  shows "servable kv k \<longleftrightarrow> sg_shardStatuses kv ! nat (Key2Shard k) = Serving"
  using sg_okD [OF assms] nat_shard_less [OF shard_range_Key2Shard, of k]
  by (fastforce simp: servable_def slice_range)

lemma shardgrp_Put_ok:
  assumes "sg_ok kv"
  shows "\<exists>kv' r. shardgrp_DoOp_Put kv a = Some (kv', r) \<and> sg_ok kv' \<and>
    sg_shardStatuses kv' = sg_shardStatuses kv \<and> sg_cfgNumByShid kv' = sg_cfgNumByShid kv"
proof (cases rule: shardgrp_put_cases [of kv a])
  case crash
  have st: "slice_at (sg_shardStatuses kv) (Key2Shard (pa_Key a)) =
      Some (sg_shardStatuses kv ! nat (Key2Shard (pa_Key a)))"
    using sg_okD(2) [OF assms] by (simp add: slice_range)
  show ?thesis
  proof (cases "servable kv (pa_Key a)")
    case True
    with crash(2) obtain p where "sg_last kv (pa_ClientId a) = Some p" and "pa_RequestId a \<le> lp_RequestId p"
      by (auto simp: fresh_def not_less split: option.splits)
    with True crash(1) shardgrp_Put_dup [of kv a p] show ?thesis by (simp add: servable_def)
  next
    case False
    with crash(1) st shardgrp_Put_not_serving [OF st] show ?thesis by (simp add: sg_ok_servable [OF assms])
  qed
next
  case (nil l' cs kv' r)
  then have "sg_shardStatuses kv ! nat (Key2Shard (pa_Key a)) \<noteq> Serving"
    by (simp add: sg_ok_servable [OF assms])
  moreover have "slice_at (sg_shardStatuses kv) (Key2Shard (pa_Key a)) =
      Some (sg_shardStatuses kv ! nat (Key2Shard (pa_Key a)))"
    using sg_okD(2) [OF assms] by (simp add: slice_range)
  ultimately show ?thesis using shardgrp_Put_not_serving assms by blast
next
  case (fresh m cs l)
  let ?i = "nat (Key2Shard (pa_Key a))"
  let ?l = "l(pa_ClientId a \<mapsto> \<lparr>lp_RequestId = pa_RequestId a, lp_Reply = \<lparr>pr_Err = snd (spec_put m a)\<rparr>\<rparr>)"
  have i: "?i < 12" by (rule nat_shard_less) simp
  have cs: "sg_shardClients kv ! ?i = Some cs" using fresh(5) by (simp add: slice_at_Some_iff)
  have "sg_ok (kv\<lparr>sg_kvm := (sg_kvm kv)[?i := Some (fst (spec_put m a))], sg_lastPutByClientId := Some ?l,
          sg_shardClients := (sg_shardClients kv)[?i := Some (List.insert (pa_ClientId a) cs)]\<rparr>)"
    (is "sg_ok ?kv'")
  proof (rule sg_okI [where l = ?l and n = "the (sg_cfgNumByShid kv)"])
    fix j :: nat assume "j < 12" and "sg_shardStatuses ?kv' ! j = Serving"
    then show "sg_kvm ?kv' ! j \<noteq> None \<and> sg_shardClients ?kv' ! j \<noteq> None"
      using sg_okD(1,3) [OF assms] sg_okD(6) [OF assms, of j] i
      by (cases "j = ?i") (auto simp: nth_list_update)
  next
    fix j :: nat and c assume "j < 12" and "c \<in> set (client_list (sg_shardClients ?kv' ! j))"
    then show "?l c \<noteq> None"
      using sg_okD(7) [OF assms, of j c] sg_okD(3) [OF assms] cs fresh(2) i
      by (cases "j = ?i") (auto simp: sg_last_def split: if_splits)
  qed (use sg_okD [OF assms] in auto)
  with fresh(6) show ?thesis by simp
qed (use assms in simp)

lemma merge_lastPut_at:
  assumes "l c = Some p"
  shows "\<exists>q. merge_lastPut l e c = Some q \<and> lp_RequestId p \<le> lp_RequestId q"
  using assms by (auto simp: merge_lastPut_def split: option.splits)

lemma foldl_merge_grows:
  "l c = Some p \<Longrightarrow> \<exists>q. foldl merge_lastPut l es c = Some q \<and> lp_RequestId p \<le> lp_RequestId q"
proof (induction es arbitrary: l p)
  case (Cons e es)
  from merge_lastPut_at [of l c p e, OF Cons.prems] obtain q
    where q: "merge_lastPut l e c = Some q" "lp_RequestId p \<le> lp_RequestId q" by blast
  from Cons.IH [of "merge_lastPut l e" q, OF q(1)] q(2) show ?case by (auto intro: order_trans)
qed simp

lemma foldl_merge_contains:
  "(c, p) \<in> set es \<Longrightarrow>
     \<exists>q. foldl merge_lastPut l es c = Some q \<and> lp_RequestId p \<le> lp_RequestId q"
proof (induction es arbitrary: l)
  case (Cons e es)
  show ?case
  proof (cases "e = (c, p)")
    case True
    have "\<exists>q. merge_lastPut l e c = Some q \<and> lp_RequestId p \<le> lp_RequestId q"
      using True by (auto simp: merge_lastPut_def not_less split: option.splits)
    then obtain q where q: "merge_lastPut l e c = Some q" "lp_RequestId p \<le> lp_RequestId q" by blast
    from foldl_merge_grows [of "merge_lastPut l e" c q es, OF q(1)] q(2) show ?thesis
      by (auto intro: order_trans)
  next
    case False
    with Cons show ?thesis by simp
  qed
qed simp

text \<open>The result takes for each client one of the records at hand, so it does not depend on the order.\<close>

lemma foldl_merge_from:
  "foldl merge_lastPut l es c = Some q \<Longrightarrow> l c = Some q \<or> (c, q) \<in> set es"
proof (induction es arbitrary: l)
  case (Cons e es)
  have "merge_lastPut l e c = Some q \<Longrightarrow> l c = Some q \<or> (c, q) = e"
    by (cases e) (auto simp: merge_lastPut_def split: option.splits if_splits)
  with Cons show ?case by auto
qed simp

lemma set_fold_insert: "set (fold (\<lambda>e. List.insert (fst e)) es acc) = fst ` set es \<union> set acc"
  by (induction es arbitrary: acc) auto

lemma install_ok:
  assumes "sg_ok kv" and "shard_range shid"
  shows "\<exists>l. sg_lastPutByClientId kv = Some l \<and>
    installShardState kv shid (Some st) = Some (kv\<lparr>sg_kvm := (sg_kvm kv)[nat shid := Some (ss_Kv st)],
      sg_shardClients := (sg_shardClients kv)[nat shid :=
        Some (fold (\<lambda>e. List.insert (fst e)) (ss_LastPutByClientId st) [])],
      sg_lastPutByClientId := Some (foldl merge_lastPut l (ss_LastPutByClientId st))\<rparr>)"
  using assms(2) sg_okD(1,3,4) [OF assms(1)] by (auto simp: installShardState_def slice_range)

lemma sg_ok_install:
  assumes "sg_ok kv" and "shard_range shid" and "sg_lastPutByClientId kv = Some l"
  shows "sg_ok (kv\<lparr>sg_kvm := (sg_kvm kv)[nat shid := Some m],
      sg_shardClients := (sg_shardClients kv)[nat shid := Some (fold (\<lambda>e. List.insert (fst e)) es [])],
      sg_lastPutByClientId := Some (foldl merge_lastPut l es)\<rparr>)" (is "sg_ok ?kv'")
proof (rule sg_okI [where l = "foldl merge_lastPut l es" and n = "the (sg_cfgNumByShid kv)"])
  have i: "nat shid < 12" using nat_shard_less [OF assms(2)] .
  fix j :: nat
  show "sg_kvm ?kv' ! j \<noteq> None \<and> sg_shardClients ?kv' ! j \<noteq> None"
    if "j < 12" and "sg_shardStatuses ?kv' ! j = Serving"
    using that sg_okD(1,3) [OF assms(1)] sg_okD(6) [OF assms(1), of j] i
    by (cases "j = nat shid") auto
  show "foldl merge_lastPut l es c \<noteq> None"
    if "j < 12" and "c \<in> set (client_list (sg_shardClients ?kv' ! j))" for c
  proof (cases "j = nat shid")
    case True
    with that i sg_okD(3) [OF assms(1)] obtain p where "(c, p) \<in> set es"
      by (auto simp: set_fold_insert)
    from foldl_merge_contains [OF this, of l] show ?thesis by auto
  next
    case False
    with that sg_okD(7) [OF assms(1), of j c] assms(3) obtain p where p: "l c = Some p"
      by (auto simp: sg_last_def)
    from foldl_merge_grows [of l c p es, OF p] show ?thesis by auto
  qed
qed (use sg_okD [OF assms(1)] in auto)

text \<open>
  The life of a shard in a group: installed under a new number, frozen under a newer one, deleted
  under the number it was frozen with.
\<close>

definition shard_step :: "ShardStatus \<times> Tnum \<Rightarrow> ShardStatus \<times> Tnum \<Rightarrow> bool" where
  "shard_step x y \<longleftrightarrow> x = y \<or>
     fst x = Absent \<and> fst y = Serving \<and> snd x < snd y \<or>
     fst x = Serving \<and> fst y = Frozen \<and> snd x < snd y \<or>
     fst x = Frozen \<and> fst y = Absent \<and> snd x = snd y"

abbreviation shard_of :: "ShardgrpServer \<Rightarrow> Tshid \<Rightarrow> ShardStatus \<times> Tnum" where
  "shard_of kv i \<equiv> (sg_shardStatuses kv ! nat i, local_num kv i)"

lemma local_num_simps [simp]:
  "local_num (kv\<lparr>sg_kvm := a\<rparr>) i = local_num kv i"
  "local_num (kv\<lparr>sg_shardClients := b\<rparr>) i = local_num kv i"
  "local_num (kv\<lparr>sg_lastPutByClientId := c\<rparr>) i = local_num kv i"
  "local_num (kv\<lparr>sg_shardStatuses := d\<rparr>) i = local_num kv i"
  "local_num (kv\<lparr>sg_cfgNumByShid := Some (f(j \<mapsto> n))\<rparr>) i =
     (if i = j then n else local_num (kv\<lparr>sg_cfgNumByShid := Some f\<rparr>) i)"
  "local_num (kv\<lparr>sg_cfgNumByShid := Some (go_lookup (sg_cfgNumByShid kv))\<rparr>) i = local_num kv i"
  by (simp_all add: local_num_def)

lemma shard_step_refl [simp]: "shard_step x x"
  by (simp add: shard_step_def)

lemma status_update_step:
  assumes "sg_ok kv" and "shard_range shid" and "shard_range i"
    and "sg_shardStatuses kv' = (sg_shardStatuses kv)[nat shid := st]"
    and "sg_cfgNumByShid kv' = Some ((go_lookup (sg_cfgNumByShid kv))(shid \<mapsto> n))"
    and "shard_step (shard_of kv shid) (st, n)"
  shows "shard_step (shard_of kv i) (shard_of kv' i)"
proof (cases "i = shid")
  case True
  then show ?thesis using assms sg_okD(2) [OF assms(1)] nat_shard_less [OF assms(2)]
    by (simp add: local_num_def)
next
  case False
  moreover from False have "nat shid \<noteq> nat i" using assms(2,3)
    by (auto simp: shard_range_def eq_nat_nat_iff)
  ultimately show ?thesis using assms(4,5) by (simp add: local_num_def)
qed

lemma DoOp_Freeze_ok:
  assumes "sg_ok kv" and "shard_range (fa_Shard a)"
  shows "\<exists>kv' r. DoOp_Freeze kv a = Some (kv', r) \<and> sg_ok kv' \<and>
    (\<forall>i. shard_range i \<longrightarrow> shard_step (shard_of kv i) (shard_of kv' i))"
proof (cases "local_num kv (fa_Shard a) < fa_Num a \<and> sg_shardStatuses kv ! nat (fa_Shard a) = Serving")
  case True
  let ?kv = "kv\<lparr>sg_shardStatuses := (sg_shardStatuses kv)[nat (fa_Shard a) := Frozen],
      sg_cfgNumByShid := Some ((go_lookup (sg_cfgNumByShid kv))(fa_Shard a \<mapsto> fa_Num a))\<rparr>"
  have ok: "sg_ok ?kv" by (rule sg_ok_status [OF assms]) simp
  have "\<exists>r. DoOp_Freeze kv a = Some (?kv, r)"
    using True marshall_ok [OF ok assms(2)] sg_okD(2) [OF assms(1)]
    by (simp add: DoOp_Freeze_def slice_range [OF assms(2)] set_status_ok [OF assms])
  moreover have "shard_step (shard_of kv i) (shard_of ?kv i)" if "shard_range i" for i
    by (rule status_update_step [OF assms that, where st = Frozen and n = "fa_Num a"])
      (use True in \<open>simp_all add: shard_step_def\<close>)
  ultimately show ?thesis using ok by blast
next
  case False
  then have "\<exists>r. DoOp_Freeze kv a = Some (kv, r)"
    using marshall_ok [OF assms] sg_okD(2) [OF assms(1)]
    by (auto simp: DoOp_Freeze_def slice_range [OF assms(2)])
  with assms(1) show ?thesis by auto
qed

lemma DoOp_Install_ok:
  assumes "sg_ok kv" and "shard_range (ia_Shard a)" and "ia_State a = Some st"
  shows "\<exists>kv' r. DoOp_Install kv a = Some (kv', r) \<and> sg_ok kv' \<and>
    (\<forall>i. shard_range i \<longrightarrow> shard_step (shard_of kv i) (shard_of kv' i))"
proof (cases "local_num kv (ia_Shard a) < ia_Num a \<and> sg_shardStatuses kv ! nat (ia_Shard a) = Absent")
  case True
  obtain l where l: "sg_lastPutByClientId kv = Some l" using sg_okD(4) [OF assms(1)] by blast
  let ?kv1 = "kv\<lparr>sg_kvm := (sg_kvm kv)[nat (ia_Shard a) := Some (ss_Kv st)],
      sg_shardClients := (sg_shardClients kv)[nat (ia_Shard a) :=
        Some (fold (\<lambda>e. List.insert (fst e)) (ss_LastPutByClientId st) [])],
      sg_lastPutByClientId := Some (foldl merge_lastPut l (ss_LastPutByClientId st))\<rparr>"
  let ?kv = "?kv1\<lparr>sg_shardStatuses := (sg_shardStatuses kv)[nat (ia_Shard a) := Serving],
      sg_cfgNumByShid := Some ((go_lookup (sg_cfgNumByShid kv))(ia_Shard a \<mapsto> ia_Num a))\<rparr>"
  have ok1: "sg_ok ?kv1" by (rule sg_ok_install [OF assms(1,2) l])
  have ok: "sg_ok ?kv"
    using sg_ok_status [OF ok1 assms(2), of Serving] sg_okD(1,3) [OF assms(1)] nat_shard_less [OF assms(2)]
    by simp
  have "DoOp_Install kv a = Some (?kv, \<lparr>ir_Err = OK\<rparr>)"
    using True install_ok [OF assms(1,2), of st] set_status_ok [OF ok1 assms(2)] l sg_okD(2) [OF assms(1)]
    by (auto simp: DoOp_Install_def slice_range [OF assms(2)] assms(3))
  moreover have "shard_step (shard_of kv i) (shard_of ?kv i)" if "shard_range i" for i
    by (rule status_update_step [OF assms(1,2) that, where st = Serving and n = "ia_Num a"])
      (use True in \<open>simp_all add: shard_step_def\<close>)
  ultimately show ?thesis using ok by blast
next
  case False
  then have "\<exists>r. DoOp_Install kv a = Some (kv, r)"
    using sg_okD(2) [OF assms(1)] by (auto simp: DoOp_Install_def slice_range [OF assms(2)])
  with assms(1) show ?thesis by auto
qed

lemma DoOp_Delete_ok:
  assumes "sg_ok kv" and "shard_range (da_Shard a)"
  shows "\<exists>kv' r. DoOp_Delete kv a = Some (kv', r) \<and> sg_ok kv' \<and>
    (\<forall>i. shard_range i \<longrightarrow> shard_step (shard_of kv i) (shard_of kv' i))"
proof (cases "da_Num a = local_num kv (da_Shard a) \<and> sg_shardStatuses kv ! nat (da_Shard a) = Frozen")
  case True
  let ?i = "nat (da_Shard a)"
  have i: "?i < 12" using nat_shard_less [OF assms(2)] .
  let ?kv1 = "kv\<lparr>sg_kvm := (sg_kvm kv)[?i := None], sg_shardClients := (sg_shardClients kv)[?i := None]\<rparr>"
  let ?kv = "?kv1\<lparr>sg_shardStatuses := (sg_shardStatuses kv)[?i := Absent],
      sg_cfgNumByShid := Some ((go_lookup (sg_cfgNumByShid kv))(da_Shard a \<mapsto> da_Num a))\<rparr>"
  obtain l n where l: "sg_lastPutByClientId kv = Some l" "sg_cfgNumByShid kv = Some n"
    using sg_okD(4,5) [OF assms(1)] by blast
  have ok1: "sg_ok ?kv1"
  proof (rule sg_okI [where l = l and n = n])
    fix j :: nat
    show "sg_kvm ?kv1 ! j \<noteq> None \<and> sg_shardClients ?kv1 ! j \<noteq> None"
      if "j < 12" "sg_shardStatuses ?kv1 ! j = Serving"
      using that sg_okD(6) [OF assms(1), of j] True by (cases "j = ?i") auto
    show "l c \<noteq> None" if "j < 12" "c \<in> set (client_list (sg_shardClients ?kv1 ! j))" for c
      using that sg_okD(7) [OF assms(1), of j c] sg_okD(3) [OF assms(1)] l i
      by (cases "j = ?i") (auto simp: sg_last_def)
  qed (use sg_okD [OF assms(1)] l in auto)
  have ok: "sg_ok ?kv" using sg_ok_status [OF ok1 assms(2), of Absent] by simp
  have "DoOp_Delete kv a = Some (?kv, \<lparr>dr_Err = OK\<rparr>)"
    using True set_status_ok [OF ok1 assms(2)] sg_okD(1,2,3) [OF assms(1)]
    by (simp add: DoOp_Delete_def slice_range [OF assms(2)])
  moreover have "shard_step (shard_of kv i) (shard_of ?kv i)" if "shard_range i" for i
    by (rule status_update_step [OF assms(1,2) that, where st = Absent and n = "da_Num a"])
      (use True in \<open>simp_all add: shard_step_def\<close>)
  ultimately show ?thesis using ok by blast
next
  case False
  then have "\<exists>r. DoOp_Delete kv a = Some (kv, r)"
    using sg_okD(2) [OF assms(1)]
    by (cases "sg_shardStatuses kv ! nat (da_Shard a)")
      (auto simp: DoOp_Delete_def slice_range [OF assms(2)])
  with assms(1) show ?thesis by auto
qed

lemma shardgrp_DoOp_ok:
  assumes "sg_ok kv" and "sg_valid q"
  shows "\<exists>kv' r. shardgrp_DoOp kv q = Some (kv', r) \<and> sg_ok kv' \<and>
    (\<forall>i. shard_range i \<longrightarrow> shard_step (shard_of kv i) (shard_of kv' i))"
proof (cases q)
  case (SGet a)
  then show ?thesis using assms sg_okD(1,2) [OF assms(1)]
    by (auto simp: shardgrp_DoOp_Get_def slice_range)
next
  case (SPut a)
  obtain kv' r where "shardgrp_DoOp_Put kv a = Some (kv', r)" "sg_ok kv'"
    "sg_shardStatuses kv' = sg_shardStatuses kv" "sg_cfgNumByShid kv' = sg_cfgNumByShid kv"
    using shardgrp_Put_ok [OF assms(1)] by blast
  with SPut show ?thesis by (simp add: local_num_def)
next
  case (SFreeze a)
  with DoOp_Freeze_ok [OF assms(1), of a] assms(2) show ?thesis by auto
next
  case (SInstall a)
  with DoOp_Install_ok [OF assms(1), of a] assms(2) show ?thesis by auto
next
  case (SDelete a)
  with DoOp_Delete_ok [OF assms(1), of a] assms(2) show ?thesis by auto
qed (use assms in simp)

section \<open>The replicated state\<close>

text \<open>What replicas agree on: the maps and sets as they are read, without nil maps.\<close>

definition sg_replicated :: "ShardgrpServer \<Rightarrow> ShardgrpSnapshotData" where
  "sg_replicated kv = the (shardgrp_Snapshot kv)"

lemma sg_replicated_eqI:
  assumes "map go_lookup (sg_kvm s) = map go_lookup (sg_kvm t)"
    and "go_lookup (sg_lastPutByClientId s) = go_lookup (sg_lastPutByClientId t)"
    and "go_lookup (sg_cfgNumByShid s) = go_lookup (sg_cfgNumByShid t)"
    and "sg_shardStatuses s = sg_shardStatuses t"
    and "map client_list (sg_shardClients s) = map client_list (sg_shardClients t)"
  shows "sg_replicated s = sg_replicated t"
  using assms by (simp add: sg_replicated_def shardgrp_Snapshot_def)

lemma sg_replicated_eqD:
  assumes "sg_replicated s = sg_replicated t"
  shows "map go_lookup (sg_kvm s) = map go_lookup (sg_kvm t)"
    and "go_lookup (sg_lastPutByClientId s) = go_lookup (sg_lastPutByClientId t)"
    and "go_lookup (sg_cfgNumByShid s) = go_lookup (sg_cfgNumByShid t)"
    and "sg_shardStatuses s = sg_shardStatuses t"
    and "map client_list (sg_shardClients s) = map client_list (sg_shardClients t)"
    and "local_num s = local_num t" and "sg_last s = sg_last t"
  using assms by (simp_all add: sg_replicated_def shardgrp_Snapshot_def local_num_def [abs_def] sg_last_def)

lemma sg_replicated_nth:
  assumes "sg_replicated s = sg_replicated t" and "sg_ok s" and "sg_ok t" and "i < 12"
  shows "go_lookup (sg_kvm s ! i) = go_lookup (sg_kvm t ! i)"
    and "client_list (sg_shardClients s ! i) = client_list (sg_shardClients t ! i)"
  using sg_replicated_eqD(1,5) [OF assms(1)] sg_okD(1,3) [OF assms(2)] sg_okD(1,3) [OF assms(3)] assms(4)
  by (metis nth_map)+

text \<open>Two outcomes are alike: the replies and the replicated states are the same.\<close>

abbreviation outcome :: "(ShardgrpServer \<times> 'r) option \<Rightarrow> (ShardgrpSnapshotData \<times> 'r) option" where
  "outcome x \<equiv> map_option (map_prod sg_replicated id) x"

lemma replicated_marshall:
  assumes "sg_replicated s = sg_replicated t" and "sg_ok s" and "sg_ok t" and "shard_range i"
  shows "marshallShardState s i = marshallShardState t i"
  using sg_replicated_nth [OF assms(1-3) nat_shard_less [OF assms(4)]] sg_replicated_eqD(7) [OF assms(1)]
  by (simp add: marshall_ok assms)

lemma replicated_update:
  assumes "sg_replicated s = sg_replicated t"
  shows "sg_replicated (s\<lparr>sg_shardStatuses := x, sg_cfgNumByShid := Some n\<rparr>) =
      sg_replicated (t\<lparr>sg_shardStatuses := x, sg_cfgNumByShid := Some n\<rparr>)"
    and "sg_replicated (s\<lparr>sg_kvm := (sg_kvm s)[i := m], sg_shardClients := (sg_shardClients s)[i := cs]\<rparr>) =
      sg_replicated (t\<lparr>sg_kvm := (sg_kvm t)[i := m], sg_shardClients := (sg_shardClients t)[i := cs]\<rparr>)"
    and "sg_replicated (s\<lparr>sg_kvm := (sg_kvm s)[i := m], sg_shardClients := (sg_shardClients s)[i := cs],
        sg_lastPutByClientId := Some l\<rparr>) =
      sg_replicated (t\<lparr>sg_kvm := (sg_kvm t)[i := m], sg_shardClients := (sg_shardClients t)[i := cs],
        sg_lastPutByClientId := Some l\<rparr>)"
    and "sg_replicated (s\<lparr>sg_kvm := (sg_kvm s)[i := m], sg_lastPutByClientId := Some l,
        sg_shardClients := (sg_shardClients s)[i := cs]\<rparr>) =
      sg_replicated (t\<lparr>sg_kvm := (sg_kvm t)[i := m], sg_lastPutByClientId := Some l,
        sg_shardClients := (sg_shardClients t)[i := cs]\<rparr>)"
  using sg_replicated_eqD [OF assms] by (auto intro!: sg_replicated_eqI simp: map_update)

lemma replicated_status:
  assumes "sg_replicated s = sg_replicated t" and "sg_ok s" and "sg_ok t" and "shard_range i"
  shows "map_option sg_replicated (set_status s i st n) = map_option sg_replicated (set_status t i st n)"
  using replicated_update(1) [OF assms(1)] sg_replicated_eqD [OF assms(1)]
  by (simp add: set_status_ok assms)

lemma marshall_status [simp]:
  "marshallShardState (kv\<lparr>sg_shardStatuses := x, sg_cfgNumByShid := n\<rparr>) i = marshallShardState kv i"
  by (simp add: marshallShardState_def)

lemma replicated_Freeze:
  assumes "sg_replicated s = sg_replicated t" and "sg_ok s" and "sg_ok t" and "shard_range (fa_Shard a)"
  shows "outcome (DoOp_Freeze s a) = outcome (DoOp_Freeze t a)"
proof -
  note eq = sg_replicated_eqD [OF assms(1)]
  note up = replicated_update(1) [OF assms(1)]
  note m = replicated_marshall [OF assms]
  obtain st where st: "marshallShardState t (fa_Shard a) = Some st" using marshall_ok assms(3,4) by blast
  show ?thesis
    using up eq(3) sg_okD(2) [OF assms(3)] st
    by (simp add: DoOp_Freeze_def eq(4) eq(6) m slice_range set_status_ok assms(1,2,3,4))
qed

lemma replicated_Install:
  assumes "sg_replicated s = sg_replicated t" and "sg_ok s" and "sg_ok t" and "shard_range (ia_Shard a)"
    and "ia_State a = Some st"
  shows "outcome (DoOp_Install s a) = outcome (DoOp_Install t a)"
proof -
  note eq = sg_replicated_eqD [OF assms(1)]
  obtain l where l: "sg_lastPutByClientId s = Some l" using sg_okD(4) [OF assms(2)] by blast
  have l': "sg_lastPutByClientId t = Some l" using sg_okD(4) [OF assms(3)] eq(2) l by auto
  let ?i = "nat (ia_Shard a)"
  define upd where "upd = (\<lambda>k :: ShardgrpServer. k\<lparr>sg_kvm := (sg_kvm k)[?i := Some (ss_Kv st)],
      sg_shardClients := (sg_shardClients k)[?i :=
        Some (fold (\<lambda>e. List.insert (fst e)) (ss_LastPutByClientId st) [])],
      sg_lastPutByClientId := Some (foldl merge_lastPut l (ss_LastPutByClientId st))\<rparr>)"
  have inst: "installShardState s (ia_Shard a) (Some st) = Some (upd s)"
    "installShardState t (ia_Shard a) (Some st) = Some (upd t)"
    using install_ok [OF assms(2,4), of st] install_ok [OF assms(3,4), of st] l l' by (auto simp: upd_def)
  have ok: "sg_ok (upd s)" "sg_ok (upd t)"
    unfolding upd_def using sg_ok_install assms(2-4) l l' by blast+
  have rep: "sg_replicated (upd s) = sg_replicated (upd t)"
    unfolding upd_def by (rule replicated_update(3) [OF assms(1)])
  have st: "map_option sg_replicated (set_status (upd s) (ia_Shard a) Serving (ia_Num a)) =
      map_option sg_replicated (set_status (upd t) (ia_Shard a) Serving (ia_Num a))"
    by (rule replicated_status [OF rep ok assms(4)])
  show ?thesis
    using st sg_okD(2) [OF assms(3)] set_status_ok [OF ok(1) assms(4)] set_status_ok [OF ok(2) assms(4)] inst
    by (simp add: DoOp_Install_def eq(4) eq(6) slice_range assms(1,4,5))
qed

lemma replicated_Delete:
  assumes "sg_replicated s = sg_replicated t" and "sg_ok s" and "sg_ok t" and "shard_range (da_Shard a)"
  shows "outcome (DoOp_Delete s a) = outcome (DoOp_Delete t a)"
proof -
  note eq = sg_replicated_eqD [OF assms(1)]
  let ?i = "nat (da_Shard a)"
  define upd where "upd = (\<lambda>k :: ShardgrpServer. k\<lparr>sg_kvm := (sg_kvm k)[?i := None],
      sg_shardClients := (sg_shardClients k)[?i := None]\<rparr>)"
  have "sg_replicated (upd s) = sg_replicated (upd t)"
    unfolding upd_def by (rule replicated_update(2) [OF assms(1)])
  from replicated_update(1) [OF this]
  have st: "map_option sg_replicated (set_status (upd s) (da_Shard a) Absent (da_Num a)) =
      map_option sg_replicated (set_status (upd t) (da_Shard a) Absent (da_Num a))"
    using eq(3,4) sg_okD(2,5) [OF assms(3)] sg_okD(5) [OF assms(2)] assms(4)
    by (auto simp: upd_def set_status_def slice_range)
  have del: "DoOp_Delete k a = (if da_Num a = local_num k (da_Shard a) \<and> sg_shardStatuses k ! ?i = Frozen
      then map_option (\<lambda>k'. (k', \<lparr>dr_Err = OK\<rparr>)) (set_status (upd k) (da_Shard a) Absent (da_Num a))
      else Some (k, \<lparr>dr_Err = (if da_Num a = local_num k (da_Shard a) \<and> sg_shardStatuses k ! ?i = Serving
         \<or> local_num k (da_Shard a) < da_Num a then ErrIllegalOperation else OK)\<rparr>))" if "sg_ok k" for k
    using sg_okD(1,2,3) [OF that] assms(4)
    by (cases "sg_shardStatuses k ! ?i")
      (auto simp: DoOp_Delete_def slice_range upd_def split: Option.bind_splits option.splits)
  have "outcome (map_option (\<lambda>k'. (k', e)) x) = outcome (map_option (\<lambda>k'. (k', e)) y)"
    if "map_option sg_replicated x = map_option sg_replicated y" for x y and e :: DeleteShardReply
    using that by (cases x; cases y) auto
  note same = this [OF st, of "\<lparr>dr_Err = OK\<rparr>"]
  have "outcome (if b then x else Some (s, e)) = outcome (if b then y else Some (t, e))"
    if "outcome x = outcome y" for b x y and e :: DeleteShardReply
    using that assms(1) by simp
  from this [OF same] show ?thesis unfolding del [OF assms(2)] del [OF assms(3)] eq(4) eq(6) .
qed

lemma shardgrp_Put_form:
  assumes "sg_ok kv"
  shows "shardgrp_DoOp_Put kv a =
    (let i = nat (Key2Shard (pa_Key a)); m = go_lookup (sg_kvm kv ! i) in
     if sg_shardStatuses kv ! i \<noteq> Serving then Some (kv, \<lparr>pr_Err = ErrWrongGroup\<rparr>)
     else if \<not> fresh (sg_last kv) a then Some (kv, lp_Reply (the (sg_last kv (pa_ClientId a))))
     else Some (kv\<lparr>sg_kvm := (sg_kvm kv)[i := Some (fst (spec_put m a))],
        sg_lastPutByClientId := Some ((sg_last kv)(pa_ClientId a \<mapsto>
          \<lparr>lp_RequestId = pa_RequestId a, lp_Reply = \<lparr>pr_Err = snd (spec_put m a)\<rparr>\<rparr>)),
        sg_shardClients := (sg_shardClients kv)[i :=
          Some (List.insert (pa_ClientId a) (client_list (sg_shardClients kv ! i)))]\<rparr>,
       \<lparr>pr_Err = snd (spec_put m a)\<rparr>))"
proof -
  let ?i = "nat (Key2Shard (pa_Key a))"
  have st: "slice_at (sg_shardStatuses kv) (Key2Shard (pa_Key a)) = Some (sg_shardStatuses kv ! ?i)"
    "slice_at (sg_kvm kv) (Key2Shard (pa_Key a)) = Some (sg_kvm kv ! ?i)"
    "slice_at (sg_shardClients kv) (Key2Shard (pa_Key a)) = Some (sg_shardClients kv ! ?i)"
    using sg_okD(1-3) [OF assms] by (simp_all add: slice_range)
  show ?thesis
  proof (cases "sg_shardStatuses kv ! ?i = Serving")
    case False
    with shardgrp_Put_not_serving [OF st(1)] show ?thesis by (simp add: Let_def)
  next
    case srv: True
    show ?thesis
    proof (cases "fresh (sg_last kv) a")
      case True
      obtain m cs l where "sg_kvm kv ! ?i = Some m" "sg_shardClients kv ! ?i = Some cs"
        "sg_lastPutByClientId kv = Some l"
        using sg_okD(4,6) [OF assms] srv nat_shard_less [OF shard_range_Key2Shard] by blast
      with shardgrp_Put_fresh [of kv a m cs l] st srv True show ?thesis
        by (simp add: Let_def sg_last_def)
    next
      case False
      then obtain p where p: "sg_last kv (pa_ClientId a) = Some p" "pa_RequestId a \<le> lp_RequestId p"
        by (auto simp: fresh_def not_less split: option.splits)
      with shardgrp_Put_dup [of kv a p] st(1) srv False show ?thesis by (simp add: Let_def)
    qed
  qed
qed

lemma replicated_Put:
  assumes "sg_replicated s = sg_replicated t" and "sg_ok s" and "sg_ok t"
  shows "outcome (shardgrp_DoOp_Put s a) = outcome (shardgrp_DoOp_Put t a)"
proof -
  let ?i = "nat (Key2Shard (pa_Key a))"
  note eq = sg_replicated_eqD [OF assms(1)]
  note nth = sg_replicated_nth [OF assms nat_shard_less [OF shard_range_Key2Shard]]
  show ?thesis
    using replicated_update(4) [OF assms(1)] assms(1)
    by (simp add: shardgrp_Put_form [OF assms(2)] shardgrp_Put_form [OF assms(3)] Let_def eq(4,7) nth)
qed

lemma replicated_Get:
  assumes "sg_replicated s = sg_replicated t" and "sg_ok s" and "sg_ok t"
  shows "shardgrp_DoOp_Get s a = shardgrp_DoOp_Get t a"
  using sg_replicated_eqD(4) [OF assms(1)] sg_okD(1,2) [OF assms(2)] sg_okD(1,2) [OF assms(3)]
    sg_replicated_nth [OF assms nat_shard_less [OF shard_range_Key2Shard], of "ga_Key a"]
  by (simp add: shardgrp_DoOp_Get_def slice_range)

lemma outcome_map: "outcome x = outcome y \<Longrightarrow>
    outcome (map_option (map_prod id f) x) = outcome (map_option (map_prod id f) y)"
  by (cases x; cases y) auto

interpretation shardgrp_sm: state_machine shardgrp_DoOp shardgrp_Snapshot shardgrp_Restore
  sg_ok sg_valid sg_replicated
proof
  fix s t q
  show "\<exists>s' p. shardgrp_DoOp s q = Some (s', p) \<and> sg_ok s'" if "sg_ok s" "sg_valid q"
    using shardgrp_DoOp_ok [OF that] by blast
  show "outcome (shardgrp_DoOp s q) = outcome (shardgrp_DoOp t q)"
    if "sg_ok s" "sg_ok t" "sg_replicated s = sg_replicated t" "sg_valid q"
  proof (cases q)
    case (SGet a)
    with that replicated_Get [OF that(3,1,2), of a] show ?thesis by (simp add: option.map_comp comp_def)
  next
    case (SPut a)
    with outcome_map [OF replicated_Put [OF that(3,1,2)]] show ?thesis by simp
  next
    case (SFreeze a)
    with outcome_map [OF replicated_Freeze [OF that(3,1,2), of a]] that(4) show ?thesis by simp
  next
    case (SInstall a)
    with that(4) obtain st where "ia_State a = Some st" "shard_range (ia_Shard a)" by auto
    with SInstall outcome_map [OF replicated_Install [OF that(3,1,2), of a st]] show ?thesis by simp
  next
    case (SDelete a)
    with outcome_map [OF replicated_Delete [OF that(3,1,2), of a]] that(4) show ?thesis by simp
  qed (use that in simp)
  show "\<exists>t'. shardgrp_Restore t (shardgrp_Snapshot s) = Some t' \<and> sg_ok t' \<and>
      sg_replicated t' = sg_replicated s" if "sg_ok s"
  proof -
    obtain t' where t': "shardgrp_Restore t (shardgrp_Snapshot s) = Some t'"
      by (simp add: shardgrp_Restore_def shardgrp_Snapshot_def)
    then have f: "sg_kvm t' = map (\<lambda>m. Some (go_lookup m)) (sg_kvm s)"
      "sg_lastPutByClientId t' = Some (go_lookup (sg_lastPutByClientId s))"
      "sg_cfgNumByShid t' = Some (go_lookup (sg_cfgNumByShid s))"
      "sg_shardStatuses t' = sg_shardStatuses s"
      "sg_shardClients t' = map (\<lambda>cs. Some (client_list cs)) (sg_shardClients s)"
      by (auto simp: shardgrp_Restore_def shardgrp_Snapshot_def)
    have "sg_ok t'"
      by (rule sg_okI [where l = "go_lookup (sg_lastPutByClientId s)"])
        (use sg_okD [OF that] in \<open>auto simp: f sg_last_def\<close>)
    moreover have "sg_replicated t' = sg_replicated s"
      by (rule sg_replicated_eqI) (simp_all add: f comp_def)
    ultimately show ?thesis using t' by blast
  qed
qed

section \<open>Handing a shard over\<close>

lemma sg_ok_init: "sg_ok (shardgrp_init gid me)"
  by (rule sg_okI [where l = Map.empty]) (simp_all add: shardgrp_init_def)

lemma Freeze_accepted:
  assumes "sg_ok kv" and "shard_range i" and "local_num kv i < n"
    and "sg_shardStatuses kv ! nat i = Serving"
  shows "DoOp_Freeze kv \<lparr>fa_Shard = i, fa_Num = n\<rparr> = Some
    (kv\<lparr>sg_shardStatuses := (sg_shardStatuses kv)[nat i := Frozen],
        sg_cfgNumByShid := Some ((go_lookup (sg_cfgNumByShid kv))(i \<mapsto> n))\<rparr>,
     \<lparr>fr_State = marshallShardState kv i, fr_Num = n, fr_Err = OK\<rparr>)"
  using assms marshall_ok [OF assms(1,2)] sg_okD(2) [OF assms(1)]
  by (simp add: DoOp_Freeze_def slice_range set_status_ok)

lemma Install_accepted:
  assumes "sg_ok kv" and "shard_range i" and "local_num kv i < n"
    and "sg_shardStatuses kv ! nat i = Absent"
  shows "\<exists>kv' l. DoOp_Install kv \<lparr>ia_Shard = i, ia_State = Some st, ia_Num = n\<rparr> = Some (kv', \<lparr>ir_Err = OK\<rparr>) \<and>
    sg_ok kv' \<and> shard_of kv' i = (Serving, n) \<and> sg_kvm kv' ! nat i = Some (ss_Kv st) \<and>
    sg_lastPutByClientId kv = Some l \<and> sg_last kv' = foldl merge_lastPut l (ss_LastPutByClientId st)"
proof -
  obtain l where l: "sg_lastPutByClientId kv = Some l" using sg_okD(4) [OF assms(1)] by blast
  let ?kv1 = "kv\<lparr>sg_kvm := (sg_kvm kv)[nat i := Some (ss_Kv st)],
      sg_shardClients := (sg_shardClients kv)[nat i :=
        Some (fold (\<lambda>e. List.insert (fst e)) (ss_LastPutByClientId st) [])],
      sg_lastPutByClientId := Some (foldl merge_lastPut l (ss_LastPutByClientId st))\<rparr>"
  let ?kv = "?kv1\<lparr>sg_shardStatuses := (sg_shardStatuses kv)[nat i := Serving],
      sg_cfgNumByShid := Some ((go_lookup (sg_cfgNumByShid kv))(i \<mapsto> n))\<rparr>"
  have ok1: "sg_ok ?kv1" by (rule sg_ok_install [OF assms(1,2) l])
  note lens = sg_okD(1,2,3) [OF assms(1)] nat_shard_less [OF assms(2)]
  have "sg_ok ?kv" using sg_ok_status [OF ok1 assms(2), of Serving] lens by simp
  moreover have "DoOp_Install kv \<lparr>ia_Shard = i, ia_State = Some st, ia_Num = n\<rparr> = Some (?kv, \<lparr>ir_Err = OK\<rparr>)"
    using assms install_ok [OF assms(1,2), of st] set_status_ok [OF ok1 assms(2)] l lens
    by (auto simp: DoOp_Install_def slice_range)
  ultimately show ?thesis using lens l by (auto simp: local_num_def sg_last_def)
qed

lemma Put_executed:
  assumes "sg_ok kv" and "sg_shardStatuses kv ! nat (Key2Shard (pa_Key a)) = Serving"
    and "fresh (sg_last kv) a" and "shardgrp_DoOp_Put kv a = Some (kv', r)"
  shows "sg_ok kv' \<and> shard_of kv' i = shard_of kv i \<and>
    sg_last kv' (pa_ClientId a) = Some \<lparr>lp_RequestId = pa_RequestId a, lp_Reply = r\<rparr> \<and>
    pa_ClientId a \<in> set (client_list (sg_shardClients kv' ! nat (Key2Shard (pa_Key a))))"
proof -
  have "sg_ok kv'" using shardgrp_Put_ok [OF assms(1), of a] assms(4) by auto
  then show ?thesis
    using assms sg_okD(3) [OF assms(1)] nat_shard_less [OF shard_range_Key2Shard, of "pa_Key a"]
    by (auto simp: shardgrp_Put_form Let_def sg_last_def local_num_def)
qed

lemma sg_map_at:
  assumes "sg_ok kv" shows "sg_map kv k = go_lookup (sg_kvm kv ! nat (Key2Shard k)) k"
  using sg_okD(1) [OF assms] by (simp add: sg_map_def slice_range)

lemma Frozen_refuses:
  assumes "sg_ok kv" and "sg_shardStatuses kv ! nat (Key2Shard (pa_Key a)) \<noteq> Serving"
  shows "shardgrp_DoOp_Put kv a = Some (kv, \<lparr>pr_Err = ErrWrongGroup\<rparr>)"
  using assms by (simp add: shardgrp_Put_form Let_def)

lemma moved_record:
  assumes "sg_last src c = Some p" and "c \<in> set cs"
    and "\<And>q. l c = Some q \<Longrightarrow> lp_RequestId q < lp_RequestId p"
  shows "foldl merge_lastPut l (map (\<lambda>c. (c, the (sg_last src c))) cs) c = Some p"
proof -
  let ?es = "map (\<lambda>c. (c, the (sg_last src c))) cs"
  have "(c, p) \<in> set ?es" using assms(1,2) by force
  from foldl_merge_contains [OF this, of l] obtain q where
    q: "foldl merge_lastPut l ?es c = Some q" "lp_RequestId p \<le> lp_RequestId q" by blast
  from foldl_merge_from [OF q(1)] show ?thesis
  proof
    assume "l c = Some q"
    with assms(3) q(2) show ?thesis by force
  next
    assume "(c, q) \<in> set ?es"
    with assms(1) q(1) show ?thesis by auto
  qed
qed

section \<open>Properties\<close>

text \<open>
  C9. Exactly once across a migration: a put is executed by the group that serves its shard, then
  the shard is frozen there and installed in another group under a newer configuration number.
  The receiving group has the shard's keys as they were after the put and answers a retry of the
  put with the original reply, without executing it; the sending group refuses it.
\<close>

theorem shard_move_exactly_once:
  assumes "sg_ok src" and "sg_ok dst"
    and "i = Key2Shard (pa_Key a)"
    and "shard_of src i = (Serving, m)" and "m < n"
    and "shard_of dst i = (Absent, m')" and "m' < n"
    and "fresh (sg_last src) a" and "fresh (sg_last dst) a"
    and "shardgrp_DoOp_Put src a = Some (src1, r)"
  shows "\<exists>src2 st dst2.
    DoOp_Freeze src1 \<lparr>fa_Shard = i, fa_Num = n\<rparr> =
      Some (src2, \<lparr>fr_State = Some st, fr_Num = n, fr_Err = OK\<rparr>) \<and>
    DoOp_Install dst \<lparr>ia_Shard = i, ia_State = Some st, ia_Num = n\<rparr> = Some (dst2, \<lparr>ir_Err = OK\<rparr>) \<and>
    (\<forall>k. Key2Shard k = i \<longrightarrow> sg_map dst2 k = sg_map src1 k) \<and>
    shardgrp_DoOp_Put dst2 a = Some (dst2, r) \<and>
    shardgrp_DoOp_Put src2 a = Some (src2, \<lparr>pr_Err = ErrWrongGroup\<rparr>)"
proof -
  have rng: "shard_range i" using assms(3) by simp
  have exec: "sg_ok src1" "shard_of src1 i = (Serving, m)"
    "sg_last src1 (pa_ClientId a) = Some \<lparr>lp_RequestId = pa_RequestId a, lp_Reply = r\<rparr>"
    "pa_ClientId a \<in> set (client_list (sg_shardClients src1 ! nat i))"
    using Put_executed [OF assms(1) _ assms(8,10), of i] assms(3,4) by auto
  define st where "st = \<lparr>ss_Kv = go_lookup (sg_kvm src1 ! nat i),
     ss_LastPutByClientId = map (\<lambda>c. (c, the (sg_last src1 c))) (client_list (sg_shardClients src1 ! nat i))\<rparr>"
  have marsh: "marshallShardState src1 i = Some st"
    unfolding st_def by (rule marshall_ok [OF exec(1) rng])
  define src2 where "src2 = src1\<lparr>sg_shardStatuses := (sg_shardStatuses src1)[nat i := Frozen],
        sg_cfgNumByShid := Some ((go_lookup (sg_cfgNumByShid src1))(i \<mapsto> n))\<rparr>"
  have frz: "DoOp_Freeze src1 \<lparr>fa_Shard = i, fa_Num = n\<rparr> =
      Some (src2, \<lparr>fr_State = Some st, fr_Num = n, fr_Err = OK\<rparr>)"
    using Freeze_accepted [OF exec(1) rng, of n] exec(2) assms(5) marsh by (simp add: src2_def)
  have "sg_ok src2" unfolding src2_def by (rule sg_ok_status [OF exec(1) rng]) simp
  then have refuse: "shardgrp_DoOp_Put src2 a = Some (src2, \<lparr>pr_Err = ErrWrongGroup\<rparr>)"
    using Frozen_refuses [of src2 a] assms(3) sg_okD(2) [OF exec(1)] nat_shard_less [OF rng]
    by (simp add: src2_def)
  obtain dst2 l where inst:
    "DoOp_Install dst \<lparr>ia_Shard = i, ia_State = Some st, ia_Num = n\<rparr> = Some (dst2, \<lparr>ir_Err = OK\<rparr>)"
    "sg_ok dst2" "shard_of dst2 i = (Serving, n)" "sg_kvm dst2 ! nat i = Some (ss_Kv st)"
    "sg_lastPutByClientId dst = Some l" "sg_last dst2 = foldl merge_lastPut l (ss_LastPutByClientId st)"
    using Install_accepted [OF assms(2) rng, of n st] assms(6,7) by auto
  have "sg_last dst2 (pa_ClientId a) = Some \<lparr>lp_RequestId = pa_RequestId a, lp_Reply = r\<rparr>"
    using moved_record [OF exec(3,4), of l] assms(9) inst(5,6)
    by (simp add: st_def fresh_def) (simp add: sg_last_def split: option.splits)
  then have "shardgrp_DoOp_Put dst2 a = Some (dst2, r)"
    using inst(2,3) assms(3) by (simp add: shardgrp_Put_form Let_def fresh_def)
  moreover have "sg_map dst2 k = sg_map src1 k" if "Key2Shard k = i" for k
    using that inst(2,4) exec(1) by (simp add: sg_map_at st_def)
  ultimately show ?thesis using frz inst(1) refuse by blast
qed

theorem shard_move_exactly_once_witness:
  "let a = \<lparr>pa_ClientId = 7, pa_RequestId = 1, pa_Key = ''a'', pa_Value = ''v'', pa_Version = 0\<rparr>
   in \<exists>src1 src2 st dst2.
    shardgrp_DoOp_Put (shardgrp_init 1 0) a = Some (src1, \<lparr>pr_Err = OK\<rparr>) \<and>
    DoOp_Freeze src1 \<lparr>fa_Shard = 4, fa_Num = 2\<rparr> = Some (src2, \<lparr>fr_State = Some st, fr_Num = 2, fr_Err = OK\<rparr>) \<and>
    DoOp_Install (shardgrp_init 2 0) \<lparr>ia_Shard = 4, ia_State = Some st, ia_Num = 2\<rparr> =
      Some (dst2, \<lparr>ir_Err = OK\<rparr>) \<and>
    (\<forall>k. Key2Shard k = 4 \<longrightarrow> sg_map dst2 k = sg_map src1 k) \<and>
    shardgrp_DoOp_Put dst2 a = Some (dst2, \<lparr>pr_Err = OK\<rparr>) \<and>
    shardgrp_DoOp_Put src2 a = Some (src2, \<lparr>pr_Err = ErrWrongGroup\<rparr>)"
proof -
  let ?a = "\<lparr>pa_ClientId = 7, pa_RequestId = 1, pa_Key = ''a'', pa_Value = ''v'', pa_Version = 0\<rparr>"
  have k: "Key2Shard ''a'' = 4" by (simp add: Key2Shard_def fnv32a_def)
  have sh: "shard_of (shardgrp_init 1 0) 4 = (Serving, 1)" "shard_of (shardgrp_init 2 0) 4 = (Absent, 0)"
    by (simp_all add: shardgrp_init_def local_num_def upt_rec)
  have fr: "fresh (sg_last (shardgrp_init g 0)) ?a" for g
    by (simp add: fresh_def sg_last_def shardgrp_init_def)
  obtain src1 where p: "shardgrp_DoOp_Put (shardgrp_init 1 0) ?a = Some (src1, \<lparr>pr_Err = OK\<rparr>)"
    using sh(1) fr [of 1] k
    by (simp add: shardgrp_Put_form [OF sg_ok_init] Let_def) (simp add: shardgrp_init_def spec_put_def)
  have "4 = Key2Shard (pa_Key ?a)" using k by simp
  have "(1::Tnum) < 2" and "(0::Tnum) < 2" by simp_all
  from shard_move_exactly_once [OF sg_ok_init sg_ok_init \<open>4 = _\<close> sh(1) this(1) sh(2) this(2) fr fr p] p
  show ?thesis unfolding Let_def by blast
qed



text \<open>
  C27. A replica of a shard group that restores the snapshot another replica took after \<open>xs\<close> and
  then applies \<open>ys\<close> gives the replies and reaches the replicated state of a replica that applied
  all of \<open>xs @ ys\<close>, shard moves included.
\<close>

theorem shardgrp_snapshot_replay:
  assumes "list_all sg_valid (xs @ ys)"
  shows "\<exists>s s1 ps t1 s2 qs t2. StartServerShardGrp gid me None = Some s \<and>
    run_ops shardgrp_DoOp s xs = Some (s1, ps) \<and>
    StartServerShardGrp gid me' (shardgrp_Snapshot s1) = Some t1 \<and>
    run_ops shardgrp_DoOp s (xs @ ys) = Some (s2, ps @ qs) \<and>
    run_ops shardgrp_DoOp t1 ys = Some (t2, qs) \<and> sg_replicated t2 = sg_replicated s2"
  using shardgrp_sm.snapshot_then_replay [OF sg_ok_init assms, of gid me "shardgrp_init gid me'"]
  by (simp add: StartServerShardGrp_def) (simp add: shardgrp_Restore_def)

theorem shardgrp_snapshot_replay_witness:
  "\<exists>s s1 ps t1 s2 qs t2. StartServerShardGrp 1 0 None = Some s \<and>
    run_ops shardgrp_DoOp s [SFreeze \<lparr>fa_Shard = 3, fa_Num = 2\<rparr>] = Some (s1, ps) \<and>
    StartServerShardGrp 1 2 (shardgrp_Snapshot s1) = Some t1 \<and>
    run_ops shardgrp_DoOp s ([SFreeze \<lparr>fa_Shard = 3, fa_Num = 2\<rparr>] @ [SDelete \<lparr>da_Shard = 3, da_Num = 2\<rparr>]) =
      Some (s2, ps @ qs) \<and>
    run_ops shardgrp_DoOp t1 [SDelete \<lparr>da_Shard = 3, da_Num = 2\<rparr>] = Some (t2, qs) \<and>
    sg_replicated t2 = sg_replicated s2"
  by (rule shardgrp_snapshot_replay) (simp add: shard_range_def)

end
