(* ===== verification/Raft_Node.thy ===== *)
theory Raft_Node
  imports Prelude
begin

text \<open>
  One Raft peer, \<open>raft/raft.go\<close>, with its stable storage \<open>tester/persister.go\<close>. Every section of
  the Go code that runs under the mutex is one function on the record \<open>Raft\<close>; goroutines that
  release the mutex around a remote call (\<open>replicateToFollower\<close>, \<open>startElection\<close>, \<open>applier\<close>) are one
  function per critical section. \<open>None\<close> is a run-time panic. Terms and log indices are Go ints,
  here unbounded; server numbers are naturals. A buffered channel of capacity one that carries
  no value is a flag. The bytes that \<open>labgob\<close> produces for the persisted state are represented by
  the value they encode, an empty slice by \<open>None\<close>; \<open>'c\<close> is the type of commands and \<open>'b\<close> that of
  snapshots.
\<close>

section \<open>Stable storage\<close>

record 'c LogEntry =
  Term :: int
  Command :: "'c option"

record 'c PersistedState =
  ps_CurrentTerm :: int
  ps_VotedFor :: int
  ps_Log :: "'c LogEntry list"
  ps_SnapshotIndex :: int

record ('c, 'b) Persister =
  raftstate :: "'c PersistedState option"
  snapshot :: "'b option"

definition MakePersister :: "('c, 'b) Persister" where
  "MakePersister = \<lparr>raftstate = None, snapshot = None\<rparr>"

text \<open>A copy of the storage for the next incarnation of a server.\<close>

definition Checkpoint :: "('c, 'b) Persister \<Rightarrow> ('c, 'b) Persister" where
  "Checkpoint ps = MakePersister\<lparr>raftstate := raftstate ps, snapshot := snapshot ps\<rparr>"

definition ReadRaftState :: "('c, 'b) Persister \<Rightarrow> 'c PersistedState option" where
  "ReadRaftState ps = raftstate ps"

definition ReadSnapshot :: "('c, 'b) Persister \<Rightarrow> 'b option" where
  "ReadSnapshot ps = snapshot ps"

definition Save :: "'c PersistedState option \<Rightarrow> 'b option \<Rightarrow> ('c, 'b) Persister \<Rightarrow> ('c, 'b) Persister" where
  "Save r s ps = ps\<lparr>raftstate := r, snapshot := s\<rparr>"

text \<open>The sizes; \<open>bytes_of\<close> is the length of an encoded value.\<close>

definition RaftStateSize :: "('c PersistedState \<Rightarrow> int) \<Rightarrow> ('c, 'b) Persister \<Rightarrow> int" where
  "RaftStateSize bytes_of ps = (case raftstate ps of None \<Rightarrow> 0 | Some r \<Rightarrow> bytes_of r)"

definition SnapshotSize :: "('b \<Rightarrow> int) \<Rightarrow> ('c, 'b) Persister \<Rightarrow> int" where
  "SnapshotSize bytes_of ps = (case snapshot ps of None \<Rightarrow> 0 | Some s \<Rightarrow> bytes_of s)"

section \<open>State\<close>

datatype State = follower | candidate | leader

record ('c, 'b) Raft =
  peers :: nat
  persister :: "('c, 'b) Persister"
  me :: nat
  CurrentTerm :: int
  VotedFor :: int
  Log :: "'c LogEntry list"
  SnapshotData :: "'b option"
  LastIncludedIndex :: int
  commitIndex :: int
  lastApplied :: int
  state :: State
  nextIndex :: "int list"
  matchIndex :: "int list"
  lastHeardTime :: int
  logAppendedCh :: bool
  applyReadyCh :: bool
  replicateReadyChs :: "bool list"
  snapshotPending :: bool

definition GetState :: "('c, 'b) Raft \<Rightarrow> int \<times> bool" where
  "GetState rf = (CurrentTerm rf, state rf = leader)"

definition persist :: "('c, 'b) Raft \<Rightarrow> ('c, 'b) Raft" where
  "persist rf = rf\<lparr>persister := Save (Some
     \<lparr>ps_CurrentTerm = CurrentTerm rf, ps_VotedFor = VotedFor rf, ps_Log = Log rf,
      ps_SnapshotIndex = LastIncludedIndex rf\<rparr>) (SnapshotData rf) (persister rf)\<rparr>"

definition readPersist :: "'c PersistedState option \<Rightarrow> 'b option \<Rightarrow> ('c, 'b) Raft \<Rightarrow> ('c, 'b) Raft" where
  "readPersist raftStateData snapshotData rf = (case raftStateData of
       None \<Rightarrow> rf
     | Some raftState \<Rightarrow> rf\<lparr>CurrentTerm := ps_CurrentTerm raftState, VotedFor := ps_VotedFor raftState,
         Log := ps_Log raftState, LastIncludedIndex := ps_SnapshotIndex raftState,
         lastApplied := ps_SnapshotIndex raftState, commitIndex := ps_SnapshotIndex raftState,
         SnapshotData := snapshotData\<rparr>)"

definition PersistBytes :: "('c PersistedState \<Rightarrow> int) \<Rightarrow> ('c, 'b) Raft \<Rightarrow> int" where
  "PersistBytes bytes_of rf = RaftStateSize bytes_of (persister rf)"

definition sliceIndex :: "('c, 'b) Raft \<Rightarrow> int \<Rightarrow> int" where
  "sliceIndex rf i = i - LastIncludedIndex rf"

definition lastLogIndex :: "('c, 'b) Raft \<Rightarrow> int" where
  "lastLogIndex rf = int (length (Log rf)) - 1 + LastIncludedIndex rf"

definition lastLogTerm :: "('c, 'b) Raft \<Rightarrow> int option" where
  "lastLogTerm rf = map_option Term (slice_at (Log rf) (int (length (Log rf)) - 1))"

text \<open>\<open>rf.Log[rf.sliceIndex(i)].Term\<close>\<close>

definition termAt :: "('c, 'b) Raft \<Rightarrow> int \<Rightarrow> int option" where
  "termAt rf i = map_option Term (slice_at (Log rf) (sliceIndex rf i))"

text \<open>The service hands over a snapshot: drop the log before it.\<close>

definition Snapshot :: "int \<Rightarrow> 'b option \<Rightarrow> ('c, 'b) Raft \<Rightarrow> ('c, 'b) Raft option" where
  "Snapshot index data rf = (if index \<le> LastIncludedIndex rf then Some rf
     else do {
       truncatedLog \<leftarrow> slice_from (Log rf) (sliceIndex rf index);
       Some (persist (rf\<lparr>Log := truncatedLog, LastIncludedIndex := index, SnapshotData := data\<rparr>)) })"

section \<open>Followers\<close>

definition becomeFollowerWithTerm :: "int \<Rightarrow> int \<Rightarrow> ('c, 'b) Raft \<Rightarrow> ('c, 'b) Raft" where
  "becomeFollowerWithTerm now term rf =
     persist (rf\<lparr>lastHeardTime := now, state := follower, CurrentTerm := term, VotedFor := - 1\<rparr>)"

record 'c AppendEntriesArgs =
  ae_Term :: int
  ae_LeaderId :: nat
  ae_PrevLogIndex :: int
  ae_PrevLogTerm :: int
  ae_Entries :: "'c LogEntry list"
  ae_LeaderCommit :: int

record AppendEntriesReply =
  aer_Term :: int
  aer_Success :: bool
  aer_ConflictTerm :: int
  aer_ConflictIndex :: int

text \<open>
  The loop that walks back to the first entry of the conflicting term, on offsets into the slice:
  from offset \<open>k\<close> down to the dummy entry at offset 0.
\<close>

fun conflict_scan :: "'c LogEntry list \<Rightarrow> int \<Rightarrow> nat \<Rightarrow> nat option" where
  "conflict_scan log conflictTerm 0 = Some 0"
| "conflict_scan log conflictTerm (Suc k) = do {
     e \<leftarrow> slice_at log (int (Suc k));
     if Term e = conflictTerm then conflict_scan log conflictTerm k else Some (Suc k) }"

text \<open>The consistency check: success, conflict term and conflict index.\<close>

definition ae_check :: "'c AppendEntriesArgs \<Rightarrow> ('c, 'b) Raft \<Rightarrow> (bool \<times> int \<times> int) option" where
  "ae_check args rf = (
     if ae_PrevLogIndex args < LastIncludedIndex rf
     then Some (False, - 1, LastIncludedIndex rf + 1)
     else if lastLogIndex rf < ae_PrevLogIndex args
     then Some (False, - 1, lastLogIndex rf + 1)
     else do {
       t \<leftarrow> termAt rf (ae_PrevLogIndex args);
       if ae_PrevLogTerm args \<noteq> t then do {
         k \<leftarrow> conflict_scan (Log rf) t (nat (sliceIndex rf (ae_PrevLogIndex args)));
         Some (False, t, LastIncludedIndex rf + int k + 1) }
       else Some (True, 0, 0) })"

text \<open>
  The loop over the received entries from log index \<open>j\<close> on: it stops at the end of the log or at
  the first entry whose term differs, where the log is cut. The result is the log and the entries
  that remain to be appended.
\<close>

fun ae_scan :: "('c, 'b) Raft \<Rightarrow> int \<Rightarrow> 'c LogEntry list \<Rightarrow> ('c LogEntry list \<times> 'c LogEntry list) option" where
  "ae_scan rf j [] = Some (Log rf, [])"
| "ae_scan rf j (e # es) = (
     if lastLogIndex rf < j then Some (Log rf, e # es)
     else do {
       t \<leftarrow> termAt rf j;
       if Term e \<noteq> t then do {
         l \<leftarrow> slice_to (Log rf) (sliceIndex rf j);
         Some (l, e # es) }
       else ae_scan rf (j + 1) es })"

text \<open>What follows a successful check: merge the entries, follow the leader's commit index.\<close>

definition ae_accept :: "'c AppendEntriesArgs \<Rightarrow> ('c, 'b) Raft \<Rightarrow> ('c, 'b) Raft option" where
  "ae_accept args rf = do {
     (log, rest) \<leftarrow> ae_scan rf (ae_PrevLogIndex args + 1) (ae_Entries args);
     let rf1 = (if rest \<noteq> [] then persist (rf\<lparr>Log := log @ rest\<rparr>) else rf);
         rf2 = (if commitIndex rf1 < ae_LeaderCommit args
                then rf1\<lparr>commitIndex := min (ae_LeaderCommit args) (lastLogIndex rf1)\<rparr> else rf1)
     in Some (rf2\<lparr>applyReadyCh := True\<rparr>) }"

definition ae_process ::
    "'c AppendEntriesArgs \<Rightarrow> ('c, 'b) Raft \<Rightarrow> (('c, 'b) Raft \<times> AppendEntriesReply) option" where
  "ae_process args rf = do {
     (success, conflictTerm, conflictIndex) \<leftarrow> ae_check args rf;
     let reply = \<lparr>aer_Term = CurrentTerm rf, aer_Success = success,
           aer_ConflictTerm = conflictTerm, aer_ConflictIndex = conflictIndex\<rparr>
     in if \<not> success then Some (rf, reply)
        else do { rf' \<leftarrow> ae_accept args rf; Some (rf', reply) } }"

definition AppendEntries ::
    "int \<Rightarrow> 'c AppendEntriesArgs \<Rightarrow> ('c, 'b) Raft \<Rightarrow> (('c, 'b) Raft \<times> AppendEntriesReply) option" where
  "AppendEntries now args rf0 = (
     let rf = (if CurrentTerm rf0 \<le> ae_Term args then rf0\<lparr>lastHeardTime := now\<rparr> else rf0)
     in if CurrentTerm rf < ae_Term args
        then ae_process args (becomeFollowerWithTerm now (ae_Term args) rf)
        else if CurrentTerm rf = ae_Term args
        then ae_process args (if state rf = candidate
               then rf\<lparr>lastHeardTime := now, state := follower\<rparr> else rf)
        else Some (rf, \<lparr>aer_Term = CurrentTerm rf, aer_Success = False,
                        aer_ConflictTerm = 0, aer_ConflictIndex = 0\<rparr>))"

record 'b InstallSnapshotArgs =
  is_Term :: int
  is_LeaderId :: nat
  is_LastIncludedIndex :: int
  is_LastIncludedTerm :: int
  is_Data :: "'b option"

record InstallSnapshotReply =
  isr_Term :: int

text \<open>Replace the log by what follows the snapshot, or by a dummy entry.\<close>

definition is_log :: "'b InstallSnapshotArgs \<Rightarrow> ('c, 'b) Raft \<Rightarrow> 'c LogEntry list option" where
  "is_log args rf = (
     if is_LastIncludedIndex args \<le> lastLogIndex rf then do {
       t \<leftarrow> termAt rf (is_LastIncludedIndex args);
       if t = is_LastIncludedTerm args
       then slice_from (Log rf) (sliceIndex rf (is_LastIncludedIndex args))
       else Some [\<lparr>Term = is_LastIncludedTerm args, Command = None\<rparr>] }
     else Some [\<lparr>Term = is_LastIncludedTerm args, Command = None\<rparr>])"

definition is_install :: "'b InstallSnapshotArgs \<Rightarrow> ('c, 'b) Raft \<Rightarrow> ('c, 'b) Raft option" where
  "is_install args rf = (
     if LastIncludedIndex rf < is_LastIncludedIndex args then do {
       log \<leftarrow> is_log args rf;
       let rf1 = rf\<lparr>SnapshotData := is_Data args, Log := log,
             LastIncludedIndex := is_LastIncludedIndex args\<rparr>;
           rf2 = (if lastApplied rf1 < is_LastIncludedIndex args
                  then rf1\<lparr>commitIndex := max (is_LastIncludedIndex args) (commitIndex rf1),
                           snapshotPending := True, applyReadyCh := True\<rparr>
                  else rf1)
       in Some (persist rf2) }
     else Some rf)"

definition InstallSnapshot ::
    "int \<Rightarrow> 'b InstallSnapshotArgs \<Rightarrow> ('c, 'b) Raft \<Rightarrow> (('c, 'b) Raft \<times> InstallSnapshotReply) option" where
  "InstallSnapshot now args rf = (
     if is_Term args < CurrentTerm rf then Some (rf, \<lparr>isr_Term = CurrentTerm rf\<rparr>)
     else let rf1 = rf\<lparr>lastHeardTime := now\<rparr>;
              rf2 = (if CurrentTerm rf1 < is_Term args
                     then becomeFollowerWithTerm now (is_Term args) rf1 else rf1)
          in map_option (\<lambda>rf'. (rf', \<lparr>isr_Term = CurrentTerm rf2\<rparr>)) (is_install args rf2))"

record RequestVoteArgs =
  rv_Term :: int
  rv_CandidateId :: nat
  rv_LastLogIndex :: int
  rv_LastLogTerm :: int

record RequestVoteReply =
  rvr_Term :: int
  rvr_VoteGranted :: bool

definition RequestVote ::
    "int \<Rightarrow> RequestVoteArgs \<Rightarrow> ('c, 'b) Raft \<Rightarrow> (('c, 'b) Raft \<times> RequestVoteReply) option" where
  "RequestVote now args rf0 = (
     let rf = (if CurrentTerm rf0 < rv_Term args
               then becomeFollowerWithTerm now (rv_Term args) rf0 else rf0)
     in if CurrentTerm rf \<le> rv_Term args \<and>
           (VotedFor rf = int (rv_CandidateId args) \<or> VotedFor rf = - 1)
        then do {
          t \<leftarrow> lastLogTerm rf;
          if t < rv_LastLogTerm args \<or>
             rv_LastLogTerm args = t \<and> lastLogIndex rf \<le> rv_LastLogIndex args
          then Some (persist (rf\<lparr>lastHeardTime := now, VotedFor := int (rv_CandidateId args),
                                 state := follower\<rparr>),
                     \<lparr>rvr_Term = CurrentTerm rf, rvr_VoteGranted = True\<rparr>)
          else Some (rf, \<lparr>rvr_Term = 0, rvr_VoteGranted = False\<rparr>) }
        else Some (rf, \<lparr>rvr_Term = CurrentTerm rf, rvr_VoteGranted = False\<rparr>))"

section \<open>Leaders\<close>

text \<open>Index, term and whether the peer is the leader.\<close>

definition Start :: "'c \<Rightarrow> ('c, 'b) Raft \<Rightarrow> ('c, 'b) Raft \<times> int \<times> int \<times> bool" where
  "Start command rf = (
     if state rf = leader
     then let rf' = persist (rf\<lparr>Log := Log rf @ [\<lparr>Term = CurrentTerm rf, Command = Some command\<rparr>]\<rparr>)
          in (rf'\<lparr>logAppendedCh := True\<rparr>, lastLogIndex rf', CurrentTerm rf', True)
     else (rf, - 1, - 1, False))"

text \<open>
  One round of the dispatcher: take the signal, wake the workers of the followers that are behind.
  A worker takes its signal before it synchronises its follower.
\<close>

definition replicationDispatcher :: "('c, 'b) Raft \<Rightarrow> ('c, 'b) Raft" where
  "replicationDispatcher rf = (
     if \<not> logAppendedCh rf then rf
     else let rf1 = rf\<lparr>logAppendedCh := False\<rparr>
          in if state rf1 \<noteq> leader then rf1
             else rf1\<lparr>replicateReadyChs := map (\<lambda>i.
                 if i \<noteq> me rf1 \<and> nextIndex rf1 ! i \<le> lastLogIndex rf1 then True
                 else replicateReadyChs rf1 ! i) [0..<peers rf1]\<rparr>)"

definition replicationWorker :: "nat \<Rightarrow> ('c, 'b) Raft \<Rightarrow> ('c, 'b) Raft" where
  "replicationWorker i rf = rf\<lparr>replicateReadyChs := (replicateReadyChs rf)[i := False]\<rparr>"

text \<open>The loop condition of \<open>synchroniseFollower\<close> and its back-off in milliseconds.\<close>

definition needReplicate :: "nat \<Rightarrow> ('c, 'b) Raft \<Rightarrow> bool" where
  "needReplicate i rf \<longleftrightarrow> state rf = leader \<and> nextIndex rf ! i \<le> lastLogIndex rf"

definition next_backoff :: "bool \<Rightarrow> int \<Rightarrow> int" where
  "next_backoff rpcOK backoff = (if rpcOK then 100 else min 2000 (backoff * 2))"

definition newAppendEntriesArgsFor :: "nat \<Rightarrow> ('c, 'b) Raft \<Rightarrow> 'c AppendEntriesArgs option" where
  "newAppendEntriesArgsFor i rf = do {
     entries \<leftarrow> slice_from (Log rf) (sliceIndex rf (nextIndex rf ! i));
     prevTerm \<leftarrow> termAt rf (nextIndex rf ! i - 1);
     Some \<lparr>ae_Term = CurrentTerm rf, ae_LeaderId = me rf, ae_PrevLogIndex = nextIndex rf ! i - 1,
           ae_PrevLogTerm = prevTerm, ae_Entries = entries, ae_LeaderCommit = commitIndex rf\<rparr> }"

definition newInstallSnapshotArgs :: "('c, 'b) Raft \<Rightarrow> 'b InstallSnapshotArgs option" where
  "newInstallSnapshotArgs rf = do {
     t \<leftarrow> termAt rf (LastIncludedIndex rf);
     Some \<lparr>is_Term = CurrentTerm rf, is_LeaderId = me rf, is_LastIncludedIndex = LastIncludedIndex rf,
           is_LastIncludedTerm = t, is_Data = SnapshotData rf\<rparr> }"

text \<open>The number of servers known to hold index \<open>n\<close>, the leader included.\<close>

definition replicas :: "('c, 'b) Raft \<Rightarrow> int \<Rightarrow> nat" where
  "replicas rf n = 1 + length (filter (\<lambda>j. j \<noteq> me rf \<and> n \<le> matchIndex rf ! j) [0..<peers rf])"

text \<open>
  The search for a new commit index from \<open>commitIndex + k\<close> down to \<open>commitIndex + 1\<close>; \<open>None\<close>
  inside the result means that no index qualifies.
\<close>

fun commit_scan :: "('c, 'b) Raft \<Rightarrow> nat \<Rightarrow> int option option" where
  "commit_scan rf 0 = Some None"
| "commit_scan rf (Suc k) = do {
     t \<leftarrow> termAt rf (commitIndex rf + int (Suc k));
     if t \<noteq> CurrentTerm rf then Some None
     else if peers rf div 2 < replicas rf (commitIndex rf + int (Suc k))
     then Some (Some (commitIndex rf + int (Suc k)))
     else commit_scan rf k }"

definition advanceCommitIndex :: "('c, 'b) Raft \<Rightarrow> ('c, 'b) Raft option" where
  "advanceCommitIndex rf = do {
     found \<leftarrow> commit_scan rf (nat (lastLogIndex rf - commitIndex rf));
     Some (case found of
         None \<Rightarrow> rf
       | Some n \<Rightarrow> rf\<lparr>commitIndex := n, applyReadyCh := True\<rparr>) }"

text \<open>
  \<open>replicateToFollower\<close> up to the remote call: nothing to send, a snapshot, or log entries.
\<close>

datatype ('c, 'b) replication =
    NoCall
  | CallInstallSnapshot "'b InstallSnapshotArgs"
  | CallAppendEntries "'c AppendEntriesArgs"

definition replicate_send :: "nat \<Rightarrow> ('c, 'b) Raft \<Rightarrow> ('c, 'b) replication option" where
  "replicate_send i rf = (
     if state rf \<noteq> leader then Some NoCall
     else if nextIndex rf ! i \<le> LastIncludedIndex rf
     then map_option CallInstallSnapshot (newInstallSnapshotArgs rf)
     else map_option CallAppendEntries (newAppendEntriesArgsFor i rf))"

text \<open>\<open>replicateToFollower\<close> after an answered remote call.\<close>

definition replicate_snapshot_reply ::
    "int \<Rightarrow> nat \<Rightarrow> 'b InstallSnapshotArgs \<Rightarrow> InstallSnapshotReply \<Rightarrow> ('c, 'b) Raft \<Rightarrow> ('c, 'b) Raft option" where
  "replicate_snapshot_reply now i args reply rf = (
     if CurrentTerm rf < isr_Term reply then Some (becomeFollowerWithTerm now (isr_Term reply) rf)
     else if matchIndex rf ! i < is_LastIncludedIndex args
     then advanceCommitIndex (rf\<lparr>
         matchIndex := (matchIndex rf)[i := is_LastIncludedIndex args],
         nextIndex := (nextIndex rf)[i := is_LastIncludedIndex args + 1]\<rparr>)
     else Some rf)"

text \<open>
  The backwards search for the last entry of the conflicting term, on the \<open>k\<close> candidates below
  \<open>lo + k\<close>, where \<open>lo\<close> is the larger of the conflict index and the leader's first index.
\<close>

fun next_scan :: "('c, 'b) Raft \<Rightarrow> int \<Rightarrow> int \<Rightarrow> nat \<Rightarrow> int option option" where
  "next_scan rf conflictTerm lo 0 = Some None"
| "next_scan rf conflictTerm lo (Suc k) = do {
     t \<leftarrow> termAt rf (lo + int k);
     if t = conflictTerm then Some (Some (lo + int k + 1))
     else next_scan rf conflictTerm lo k }"

definition next_after_conflict ::
    "'c AppendEntriesArgs \<Rightarrow> AppendEntriesReply \<Rightarrow> ('c, 'b) Raft \<Rightarrow> int option" where
  "next_after_conflict args reply rf = (
     if aer_ConflictTerm reply \<noteq> - 1 then
       (let lo = max (LastIncludedIndex rf) (aer_ConflictIndex reply)
        in do {
          found \<leftarrow> next_scan rf (aer_ConflictTerm reply) lo (nat (ae_PrevLogIndex args + 1 - lo));
          Some (case found of None \<Rightarrow> aer_ConflictIndex reply | Some n \<Rightarrow> n) })
     else Some (aer_ConflictIndex reply))"

definition replicate_entries_reply ::
    "int \<Rightarrow> nat \<Rightarrow> 'c AppendEntriesArgs \<Rightarrow> AppendEntriesReply \<Rightarrow> ('c, 'b) Raft \<Rightarrow> ('c, 'b) Raft option" where
  "replicate_entries_reply now i args reply rf = (
     if CurrentTerm rf < aer_Term reply then Some (becomeFollowerWithTerm now (aer_Term reply) rf)
     else if aer_Success reply then
       (let m = ae_PrevLogIndex args + int (length (ae_Entries args))
        in if m \<le> matchIndex rf ! i then Some rf
           else advanceCommitIndex (rf\<lparr>
             matchIndex := (matchIndex rf)[i := m], nextIndex := (nextIndex rf)[i := m + 1]\<rparr>))
     else if ae_PrevLogIndex args \<le> matchIndex rf ! i then Some rf
     else do {
       n \<leftarrow> next_after_conflict args reply rf;
       Some (rf\<lparr>nextIndex := (nextIndex rf)[i := max n (matchIndex rf ! i + 1)]\<rparr>) })"

section \<open>Applying committed entries\<close>

datatype ('c, 'b) ApplyMsg =
    CommandMsg "'c option" int \<comment> \<open>command and its index\<close>
  | SnapshotMsg "'b option" int int \<comment> \<open>snapshot, its term and index\<close>

text \<open>
  The critical sections of the applier: choose the next message, if any, and, when the message has
  been taken from the channel, record that it is applied.
\<close>

definition applier_next :: "('c, 'b) Raft \<Rightarrow> (('c, 'b) Raft \<times> ('c, 'b) ApplyMsg option) option" where
  "applier_next rf = (
     if snapshotPending rf then do {
       t \<leftarrow> termAt rf (LastIncludedIndex rf);
       Some (rf\<lparr>snapshotPending := False\<rparr>, Some (SnapshotMsg (SnapshotData rf) t (LastIncludedIndex rf))) }
     else if lastApplied rf < commitIndex rf then do {
       e \<leftarrow> slice_at (Log rf) (sliceIndex rf (lastApplied rf + 1));
       Some (rf, Some (CommandMsg (Command e) (lastApplied rf + 1))) }
     else Some (rf, None))"

fun applier_done :: "('c, 'b) ApplyMsg \<Rightarrow> ('c, 'b) Raft \<Rightarrow> ('c, 'b) Raft" where
  "applier_done (SnapshotMsg d t i) rf = rf\<lparr>lastApplied := i\<rparr>"
| "applier_done (CommandMsg c i) rf = rf\<lparr>lastApplied := lastApplied rf + 1\<rparr>"

section \<open>Elections\<close>

text \<open>The ticker's test with a timeout of \<open>ms\<close> milliseconds drawn from 300 to 599.\<close>

definition election_timeout :: "nat \<Rightarrow> int" where
  "election_timeout r = 300 + int (r mod 300)"

definition needElection :: "int \<Rightarrow> int \<Rightarrow> ('c, 'b) Raft \<Rightarrow> bool" where
  "needElection now ms rf \<longleftrightarrow> state rf \<noteq> leader \<and> now - lastHeardTime rf > ms"

definition startElection :: "int \<Rightarrow> ('c, 'b) Raft \<Rightarrow> (('c, 'b) Raft \<times> RequestVoteArgs) option" where
  "startElection now rf0 = (
     let rf = persist (rf0\<lparr>CurrentTerm := CurrentTerm rf0 + 1, state := candidate,
                           VotedFor := int (me rf0), lastHeardTime := now\<rparr>)
     in do {
       t \<leftarrow> lastLogTerm rf;
       Some (rf, \<lparr>rv_Term = CurrentTerm rf, rv_CandidateId = me rf,
                  rv_LastLogIndex = lastLogIndex rf, rv_LastLogTerm = t\<rparr>) })"

text \<open>The variables that the goroutines of one election share.\<close>

record ballot =
  b_node :: nat
  b_term :: int
  voteCount :: nat
  won :: bool

definition becomeLeader :: "('c, 'b) Raft \<Rightarrow> ('c, 'b) Raft" where
  "becomeLeader rf = rf\<lparr>state := leader,
     nextIndex := map (\<lambda>_. lastLogIndex rf + 1) (nextIndex rf),
     matchIndex := map (\<lambda>_. 0) (matchIndex rf)\<rparr>"

definition vote_reply ::
    "int \<Rightarrow> RequestVoteReply \<Rightarrow> ballot \<Rightarrow> ('c, 'b) Raft \<Rightarrow> ('c, 'b) Raft \<times> ballot" where
  "vote_reply now reply b rf = (
     if CurrentTerm rf < rvr_Term reply then (becomeFollowerWithTerm now (rvr_Term reply) rf, b)
     else if rvr_VoteGranted reply then
       (if state rf \<noteq> candidate \<or> rvr_Term reply \<noteq> CurrentTerm rf then (rf, b)
        else let b1 = b\<lparr>voteCount := voteCount b + 1\<rparr>
             in if peers rf div 2 < voteCount b1 \<and> \<not> won b1
                then (becomeLeader rf, b1\<lparr>won := True\<rparr>)
                else (rf, b1))
     else (rf, b))"

text \<open>The followers that one heartbeat of a leader reaches.\<close>

definition sendHeartbeat :: "('c, 'b) Raft \<Rightarrow> nat list" where
  "sendHeartbeat rf = (if state rf \<noteq> leader then [] else filter (\<lambda>i. i \<noteq> me rf) [0..<peers rf])"

section \<open>Start-up\<close>

definition Make :: "nat \<Rightarrow> nat \<Rightarrow> ('c, 'b) Persister \<Rightarrow> int \<Rightarrow> ('c, 'b) Raft" where
  "Make n i ps now = readPersist (ReadRaftState ps) (ReadSnapshot ps)
     \<lparr>peers = n, persister = ps, me = i, CurrentTerm = 0, VotedFor = - 1,
      Log = [\<lparr>Term = 0, Command = None\<rparr>], SnapshotData = None, LastIncludedIndex = 0,
      commitIndex = 0, lastApplied = 0, state = follower,
      nextIndex = replicate n 0, matchIndex = replicate n 0, lastHeardTime = now,
      logAppendedCh = False, applyReadyCh = False, replicateReadyChs = replicate n False,
      snapshotPending = False\<rparr>"

text \<open>Messages that come in order: the next command or a snapshot further on.\<close>

fun msg_index :: "('c, 'b) ApplyMsg \<Rightarrow> int" where
  "msg_index (CommandMsg x i) = i"
| "msg_index (SnapshotMsg d t i) = i"

fun follows :: "int \<Rightarrow> ('c, 'b) ApplyMsg \<Rightarrow> bool" where
  "follows a (CommandMsg x i) = (i = a + 1)"
| "follows a (SnapshotMsg d t i) = (a \<le> i)"

fun in_sequence :: "int \<Rightarrow> ('c, 'b) ApplyMsg list \<Rightarrow> bool" where
  "in_sequence a [] = True"
| "in_sequence a (m # ms) = (follows a m \<and> in_sequence (msg_index m) ms)"

definition reached :: "int \<Rightarrow> ('c, 'b) ApplyMsg list \<Rightarrow> int" where
  "reached a ms = (if ms = [] then a else msg_index (last ms))"

section \<open>Fields an operation leaves alone\<close>

lemma persist_simps [simp]:
  "peers (persist rf) = peers rf" "me (persist rf) = me rf" "CurrentTerm (persist rf) = CurrentTerm rf"
  "VotedFor (persist rf) = VotedFor rf" "Log (persist rf) = Log rf"
  "SnapshotData (persist rf) = SnapshotData rf" "LastIncludedIndex (persist rf) = LastIncludedIndex rf"
  "commitIndex (persist rf) = commitIndex rf" "lastApplied (persist rf) = lastApplied rf"
  "state (persist rf) = state rf" "nextIndex (persist rf) = nextIndex rf"
  "matchIndex (persist rf) = matchIndex rf" "replicateReadyChs (persist rf) = replicateReadyChs rf"
  "snapshotPending (persist rf) = snapshotPending rf"
  by (simp_all add: persist_def)

lemma becomeFollower_simps [simp]:
  "peers (becomeFollowerWithTerm now t rf) = peers rf" "me (becomeFollowerWithTerm now t rf) = me rf"
  "CurrentTerm (becomeFollowerWithTerm now t rf) = t" "VotedFor (becomeFollowerWithTerm now t rf) = - 1"
  "Log (becomeFollowerWithTerm now t rf) = Log rf"
  "SnapshotData (becomeFollowerWithTerm now t rf) = SnapshotData rf"
  "LastIncludedIndex (becomeFollowerWithTerm now t rf) = LastIncludedIndex rf"
  "commitIndex (becomeFollowerWithTerm now t rf) = commitIndex rf"
  "lastApplied (becomeFollowerWithTerm now t rf) = lastApplied rf"
  "state (becomeFollowerWithTerm now t rf) = follower"
  "nextIndex (becomeFollowerWithTerm now t rf) = nextIndex rf"
  "matchIndex (becomeFollowerWithTerm now t rf) = matchIndex rf"
  "replicateReadyChs (becomeFollowerWithTerm now t rf) = replicateReadyChs rf"
  "snapshotPending (becomeFollowerWithTerm now t rf) = snapshotPending rf"
  by (simp_all add: becomeFollowerWithTerm_def)

text \<open>Index arithmetic depends on the log and its first index only.\<close>

lemma lastLogIndex_cong:
  "Log rf = Log rf' \<Longrightarrow> LastIncludedIndex rf = LastIncludedIndex rf' \<Longrightarrow> lastLogIndex rf = lastLogIndex rf'"
  by (simp add: lastLogIndex_def)

lemma termAt_cong:
  "Log rf = Log rf' \<Longrightarrow> LastIncludedIndex rf = LastIncludedIndex rf' \<Longrightarrow> termAt rf i = termAt rf' i"
  by (simp add: termAt_def sliceIndex_def)

lemma termAt_Some_iff:
  "termAt rf i = Some t \<longleftrightarrow> LastIncludedIndex rf \<le> i \<and> i \<le> lastLogIndex rf \<and>
     t = Term (Log rf ! nat (i - LastIncludedIndex rf))"
  by (auto simp: termAt_def sliceIndex_def lastLogIndex_def slice_at_Some_iff)

lemma termAt_None_iff:
  "termAt rf i = None \<longleftrightarrow> \<not> (LastIncludedIndex rf \<le> i \<and> i \<le> lastLogIndex rf)"
  by (auto simp: termAt_def sliceIndex_def lastLogIndex_def slice_at_def)

section \<open>One critical section after the other\<close>

text \<open>
  The steps a peer can take: each critical section with arbitrary arguments, and a crash, after
  which the next incarnation starts from a copy of the stable storage.
\<close>

inductive node_step :: "('c, 'b) Raft \<Rightarrow> ('c, 'b) Raft \<Rightarrow> bool" where
  ns_AppendEntries: "AppendEntries now args rf = Some (rf', reply) \<Longrightarrow> node_step rf rf'"
| ns_InstallSnapshot: "InstallSnapshot now sargs rf = Some (rf', sreply) \<Longrightarrow> node_step rf rf'"
| ns_RequestVote: "RequestVote now vargs rf = Some (rf', vreply) \<Longrightarrow> node_step rf rf'"
| ns_Start: "Start command rf = (rf', index, term, isLeader) \<Longrightarrow> node_step rf rf'"
| ns_Snapshot: "Snapshot index data rf = Some rf' \<Longrightarrow> node_step rf rf'"
| ns_snapshot_reply: "replicate_snapshot_reply now i sargs sreply rf = Some rf' \<Longrightarrow> node_step rf rf'"
| ns_entries_reply: "replicate_entries_reply now i args reply rf = Some rf' \<Longrightarrow> node_step rf rf'"
| ns_startElection: "startElection now rf = Some (rf', vargs) \<Longrightarrow> node_step rf rf'"
| ns_vote: "vote_reply now vreply b rf = (rf', b') \<Longrightarrow> node_step rf rf'"
| ns_apply: "applier_next rf = Some (rf', msg) \<Longrightarrow> node_step rf rf'"
| ns_applied: "node_step rf (applier_done m rf)"
| ns_dispatch: "node_step rf (replicationDispatcher rf)"
| ns_worker: "node_step rf (replicationWorker i rf)"
| ns_crash: "node_step rf (Make (peers rf) (me rf) (Checkpoint (persister rf)) now)"

text \<open>
  What the stable storage holds, in the form a start-up sees it, and that it holds the current
  persistent state.
\<close>

definition stable_view :: "('c, 'b) Persister \<Rightarrow> int \<times> int \<times> 'c LogEntry list \<times> int \<times> 'b option" where
  "stable_view ps = (case raftstate ps of
       None \<Rightarrow> (0, - 1, [\<lparr>Term = 0, Command = None\<rparr>], 0, None)
     | Some r \<Rightarrow> (ps_CurrentTerm r, ps_VotedFor r, ps_Log r, ps_SnapshotIndex r, snapshot ps))"

definition persistent_view :: "('c, 'b) Raft \<Rightarrow> int \<times> int \<times> 'c LogEntry list \<times> int \<times> 'b option" where
  "persistent_view rf = (CurrentTerm rf, VotedFor rf, Log rf, LastIncludedIndex rf, SnapshotData rf)"

definition durable :: "('c, 'b) Raft \<Rightarrow> bool" where
  "durable rf \<longleftrightarrow> stable_view (persister rf) = persistent_view rf"

lemma durable_persist [simp]: "durable (persist rf)"
  by (simp add: durable_def persist_def stable_view_def persistent_view_def Save_def)

lemma durable_becomeFollower [simp]: "durable (becomeFollowerWithTerm now t rf)"
  by (simp add: becomeFollowerWithTerm_def)

lemma durable_cong:
  "persister rf = persister rf' \<Longrightarrow> persistent_view rf = persistent_view rf' \<Longrightarrow> durable rf = durable rf'"
  by (simp add: durable_def)

lemma durable_volatile [simp]:
  "durable (rf\<lparr>commitIndex := c\<rparr>) = durable rf" "durable (rf\<lparr>lastApplied := c\<rparr>) = durable rf"
  "durable (rf\<lparr>state := s\<rparr>) = durable rf" "durable (rf\<lparr>nextIndex := xs\<rparr>) = durable rf"
  "durable (rf\<lparr>matchIndex := xs\<rparr>) = durable rf" "durable (rf\<lparr>lastHeardTime := c\<rparr>) = durable rf"
  "durable (rf\<lparr>logAppendedCh := x\<rparr>) = durable rf" "durable (rf\<lparr>applyReadyCh := x\<rparr>) = durable rf"
  "durable (rf\<lparr>replicateReadyChs := ys\<rparr>) = durable rf" "durable (rf\<lparr>snapshotPending := x\<rparr>) = durable rf"
  by (simp_all add: durable_def persistent_view_def)

lemma Make_simps [simp]:
  "peers (Make n i ps now) = n" "me (Make n i ps now) = i" "persister (Make n i ps now) = ps"
  "persistent_view (Make n i ps now) = stable_view ps" "state (Make n i ps now) = follower"
  "length (nextIndex (Make n i ps now)) = n" "length (matchIndex (Make n i ps now)) = n"
  by (simp_all add: Make_def readPersist_def ReadRaftState_def ReadSnapshot_def stable_view_def
      persistent_view_def split: option.splits)

lemma durable_Make [simp]: "durable (Make n i ps now)"
  by (simp add: durable_def)

lemma stable_view_Checkpoint [simp]: "stable_view (Checkpoint ps) = stable_view ps"
  by (simp add: stable_view_def Checkpoint_def MakePersister_def split: option.split)

section \<open>Terms, votes and leadership\<close>

text \<open>
  What every step does to a peer's identity, term and vote: the term never decreases and within a
  term a vote that has been given is kept. \<open>no_rise\<close> says that the step does not make a leader.
\<close>

definition vote_step :: "('c, 'b) Raft \<Rightarrow> ('c, 'b) Raft \<Rightarrow> bool" where
  "vote_step rf rf' \<longleftrightarrow> peers rf' = peers rf \<and> me rf' = me rf \<and> CurrentTerm rf \<le> CurrentTerm rf' \<and>
     (CurrentTerm rf' = CurrentTerm rf \<and> VotedFor rf \<noteq> - 1 \<longrightarrow> VotedFor rf' = VotedFor rf)"

definition no_rise :: "('c, 'b) Raft \<Rightarrow> ('c, 'b) Raft \<Rightarrow> bool" where
  "no_rise rf rf' \<longleftrightarrow> (state rf' = leader \<longrightarrow> state rf = leader \<and> CurrentTerm rf' = CurrentTerm rf)"

definition quiet :: "('c, 'b) Raft \<Rightarrow> ('c, 'b) Raft \<Rightarrow> bool" where
  "quiet rf rf' \<longleftrightarrow> peers rf' = peers rf \<and> me rf' = me rf \<and> CurrentTerm rf' = CurrentTerm rf \<and>
     VotedFor rf' = VotedFor rf \<and> state rf' = state rf"

lemma quiet_refl [simp]: "quiet rf rf" by (simp add: quiet_def)

lemma quiet_trans: "quiet a b \<Longrightarrow> quiet b c \<Longrightarrow> quiet a c" by (simp add: quiet_def)

lemma quiet_vote_step: "quiet rf rf' \<Longrightarrow> vote_step rf rf'" by (simp add: quiet_def vote_step_def)

lemma quiet_no_rise: "quiet rf rf' \<Longrightarrow> no_rise rf rf'" by (simp add: quiet_def no_rise_def)

lemma ae_accept_quiet:
  assumes "ae_accept args rf = Some rf'" shows "quiet rf rf' \<and> (durable rf \<longrightarrow> durable rf')"
  using assms by (auto simp: ae_accept_def bind_eq_Some_conv quiet_def Let_def)

lemma ae_process_quiet:
  assumes "ae_process args rf = Some (rf', reply)"
  shows "quiet rf rf' \<and> (durable rf \<longrightarrow> durable rf') \<and> aer_Term reply = CurrentTerm rf"
  using assms ae_accept_quiet [of args rf]
  by (auto simp: ae_process_def bind_eq_Some_conv Let_def split: if_splits)

text \<open>The peer as an AppendEntries or InstallSnapshot handler sees it after the check of the term.\<close>

definition ae_stepped :: "int \<Rightarrow> int \<Rightarrow> ('c, 'b) Raft \<Rightarrow> ('c, 'b) Raft" where
  "ae_stepped now term rf = (
     if CurrentTerm rf < term then becomeFollowerWithTerm now term (rf\<lparr>lastHeardTime := now\<rparr>)
     else if state rf = candidate then rf\<lparr>lastHeardTime := now, state := follower\<rparr>
     else rf\<lparr>lastHeardTime := now\<rparr>)"

lemma AppendEntries_form:
  "AppendEntries now args rf = (if ae_Term args < CurrentTerm rf
     then Some (rf, \<lparr>aer_Term = CurrentTerm rf, aer_Success = False, aer_ConflictTerm = 0, aer_ConflictIndex = 0\<rparr>)
     else ae_process args (ae_stepped now (ae_Term args) rf))"
  by (auto simp: AppendEntries_def ae_stepped_def Let_def)

lemma ae_stepped_props:
  assumes "CurrentTerm rf \<le> t"
  shows "vote_step rf (ae_stepped now t rf)" "no_rise rf (ae_stepped now t rf)"
    "durable rf \<Longrightarrow> durable (ae_stepped now t rf)" "CurrentTerm (ae_stepped now t rf) = t"
    "Log (ae_stepped now t rf) = Log rf" "LastIncludedIndex (ae_stepped now t rf) = LastIncludedIndex rf"
    "state (ae_stepped now t rf) = leader \<Longrightarrow> state rf = leader \<and> CurrentTerm rf = t"
  using assms by (auto simp: ae_stepped_def vote_step_def no_rise_def split: if_splits)

lemma vote_step_quiet: "vote_step a b \<Longrightarrow> quiet b c \<Longrightarrow> vote_step a c"
  by (auto simp: vote_step_def quiet_def)

lemma no_rise_quiet: "no_rise a b \<Longrightarrow> quiet b c \<Longrightarrow> no_rise a c"
  by (auto simp: no_rise_def quiet_def)

lemma AppendEntries_votes:
  assumes "AppendEntries now args rf = Some (rf', reply)"
  shows "vote_step rf rf' \<and> no_rise rf rf' \<and> (durable rf \<longrightarrow> durable rf') \<and>
    aer_Term reply = CurrentTerm rf'"
proof (cases "ae_Term args < CurrentTerm rf")
  case True
  with assms show ?thesis by (auto simp: AppendEntries_form vote_step_def no_rise_def)
next
  case False
  let ?rf = "ae_stepped now (ae_Term args) rf"
  from False assms have p: "ae_process args ?rf = Some (rf', reply)" by (simp add: AppendEntries_form)
  have "CurrentTerm rf \<le> ae_Term args" using False by simp
  from ae_stepped_props [OF this, of now] ae_process_quiet [OF p] show ?thesis
    using vote_step_quiet [of rf ?rf rf'] no_rise_quiet [of rf ?rf rf'] by (auto simp: quiet_def)
qed

lemma is_install_quiet:
  assumes "is_install args rf = Some rf'" shows "quiet rf rf' \<and> (durable rf \<longrightarrow> durable rf')"
  using assms by (auto simp: is_install_def bind_eq_Some_conv quiet_def Let_def split: if_splits)

definition is_stepped :: "int \<Rightarrow> int \<Rightarrow> ('c, 'b) Raft \<Rightarrow> ('c, 'b) Raft" where
  "is_stepped now term rf = (
     if CurrentTerm rf < term then becomeFollowerWithTerm now term (rf\<lparr>lastHeardTime := now\<rparr>)
     else rf\<lparr>lastHeardTime := now\<rparr>)"

lemma InstallSnapshot_form:
  "InstallSnapshot now args rf = (if is_Term args < CurrentTerm rf
     then Some (rf, \<lparr>isr_Term = CurrentTerm rf\<rparr>)
     else map_option (\<lambda>rf'. (rf', \<lparr>isr_Term = is_Term args\<rparr>)) (is_install args (is_stepped now (is_Term args) rf)))"
  by (auto simp: InstallSnapshot_def is_stepped_def Let_def)

lemma is_stepped_props:
  assumes "CurrentTerm rf \<le> t"
  shows "vote_step rf (is_stepped now t rf)" "no_rise rf (is_stepped now t rf)"
    "durable rf \<Longrightarrow> durable (is_stepped now t rf)" "CurrentTerm (is_stepped now t rf) = t"
    "Log (is_stepped now t rf) = Log rf" "LastIncludedIndex (is_stepped now t rf) = LastIncludedIndex rf"
    "state (is_stepped now t rf) = leader \<Longrightarrow> state rf = leader \<and> CurrentTerm rf = t"
  using assms by (auto simp: is_stepped_def vote_step_def no_rise_def split: if_splits)

lemma InstallSnapshot_votes:
  assumes "InstallSnapshot now args rf = Some (rf', reply)"
  shows "vote_step rf rf' \<and> no_rise rf rf' \<and> (durable rf \<longrightarrow> durable rf') \<and>
    isr_Term reply = CurrentTerm rf'"
proof (cases "is_Term args < CurrentTerm rf")
  case True
  with assms show ?thesis by (auto simp: InstallSnapshot_form vote_step_def no_rise_def)
next
  case False
  let ?rf = "is_stepped now (is_Term args) rf"
  from False assms have p: "is_install args ?rf = Some rf'" "isr_Term reply = is_Term args"
    by (auto simp: InstallSnapshot_form)
  have "CurrentTerm rf \<le> is_Term args" using False by simp
  from is_stepped_props [OF this, of now] is_install_quiet [OF p(1)] p(2) show ?thesis
    using vote_step_quiet [of rf ?rf rf'] no_rise_quiet [of rf ?rf rf'] by (auto simp: quiet_def)
qed

lemma RequestVote_votes:
  assumes "RequestVote now args rf = Some (rf', reply)"
  shows "vote_step rf rf' \<and> no_rise rf rf' \<and> (durable rf \<longrightarrow> durable rf') \<and>
    Log rf' = Log rf \<and> LastIncludedIndex rf' = LastIncludedIndex rf"
  using assms
  by (auto simp: RequestVote_def Let_def bind_eq_Some_conv vote_step_def no_rise_def split: if_splits)

text \<open>A granted vote: the voter is in the candidate's term and has recorded the vote.\<close>

lemma RequestVote_granted:
  assumes "RequestVote now args rf = Some (rf', reply)" and "rvr_VoteGranted reply"
  shows "CurrentTerm rf' = rv_Term args \<and> rvr_Term reply = rv_Term args \<and>
    VotedFor rf' = int (rv_CandidateId args) \<and> CurrentTerm rf \<le> rv_Term args \<and>
    (CurrentTerm rf = rv_Term args \<longrightarrow> VotedFor rf = - 1 \<or> VotedFor rf = int (rv_CandidateId args))"
  using assms by (auto simp: RequestVote_def Let_def bind_eq_Some_conv split: if_splits)

lemma Start_votes:
  assumes "Start command rf = (rf', index, term, isLeader)"
  shows "quiet rf rf' \<and> (durable rf \<longrightarrow> durable rf')"
  using assms by (auto simp: Start_def Let_def quiet_def split: if_splits)

lemma Snapshot_votes:
  assumes "Snapshot index data rf = Some rf'"
  shows "quiet rf rf' \<and> (durable rf \<longrightarrow> durable rf')"
  using assms by (auto simp: Snapshot_def bind_eq_Some_conv quiet_def split: if_splits)

lemma advanceCommitIndex_quiet:
  assumes "advanceCommitIndex rf = Some rf'"
  shows "quiet rf rf' \<and> (durable rf \<longrightarrow> durable rf') \<and>
    Log rf' = Log rf \<and> LastIncludedIndex rf' = LastIncludedIndex rf"
  using assms by (auto simp: advanceCommitIndex_def bind_eq_Some_conv quiet_def split: option.splits)

lemma becomeFollower_votes:
  "CurrentTerm rf < t \<Longrightarrow> vote_step rf (becomeFollowerWithTerm now t rf) \<and>
     no_rise rf (becomeFollowerWithTerm now t rf)"
  by (simp add: vote_step_def no_rise_def)

lemma snapshot_reply_votes:
  assumes "replicate_snapshot_reply now i args reply rf = Some rf'"
  shows "vote_step rf rf' \<and> no_rise rf rf' \<and> (durable rf \<longrightarrow> durable rf') \<and>
    Log rf' = Log rf \<and> LastIncludedIndex rf' = LastIncludedIndex rf"
  using assms becomeFollower_votes
  by (auto simp: replicate_snapshot_reply_def quiet_vote_step quiet_no_rise quiet_def
      dest!: advanceCommitIndex_quiet split: if_splits)

lemma entries_reply_votes:
  assumes "replicate_entries_reply now i args reply rf = Some rf'"
  shows "vote_step rf rf' \<and> no_rise rf rf' \<and> (durable rf \<longrightarrow> durable rf') \<and>
    Log rf' = Log rf \<and> LastIncludedIndex rf' = LastIncludedIndex rf"
  using assms becomeFollower_votes
  by (auto simp: replicate_entries_reply_def Let_def bind_eq_Some_conv quiet_vote_step quiet_no_rise quiet_def
      dest!: advanceCommitIndex_quiet split: if_splits)

lemma startElection_votes:
  assumes "startElection now rf = Some (rf', args)"
  shows "vote_step rf rf' \<and> no_rise rf rf' \<and> durable rf' \<and>
    CurrentTerm rf' = CurrentTerm rf + 1 \<and> VotedFor rf' = int (me rf) \<and>
    Log rf' = Log rf \<and> LastIncludedIndex rf' = LastIncludedIndex rf \<and>
    rv_Term args = CurrentTerm rf + 1 \<and> rv_CandidateId args = me rf \<and> state rf' = candidate"
  using assms by (auto simp: startElection_def Let_def bind_eq_Some_conv vote_step_def no_rise_def)

lemma vote_reply_votes:
  assumes "vote_reply now reply b rf = (rf', b')"
  shows "vote_step rf rf' \<and> (durable rf \<longrightarrow> durable rf') \<and>
    Log rf' = Log rf \<and> LastIncludedIndex rf' = LastIncludedIndex rf"
  using assms by (auto simp: vote_reply_def vote_step_def becomeLeader_def Let_def split: if_splits)

lemma applier_votes:
  "applier_next rf = Some (rf', msg) \<Longrightarrow> quiet rf rf' \<and> (durable rf \<longrightarrow> durable rf') \<and>
     Log rf' = Log rf \<and> LastIncludedIndex rf' = LastIncludedIndex rf"
  "quiet rf (applier_done m rf) \<and> (durable rf \<longrightarrow> durable (applier_done m rf)) \<and>
     Log (applier_done m rf) = Log rf \<and> LastIncludedIndex (applier_done m rf) = LastIncludedIndex rf"
  by (auto simp: applier_next_def bind_eq_Some_conv quiet_def split: if_splits) (cases m; simp add: quiet_def)+

lemma dispatch_votes:
  "quiet rf (replicationDispatcher rf) \<and> (durable rf \<longrightarrow> durable (replicationDispatcher rf)) \<and>
     Log (replicationDispatcher rf) = Log rf \<and>
     LastIncludedIndex (replicationDispatcher rf) = LastIncludedIndex rf"
  "quiet rf (replicationWorker i rf) \<and> (durable rf \<longrightarrow> durable (replicationWorker i rf)) \<and>
     Log (replicationWorker i rf) = Log rf \<and>
     LastIncludedIndex (replicationWorker i rf) = LastIncludedIndex rf"
  by (auto simp: replicationDispatcher_def replicationWorker_def quiet_def Let_def)

lemma crash_view:
  assumes "durable rf"
  shows "persistent_view (Make (peers rf) (me rf) (Checkpoint (persister rf)) now) = persistent_view rf"
  using assms by (simp add: durable_def)

lemma crash_votes:
  assumes "durable rf"
  shows "vote_step rf (Make (peers rf) (me rf) (Checkpoint (persister rf)) now)"
    and "no_rise rf (Make (peers rf) (me rf) (Checkpoint (persister rf)) now)"
  using crash_view [OF assms, of now] by (simp_all add: vote_step_def no_rise_def persistent_view_def)

lemma node_step_durable:
  assumes "node_step rf rf'" and "durable rf"
  shows "durable rf' \<and> vote_step rf rf'"
  using assms
  by (cases rule: node_step.cases)
    (auto dest: AppendEntries_votes InstallSnapshot_votes RequestVote_votes Start_votes Snapshot_votes
      snapshot_reply_votes entries_reply_votes startElection_votes vote_reply_votes applier_votes(1)
      intro: quiet_vote_step crash_votes simp: applier_votes(2) dispatch_votes)

end
