(* ===== verification/Raft_Cluster.thy ===== *)
theory Raft_Cluster
  imports Raft_Node
begin

text \<open>
  A group of Raft peers and the remote calls between them. A call is created by a critical section
  of its caller, is handled by its callee at most once (the network of \<open>rpc/rpc.go\<close> may lose,
  delay and reorder requests and replies but does not duplicate them) and its reply is processed
  by its caller at most once, unless the caller has been restarted since, which ends its
  goroutines. The scheduler is an arbitrary list of events, each of which runs one critical
  section of \<open>raft.go\<close>; a lost message is one whose event never comes. An event whose call or
  server does not exist changes nothing; \<open>None\<close> is a panic.
\<close>

section \<open>The system\<close>

datatype ('c, 'b) rpc_args =
    RVArgs nat RequestVoteArgs \<comment> \<open>the number of the ballot, the arguments\<close>
  | AEArgs "'c AppendEntriesArgs"
  | ISArgs "'b InstallSnapshotArgs"

datatype rpc_reply =
    RVReply RequestVoteReply
  | AEReply AppendEntriesReply
  | ISReply InstallSnapshotReply

record ('c, 'b) call =
  caller :: nat
  callee :: nat
  epoch :: nat
  args :: "('c, 'b) rpc_args"
  reply :: "rpc_reply option"
  returned :: bool

record ('c, 'b) cluster =
  nodes :: "('c, 'b) Raft list"
  epochs :: "nat list"
  calls :: "('c, 'b) call list"
  ballots :: "ballot list"
  applying :: "('c, 'b) ApplyMsg option list"
  delivered :: "('c, 'b) ApplyMsg list list"

datatype ('c, 'b) event =
    Elect nat int              \<comment> \<open>the server's ticker starts an election\<close>
  | Replicate nat nat          \<comment> \<open>\<open>replicateToFollower\<close> of a leader, up to the call\<close>
  | Deliver nat int            \<comment> \<open>the callee handles the call\<close>
  | Return nat int             \<comment> \<open>the caller processes the reply\<close>
  | ClientStart nat 'c
  | TakeSnapshot nat int "'b option"
  | ApplyNext nat
  | Applied nat
  | Dispatch nat
  | Work nat nat
  | Crash nat int

definition initial :: "nat \<Rightarrow> ('c, 'b) cluster" where
  "initial n = \<lparr>nodes = map (\<lambda>i. Make n i MakePersister 0) [0..<n], epochs = replicate n 0,
     calls = [], ballots = [], applying = replicate n None, delivered = replicate n []\<rparr>"

abbreviation size_of :: "('c, 'b) cluster \<Rightarrow> nat" where
  "size_of c \<equiv> length (nodes c)"

text \<open>Run a critical section of server \<open>i\<close>.\<close>

definition set_node :: "nat \<Rightarrow> ('c, 'b) Raft \<Rightarrow> ('c, 'b) cluster \<Rightarrow> ('c, 'b) cluster" where
  "set_node i rf c = c\<lparr>nodes := (nodes c)[i := rf]\<rparr>"

definition new_call :: "nat \<Rightarrow> nat \<Rightarrow> ('c, 'b) rpc_args \<Rightarrow> ('c, 'b) cluster \<Rightarrow> ('c, 'b) call" where
  "new_call i j a c = \<lparr>caller = i, callee = j, epoch = epochs c ! i, args = a, reply = None, returned = False\<rparr>"

definition elect :: "nat \<Rightarrow> int \<Rightarrow> ('c, 'b) cluster \<Rightarrow> ('c, 'b) cluster option" where
  "elect i now c = do {
     (rf, a) \<leftarrow> startElection now (nodes c ! i);
     Some ((set_node i rf c)\<lparr>
       ballots := ballots c @ [\<lparr>b_node = i, b_term = rv_Term a, voteCount = 1, won = False\<rparr>],
       calls := calls c @ map (\<lambda>j. new_call i j (RVArgs (length (ballots c)) a) c)
         (filter (\<lambda>j. j \<noteq> i) [0..<size_of c])\<rparr>) }"

definition send_to :: "nat \<Rightarrow> nat \<Rightarrow> ('c, 'b) cluster \<Rightarrow> ('c, 'b) cluster option" where
  "send_to i j c = do {
     r \<leftarrow> replicate_send j (nodes c ! i);
     Some (case r of
         NoCall \<Rightarrow> c
       | CallInstallSnapshot a \<Rightarrow> c\<lparr>calls := calls c @ [new_call i j (ISArgs a) c]\<rparr>
       | CallAppendEntries a \<Rightarrow> c\<lparr>calls := calls c @ [new_call i j (AEArgs a) c]\<rparr>) }"

fun handle :: "int \<Rightarrow> ('c, 'b) rpc_args \<Rightarrow> ('c, 'b) Raft \<Rightarrow> (('c, 'b) Raft \<times> rpc_reply) option" where
  "handle now (RVArgs b a) rf = map_option (map_prod id RVReply) (RequestVote now a rf)"
| "handle now (AEArgs a) rf = map_option (map_prod id AEReply) (AppendEntries now a rf)"
| "handle now (ISArgs a) rf = map_option (map_prod id ISReply) (InstallSnapshot now a rf)"

definition deliver :: "nat \<Rightarrow> int \<Rightarrow> ('c, 'b) cluster \<Rightarrow> ('c, 'b) cluster option" where
  "deliver k now c = (let x = calls c ! k in
     if reply x \<noteq> None then Some c
     else do {
       (rf, r) \<leftarrow> handle now (args x) (nodes c ! callee x);
       Some ((set_node (callee x) rf c)\<lparr>calls := (calls c)[k := x\<lparr>reply := Some r\<rparr>]\<rparr>) })"

fun process :: "int \<Rightarrow> nat \<Rightarrow> ('c, 'b) rpc_args \<Rightarrow> rpc_reply \<Rightarrow> ballot list \<Rightarrow> ('c, 'b) Raft \<Rightarrow>
    (('c, 'b) Raft \<times> ballot list) option" where
  "process now j (RVArgs b a) (RVReply r) bs rf =
     (case vote_reply now r (bs ! b) rf of (rf', x) \<Rightarrow> Some (rf', bs[b := x]))"
| "process now j (AEArgs a) (AEReply r) bs rf =
     map_option (\<lambda>rf'. (rf', bs)) (replicate_entries_reply now j a r rf)"
| "process now j (ISArgs a) (ISReply r) bs rf =
     map_option (\<lambda>rf'. (rf', bs)) (replicate_snapshot_reply now j a r rf)"
| "process now j _ _ bs rf = Some (rf, bs)"

definition return :: "nat \<Rightarrow> int \<Rightarrow> ('c, 'b) cluster \<Rightarrow> ('c, 'b) cluster option" where
  "return k now c = (let x = calls c ! k in
     case reply x of
       None \<Rightarrow> Some c
     | Some r \<Rightarrow>
         if returned x \<or> epoch x \<noteq> epochs c ! caller x then Some c
         else do {
           (rf, bs) \<leftarrow> process now (callee x) (args x) r (ballots c) (nodes c ! caller x);
           Some ((set_node (caller x) rf c)\<lparr>ballots := bs, calls := (calls c)[k := x\<lparr>returned := True\<rparr>]\<rparr>) })"

definition crash :: "nat \<Rightarrow> int \<Rightarrow> ('c, 'b) cluster \<Rightarrow> ('c, 'b) cluster" where
  "crash i now c = (let rf = nodes c ! i in
     (set_node i (Make (peers rf) (me rf) (Checkpoint (persister rf)) now) c)\<lparr>
       epochs := (epochs c)[i := epochs c ! i + 1], applying := (applying c)[i := None]\<rparr>)"

fun exec :: "('c, 'b) event \<Rightarrow> ('c, 'b) cluster \<Rightarrow> ('c, 'b) cluster option" where
  "exec (Elect i now) c = (if i < size_of c then elect i now c else Some c)"
| "exec (Replicate i j) c = (if i < size_of c \<and> j < size_of c \<and> i \<noteq> j then send_to i j c else Some c)"
| "exec (Deliver k now) c = (if k < length (calls c) then deliver k now c else Some c)"
| "exec (Return k now) c = (if k < length (calls c) then return k now c else Some c)"
| "exec (ClientStart i x) c =
     (if i < size_of c then Some (set_node i (fst (Start x (nodes c ! i))) c) else Some c)"
| "exec (TakeSnapshot i index d) c =
     (if i < size_of c then map_option (\<lambda>rf. set_node i rf c) (Snapshot index d (nodes c ! i)) else Some c)"
| "exec (ApplyNext i) c =
     (if i < size_of c \<and> applying c ! i = None
      then map_option (\<lambda>(rf, m). (set_node i rf c)\<lparr>applying := (applying c)[i := m]\<rparr>) (applier_next (nodes c ! i))
      else Some c)"
| "exec (Applied i) c =
     (if i < size_of c then Some (case applying c ! i of
        None \<Rightarrow> c
      | Some m \<Rightarrow> (set_node i (applier_done m (nodes c ! i)) c)\<lparr>applying := (applying c)[i := None],
          delivered := (delivered c)[i := delivered c ! i @ [m]]\<rparr>) else Some c)"
| "exec (Dispatch i) c =
     (if i < size_of c then Some (set_node i (replicationDispatcher (nodes c ! i)) c) else Some c)"
| "exec (Work i j) c =
     (if i < size_of c then Some (set_node i (replicationWorker j (nodes c ! i)) c) else Some c)"
| "exec (Crash i now) c = (if i < size_of c then Some (crash i now c) else Some c)"

fun run :: "('c, 'b) event list \<Rightarrow> ('c, 'b) cluster \<Rightarrow> ('c, 'b) cluster option" where
  "run [] c = Some c"
| "run (e # es) c = do { c' \<leftarrow> exec e c; run es c' }"

text \<open>The states that a group of \<open>n\<close> peers can reach.\<close>

inductive reachable :: "nat \<Rightarrow> ('c, 'b) cluster \<Rightarrow> bool" for n where
  reachable_initial: "reachable n (initial n)"
| reachable_step: "reachable n c \<Longrightarrow> exec e c = Some c' \<Longrightarrow> reachable n c'"

lemma run_reachable: "reachable n c \<Longrightarrow> run es c = Some c' \<Longrightarrow> reachable n c'"
  by (induction es arbitrary: c) (auto simp: bind_eq_Some_conv intro: reachable_step)

section \<open>The kinds of events\<close>

text \<open>The critical sections that involve no remote call.\<close>

inductive local_step :: "('c, 'b) Raft \<Rightarrow> ('c, 'b) Raft \<Rightarrow> bool" where
  ls_Start: "local_step rf (fst (Start x rf))"
| ls_Snapshot: "Snapshot index d rf = Some rf' \<Longrightarrow> local_step rf rf'"
| ls_apply: "applier_next rf = Some (rf', m) \<Longrightarrow> local_step rf rf'"
| ls_applied: "local_step rf (applier_done m' rf)"
| ls_dispatch: "local_step rf (replicationDispatcher rf)"
| ls_worker: "local_step rf (replicationWorker j rf)"
| ls_crash: "local_step rf (Make (peers rf) (me rf) (Checkpoint (persister rf)) now)"

text \<open>
  An event does nothing to the servers, calls and ballots, or is a local step of one server, the
  creation of a replication call, an election, the handling of a call, or that of a reply.
\<close>

inductive moves :: "('c, 'b) cluster \<Rightarrow> ('c, 'b) cluster \<Rightarrow> bool" for c c' where
  none: "nodes c' = nodes c \<Longrightarrow> calls c' = calls c \<Longrightarrow> ballots c' = ballots c \<Longrightarrow>
    length (epochs c') = length (epochs c) \<Longrightarrow> moves c c'"
| local_move: "i < size_of c \<Longrightarrow> local_step (nodes c ! i) rf' \<Longrightarrow> nodes c' = (nodes c)[i := rf'] \<Longrightarrow>
    calls c' = calls c \<Longrightarrow> ballots c' = ballots c \<Longrightarrow> length (epochs c') = length (epochs c) \<Longrightarrow> moves c c'"
| send: "i < size_of c \<Longrightarrow> j < size_of c \<Longrightarrow> i \<noteq> j \<Longrightarrow> nodes c' = nodes c \<Longrightarrow>
    calls c' = calls c @ [new_call i j a c] \<Longrightarrow> ballots c' = ballots c \<Longrightarrow> epochs c' = epochs c \<Longrightarrow>
    (\<exists>x. a = AEArgs x \<and> replicate_send j (nodes c ! i) = Some (CallAppendEntries x)) \<or>
    (\<exists>x. a = ISArgs x \<and> replicate_send j (nodes c ! i) = Some (CallInstallSnapshot x)) \<Longrightarrow> moves c c'"
| elect: "i < size_of c \<Longrightarrow> startElection now (nodes c ! i) = Some (rf', a) \<Longrightarrow>
    nodes c' = (nodes c)[i := rf'] \<Longrightarrow> epochs c' = epochs c \<Longrightarrow>
    ballots c' = ballots c @ [\<lparr>b_node = i, b_term = rv_Term a, voteCount = 1, won = False\<rparr>] \<Longrightarrow>
    calls c' = calls c @ map (\<lambda>j. new_call i j (RVArgs (length (ballots c)) a) c)
      (filter (\<lambda>j. j \<noteq> i) [0..<size_of c]) \<Longrightarrow> moves c c'"
| deliver: "k < length (calls c) \<Longrightarrow> reply (calls c ! k) = None \<Longrightarrow>
    handle now (args (calls c ! k)) (nodes c ! callee (calls c ! k)) = Some (rf', r) \<Longrightarrow>
    nodes c' = (nodes c)[callee (calls c ! k) := rf'] \<Longrightarrow> ballots c' = ballots c \<Longrightarrow> epochs c' = epochs c \<Longrightarrow>
    calls c' = (calls c)[k := (calls c ! k)\<lparr>reply := Some r\<rparr>] \<Longrightarrow> moves c c'"
| return: "k < length (calls c) \<Longrightarrow> reply (calls c ! k) = Some r \<Longrightarrow> \<not> returned (calls c ! k) \<Longrightarrow>
    epochs c' = epochs c \<Longrightarrow>
    process now (callee (calls c ! k)) (args (calls c ! k)) r (ballots c) (nodes c ! caller (calls c ! k)) =
      Some (rf', bs) \<Longrightarrow>
    nodes c' = (nodes c)[caller (calls c ! k) := rf'] \<Longrightarrow> ballots c' = bs \<Longrightarrow>
    calls c' = (calls c)[k := (calls c ! k)\<lparr>returned := True\<rparr>] \<Longrightarrow> moves c c'"

lemma elect_moves:
  assumes "elect i now c = Some c'" and "i < size_of c"
  shows "moves c c'"
proof -
  from assms obtain rf' a where st: "startElection now (nodes c ! i) = Some (rf', a)"
    by (auto simp: elect_def bind_eq_Some_conv)
  show ?thesis
    by (rule moves.elect [OF assms(2) st]) (use assms st in \<open>auto simp: elect_def set_node_def\<close>)
qed

lemma send_moves:
  assumes "send_to i j c = Some c'" and "i < size_of c" "j < size_of c" "i \<noteq> j"
  shows "moves c c'"
proof -
  from assms obtain r where r: "replicate_send j (nodes c ! i) = Some r"
    by (auto simp: send_to_def bind_eq_Some_conv)
  show ?thesis
  proof (cases r)
    case NoCall
    show ?thesis by (rule moves.none) (use assms(1) r NoCall in \<open>auto simp: send_to_def\<close>)
  next
    case (CallInstallSnapshot a)
    show ?thesis by (rule moves.send [OF assms(2-4), of _ "ISArgs a"])
        (use assms(1) r CallInstallSnapshot in \<open>auto simp: send_to_def\<close>)
  next
    case (CallAppendEntries a)
    show ?thesis by (rule moves.send [OF assms(2-4), of _ "AEArgs a"])
        (use assms(1) r CallAppendEntries in \<open>auto simp: send_to_def\<close>)
  qed
qed

lemma deliver_moves:
  assumes "deliver k now c = Some c'" and "k < length (calls c)"
  shows "moves c c'"
proof (cases "reply (calls c ! k)")
  case None
  from assms None obtain rf' r where
    h: "handle now (args (calls c ! k)) (nodes c ! callee (calls c ! k)) = Some (rf', r)"
    by (auto simp: deliver_def bind_eq_Some_conv Let_def)
  show ?thesis
    by (rule moves.deliver [OF assms(2) None h])
      (use assms None h in \<open>auto simp: deliver_def set_node_def Let_def\<close>)
next
  case (Some r)
  show ?thesis by (rule moves.none) (use assms Some in \<open>auto simp: deliver_def Let_def\<close>)
qed

lemma return_moves:
  assumes "return k now c = Some c'" and "k < length (calls c)"
  shows "moves c c'"
proof (cases "reply (calls c ! k) \<noteq> None \<and> \<not> returned (calls c ! k) \<and>
    epoch (calls c ! k) = epochs c ! caller (calls c ! k)")
  case True
  then obtain r where r: "reply (calls c ! k) = Some r" by blast
  from assms True r obtain rf' bs where
    h: "process now (callee (calls c ! k)) (args (calls c ! k)) r (ballots c)
       (nodes c ! caller (calls c ! k)) = Some (rf', bs)"
    by (auto simp: return_def bind_eq_Some_conv Let_def)
  show ?thesis
    by (rule moves.return [OF assms(2) r _ _ h])
      (use assms True r h in \<open>auto simp: return_def set_node_def Let_def\<close>)
next
  case False
  show ?thesis by (rule moves.none)
      (use assms False in \<open>auto simp: return_def Let_def split: if_splits option.splits\<close>)
qed

lemma local_moves:
  assumes "local_step (nodes c ! i) rf'" and "i < size_of c"
    and "nodes c' = (nodes c)[i := rf']" "calls c' = calls c" "ballots c' = ballots c"
      "length (epochs c') = length (epochs c)"
  shows "moves c c'"
  by (rule moves.local_move [OF assms(2,1,3-6)])

lemma set_node_moves: "local_step (nodes c ! i) rf' \<Longrightarrow> i < size_of c \<Longrightarrow> moves c (set_node i rf' c)"
  by (rule local_moves) (simp_all add: set_node_def)

lemma applier_moves:
  assumes "exec e c = Some c'" and "e = ApplyNext i \<or> e = Applied i" and "i < size_of c"
  shows "moves c c'"
  using assms(2)
proof
  assume e: "e = ApplyNext i"
  show ?thesis
  proof (cases "applying c ! i")
    case None
    from assms(1,3) e None obtain rf' m where a: "applier_next (nodes c ! i) = Some (rf', m)" by auto
    show ?thesis by (rule local_moves [OF ls_apply [OF a] assms(3)])
        (use assms(1,3) e None a in \<open>auto simp: set_node_def\<close>)
  qed (use assms(1) e in \<open>auto intro: moves.none\<close>)
next
  assume e: "e = Applied i"
  show ?thesis
  proof (cases "applying c ! i")
    case None
    with assms(1,3) e show ?thesis by (auto intro: moves.none)
  next
    case (Some m)
    show ?thesis by (rule local_moves [OF ls_applied [of "nodes c ! i" m] assms(3)])
        (use assms(1,3) e Some in \<open>auto simp: set_node_def\<close>)
  qed
qed

lemma exec_moves:
  assumes "exec e c = Some c'"
  shows "moves c c'"
proof (cases e)
  case (Crash i now)
  show ?thesis
  proof (cases "i < size_of c")
    case True
    show ?thesis by (rule local_moves [OF ls_crash [of "nodes c ! i" now] True])
        (use assms Crash True in \<open>auto simp: crash_def set_node_def Let_def\<close>)
  qed (use assms Crash in \<open>auto intro: moves.none\<close>)
next
  case (ApplyNext i)
  with assms applier_moves [OF assms, of i] show ?thesis by (cases "i < size_of c") (auto intro: moves.none)
next
  case (Applied i)
  with assms applier_moves [OF assms, of i] show ?thesis by (cases "i < size_of c") (auto intro: moves.none)
qed (use assms in \<open>auto split: if_splits intro: moves.none elect_moves send_moves deliver_moves
    return_moves set_node_moves local_step.intros\<close>)

lemma local_step_votes:
  assumes "local_step rf rf'" and "durable rf"
  shows "vote_step rf rf' \<and> no_rise rf rf' \<and> durable rf'"
  using assms
proof (cases rule: local_step.cases)
  case (ls_Start x)
  obtain rf1 ix t isLeader where "Start x rf = (rf1, ix, t, isLeader)"
    by (cases "Start x rf") auto
  with ls_Start Start_votes [OF this] assms(2) show ?thesis
    by (simp add: quiet_vote_step quiet_no_rise)
next
  case (ls_Snapshot index d)
  with Snapshot_votes [OF ls_Snapshot] assms(2) show ?thesis by (simp add: quiet_vote_step quiet_no_rise)
next
  case (ls_apply m)
  with applier_votes(1) [OF ls_apply] assms(2) show ?thesis by (simp add: quiet_vote_step quiet_no_rise)
next
  case (ls_applied m)
  with applier_votes(2) [of rf m] assms(2) show ?thesis by (simp add: quiet_vote_step quiet_no_rise)
next
  case ls_dispatch
  with dispatch_votes(1) [of rf] assms(2) show ?thesis by (simp add: quiet_vote_step quiet_no_rise)
next
  case (ls_worker j)
  with dispatch_votes(2) [of rf j] assms(2) show ?thesis by (simp add: quiet_vote_step quiet_no_rise)
next
  case (ls_crash now)
  with crash_votes [OF assms(2), of now] show ?thesis by simp
qed

end
