(* ===== verification/Raft_Election.thy ===== *)
theory Raft_Election
  imports Raft_Cluster
begin

text \<open>
  Elections: the votes that have been given are recorded in the calls and ballots of a cluster, a
  server gives at most one vote per term, also across crashes, and a leader has the votes of a
  majority. Two leaders of the same term are therefore the same server.
\<close>

section \<open>Quorums\<close>

text \<open>Any two quorums have a member in common.\<close>

locale quorum_system =
  fixes universe :: "'a set" and quorum :: "'a set \<Rightarrow> bool"
  assumes quorums_meet: "quorum A \<Longrightarrow> quorum B \<Longrightarrow> A \<inter> B \<noteq> {}"
begin

text \<open>If every member votes for at most one candidate, at most one candidate has a quorum.\<close>

lemma one_winner:
  assumes "\<And>v a b. (v, a) \<in> votes \<Longrightarrow> (v, b) \<in> votes \<Longrightarrow> a = b"
    and "quorum {v. (v, a) \<in> votes}" and "quorum {v. (v, b) \<in> votes}"
  shows "a = b"
  using quorums_meet [OF assms(2,3)] assms(1) by blast

end

definition majority :: "nat \<Rightarrow> nat set \<Rightarrow> bool" where
  "majority n A \<longleftrightarrow> A \<subseteq> {..<n} \<and> n div 2 < card A"

text \<open>Go's test \<open>count > len(rf.peers)/2\<close> makes a quorum system.\<close>

interpretation peers: quorum_system "{..<n}" "majority n" for n
proof
  fix A B assume "majority n A" and "majority n B"
  then show "A \<inter> B \<noteq> {}"
    using majorities_meet [of "{..<n}" A B] by (simp add: majority_def)
qed

section \<open>Votes\<close>

definition granted :: "('c, 'b) call \<Rightarrow> bool" where
  "granted x = (case reply x of Some (RVReply r) \<Rightarrow> rvr_VoteGranted r | _ \<Rightarrow> False)"

text \<open>The votes (voter, term, candidate): those granted to requests and those of candidates for themselves.\<close>

definition call_vote :: "('c, 'b) call \<Rightarrow> (nat \<times> int \<times> nat) option" where
  "call_vote x = (case args x of
       RVArgs b a \<Rightarrow> if granted x then Some (callee x, rv_Term a, rv_CandidateId a) else None
     | _ \<Rightarrow> None)"

definition ballot_vote :: "ballot \<Rightarrow> nat \<times> int \<times> nat" where
  "ballot_vote b = (b_node b, b_term b, b_node b)"

definition votes :: "('c, 'b) cluster \<Rightarrow> (nat \<times> int \<times> nat) set" where
  "votes c = {v. Some v \<in> set (map call_vote (calls c))} \<union> set (map ballot_vote (ballots c))"

text \<open>The calls whose vote has been counted in ballot \<open>b\<close>.\<close>

definition counted :: "('c, 'b) cluster \<Rightarrow> nat \<Rightarrow> nat set" where
  "counted c b = {k. k < length (calls c) \<and> (\<exists>a. args (calls c ! k) = RVArgs b a) \<and>
     granted (calls c ! k) \<and> returned (calls c ! k)}"

definition wf_cluster :: "nat \<Rightarrow> ('c, 'b) cluster \<Rightarrow> bool" where
  "wf_cluster n c \<longleftrightarrow> size_of c = n \<and> length (epochs c) = n \<and>
     (\<forall>i < n. peers (nodes c ! i) = n \<and> me (nodes c ! i) = i \<and> durable (nodes c ! i)) \<and>
     (\<forall>k < length (calls c). let x = calls c ! k in
        caller x < n \<and> callee x < n \<and> caller x \<noteq> callee x \<and> (returned x \<longrightarrow> reply x \<noteq> None) \<and>
        (\<forall>b a. args x = RVArgs b a \<longrightarrow> b < length (ballots c) \<and> b_node (ballots c ! b) = caller x \<and>
           b_term (ballots c ! b) = rv_Term a \<and> rv_CandidateId a = caller x))"

lemma wf_clusterD:
  assumes "wf_cluster n c"
  shows "size_of c = n" "length (epochs c) = n"
    "\<And>i. i < n \<Longrightarrow> peers (nodes c ! i) = n \<and> me (nodes c ! i) = i \<and> durable (nodes c ! i)"
    "\<And>k. k < length (calls c) \<Longrightarrow> caller (calls c ! k) < n \<and> callee (calls c ! k) < n \<and>
       caller (calls c ! k) \<noteq> callee (calls c ! k) \<and> (returned (calls c ! k) \<longrightarrow> reply (calls c ! k) \<noteq> None)"
    "\<And>k b a. k < length (calls c) \<Longrightarrow> args (calls c ! k) = RVArgs b a \<Longrightarrow> b < length (ballots c) \<and>
       b_node (ballots c ! b) = caller (calls c ! k) \<and> b_term (ballots c ! b) = rv_Term a \<and>
       rv_CandidateId a = caller (calls c ! k)"
  using assms unfolding wf_cluster_def Let_def by auto

lemma wf_clusterI:
  assumes "size_of c = n" "length (epochs c) = n"
    "\<And>i. i < n \<Longrightarrow> peers (nodes c ! i) = n \<and> me (nodes c ! i) = i \<and> durable (nodes c ! i)"
    "\<And>k. k < length (calls c) \<Longrightarrow> caller (calls c ! k) < n \<and> callee (calls c ! k) < n \<and>
       caller (calls c ! k) \<noteq> callee (calls c ! k) \<and> (returned (calls c ! k) \<longrightarrow> reply (calls c ! k) \<noteq> None)"
    "\<And>k b a. k < length (calls c) \<Longrightarrow> args (calls c ! k) = RVArgs b a \<Longrightarrow> b < length (ballots c) \<and>
       b_node (ballots c ! b) = caller (calls c ! k) \<and> b_term (ballots c ! b) = rv_Term a \<and>
       rv_CandidateId a = caller (calls c ! k)"
  shows "wf_cluster n c"
  using assms unfolding wf_cluster_def Let_def by auto

definition votes_ok :: "('c, 'b) cluster \<Rightarrow> bool" where
  "votes_ok c \<longleftrightarrow> (\<forall>v t w. (v, t, w) \<in> votes c \<longrightarrow> v < size_of c \<and> t \<le> CurrentTerm (nodes c ! v) \<and>
       (t = CurrentTerm (nodes c ! v) \<longrightarrow> VotedFor (nodes c ! v) = int w)) \<and>
     (\<forall>v t w w'. (v, t, w) \<in> votes c \<longrightarrow> (v, t, w') \<in> votes c \<longrightarrow> w = w')"

definition ballots_ok :: "nat \<Rightarrow> ('c, 'b) cluster \<Rightarrow> bool" where
  "ballots_ok n c \<longleftrightarrow>
     (\<forall>b < length (ballots c). \<forall>b' < length (ballots c). b_node (ballots c ! b) = b_node (ballots c ! b') \<longrightarrow>
        b_term (ballots c ! b) = b_term (ballots c ! b') \<longrightarrow> b = b') \<and>
     (\<forall>k < length (calls c). \<forall>k' < length (calls c). \<forall>b a a'. args (calls c ! k) = RVArgs b a \<longrightarrow>
        args (calls c ! k') = RVArgs b a' \<longrightarrow> callee (calls c ! k) = callee (calls c ! k') \<longrightarrow> k = k') \<and>
     (\<forall>b < length (ballots c). voteCount (ballots c ! b) \<le> 1 + card (counted c b) \<and>
        (won (ballots c ! b) \<longrightarrow> n div 2 < voteCount (ballots c ! b)))"

lemma ballots_okD:
  assumes "ballots_ok n c"
  shows "\<And>b b'. b < length (ballots c) \<Longrightarrow> b' < length (ballots c) \<Longrightarrow>
      b_node (ballots c ! b) = b_node (ballots c ! b') \<Longrightarrow> b_term (ballots c ! b) = b_term (ballots c ! b') \<Longrightarrow> b = b'"
    "\<And>k k' b a a'. k < length (calls c) \<Longrightarrow> k' < length (calls c) \<Longrightarrow> args (calls c ! k) = RVArgs b a \<Longrightarrow>
      args (calls c ! k') = RVArgs b a' \<Longrightarrow> callee (calls c ! k) = callee (calls c ! k') \<Longrightarrow> k = k'"
    "\<And>b. b < length (ballots c) \<Longrightarrow> voteCount (ballots c ! b) \<le> 1 + card (counted c b)"
    "\<And>b. b < length (ballots c) \<Longrightarrow> won (ballots c ! b) \<Longrightarrow> n div 2 < voteCount (ballots c ! b)"
  using assms unfolding ballots_ok_def by blast+

lemma ballots_okI:
  assumes "\<And>b b'. b < length (ballots c) \<Longrightarrow> b' < length (ballots c) \<Longrightarrow>
      b_node (ballots c ! b) = b_node (ballots c ! b') \<Longrightarrow> b_term (ballots c ! b) = b_term (ballots c ! b') \<Longrightarrow> b = b'"
    "\<And>k k' b a a'. k < length (calls c) \<Longrightarrow> k' < length (calls c) \<Longrightarrow> args (calls c ! k) = RVArgs b a \<Longrightarrow>
      args (calls c ! k') = RVArgs b a' \<Longrightarrow> callee (calls c ! k) = callee (calls c ! k') \<Longrightarrow> k = k'"
    "\<And>b. b < length (ballots c) \<Longrightarrow> voteCount (ballots c ! b) \<le> 1 + card (counted c b)"
    "\<And>b. b < length (ballots c) \<Longrightarrow> won (ballots c ! b) \<Longrightarrow> n div 2 < voteCount (ballots c ! b)"
  shows "ballots_ok n c"
  using assms unfolding ballots_ok_def by blast

definition elected :: "('c, 'b) cluster \<Rightarrow> nat \<Rightarrow> int \<Rightarrow> bool" where
  "elected c i t \<longleftrightarrow> (\<exists>b \<in> set (ballots c). b_node b = i \<and> b_term b = t \<and> won b)"

definition leaders_elected :: "('c, 'b) cluster \<Rightarrow> bool" where
  "leaders_elected c \<longleftrightarrow> (\<forall>i < size_of c. state (nodes c ! i) = leader \<longrightarrow>
     elected c i (CurrentTerm (nodes c ! i)))"

text \<open>A granted vote is for the term of its request.\<close>

definition granted_term :: "('c, 'b) call \<Rightarrow> bool" where
  "granted_term x \<longleftrightarrow> (case (args x, reply x) of
       (RVArgs b a, Some (RVReply r)) \<Rightarrow> rvr_VoteGranted r \<longrightarrow> rvr_Term r = rv_Term a
     | _ \<Rightarrow> True)"

definition election_inv :: "nat \<Rightarrow> ('c, 'b) cluster \<Rightarrow> bool" where
  "election_inv n c \<longleftrightarrow> wf_cluster n c \<and> votes_ok c \<and> ballots_ok n c \<and> leaders_elected c \<and>
     list_all granted_term (calls c)"

section \<open>Election safety from the invariant\<close>

lemma voters_of_ballot:
  assumes "wf_cluster n c" and "b < length (ballots c)"
  shows "insert (b_node (ballots c ! b)) ((\<lambda>k. callee (calls c ! k)) ` counted c b) \<subseteq>
    {v. (v, b_term (ballots c ! b), b_node (ballots c ! b)) \<in> votes c}"
proof -
  have "(callee (calls c ! k), b_term (ballots c ! b), b_node (ballots c ! b)) \<in> votes c"
    if "k \<in> counted c b" for k
  proof -
    from that obtain a where k: "k < length (calls c)" "args (calls c ! k) = RVArgs b a" "granted (calls c ! k)"
      unfolding counted_def by blast
    have "b_term (ballots c ! b) = rv_Term a" "b_node (ballots c ! b) = rv_CandidateId a"
      using wf_clusterD(5) [OF assms(1) k(1,2)] by auto
    then have "call_vote (calls c ! k) =
        Some (callee (calls c ! k), b_term (ballots c ! b), b_node (ballots c ! b))"
      using k by (simp add: call_vote_def)
    then have "Some (callee (calls c ! k), b_term (ballots c ! b), b_node (ballots c ! b)) \<in>
        set (map call_vote (calls c))" using k(1) by (metis length_map nth_map nth_mem)
    then show ?thesis unfolding votes_def by blast
  qed
  moreover have "(b_node (ballots c ! b), b_term (ballots c ! b), b_node (ballots c ! b)) \<in> votes c"
    unfolding votes_def using assms(2) nth_mem [of b "ballots c"] by (force simp: ballot_vote_def)
  ultimately show ?thesis by auto
qed

lemma finite_counted [simp]: "finite (counted c b)"
  unfolding counted_def by (rule finite_subset [of _ "{..<length (calls c)}"]) auto

lemma voters_card:
  assumes "wf_cluster n c" and "ballots_ok n c" and "b < length (ballots c)"
  shows "card (insert (b_node (ballots c ! b)) ((\<lambda>k. callee (calls c ! k)) ` counted c b)) =
    1 + card (counted c b)"
proof -
  let ?f = "\<lambda>k. callee (calls c ! k)"
  have "inj_on ?f (counted c b)"
  proof (rule inj_onI)
    fix k k' assume "k \<in> counted c b" "k' \<in> counted c b" "?f k = ?f k'"
    then show "k = k'" using assms(2) unfolding counted_def ballots_ok_def by blast
  qed
  moreover have "b_node (ballots c ! b) \<notin> ?f ` counted c b"
  proof
    assume "b_node (ballots c ! b) \<in> ?f ` counted c b"
    then obtain k a where "k < length (calls c)" "args (calls c ! k) = RVArgs b a"
      "b_node (ballots c ! b) = callee (calls c ! k)" unfolding counted_def by blast
    with wf_clusterD(4) [OF assms(1), of k] wf_clusterD(5) [OF assms(1), of k b a] show False by simp
  qed
  ultimately show ?thesis by (simp add: card_image)
qed

lemma elected_majority:
  assumes "election_inv n c" and "elected c i t"
  shows "majority n {v. (v, t, i) \<in> votes c}"
proof -
  from assms have wf: "wf_cluster n c" and bo: "ballots_ok n c" and vo: "votes_ok c"
    by (auto simp: election_inv_def)
  from assms(2) obtain b where b: "b < length (ballots c)" "b_node (ballots c ! b) = i"
    "b_term (ballots c ! b) = t" "won (ballots c ! b)"
    unfolding elected_def by (metis in_set_conv_nth)
  have sub: "{v. (v, t, i) \<in> votes c} \<subseteq> {..<n}"
    using vo wf unfolding votes_ok_def wf_cluster_def by auto
  have "n div 2 < voteCount (ballots c ! b)" and "voteCount (ballots c ! b) \<le> 1 + card (counted c b)"
    using bo b(1,4) unfolding ballots_ok_def by auto
  then have "n div 2 < card (insert i ((\<lambda>k. callee (calls c ! k)) ` counted c b))"
    using voters_card [OF wf bo b(1)] unfolding b(2) by linarith
  also have "\<dots> \<le> card {v. (v, t, i) \<in> votes c}"
    using voters_of_ballot [OF wf b(1)] b(2,3) sub by (intro card_mono) (auto intro: finite_subset)
  finally show ?thesis using sub by (simp add: majority_def)
qed

lemma elected_unique:
  assumes "election_inv n c" and "elected c i t" and "elected c j t"
  shows "i = j"
proof (rule peers.one_winner [where n = n and votes = "{(v, w). (v, t, w) \<in> votes c}"])
  show "majority n {v. (v, i) \<in> {(v, w). (v, t, w) \<in> votes c}}"
    using elected_majority [OF assms(1,2)] by simp
  show "majority n {v. (v, j) \<in> {(v, w). (v, t, w) \<in> votes c}}"
    using elected_majority [OF assms(1,3)] by simp
  show "a = b" if "(v, a) \<in> {(v, w). (v, t, w) \<in> votes c}" "(v, b) \<in> {(v, w). (v, t, w) \<in> votes c}" for v a b
    using that assms(1) unfolding election_inv_def votes_ok_def by auto
qed

section \<open>Every event keeps the invariant\<close>

lemma vote_step_refl [simp]: "vote_step rf rf" by (simp add: vote_step_def)

lemma no_rise_refl [simp]: "no_rise rf rf" by (simp add: no_rise_def)

lemma votes_okD:
  assumes "votes_ok c" and "(v, t, w) \<in> votes c"
  shows "v < size_of c" "t \<le> CurrentTerm (nodes c ! v)"
    "t = CurrentTerm (nodes c ! v) \<Longrightarrow> VotedFor (nodes c ! v) = int w"
    "(v, t, w') \<in> votes c \<Longrightarrow> w = w'"
  using assms unfolding votes_ok_def by blast+

lemma votes_okI:
  assumes "\<And>v t w. (v, t, w) \<in> votes c \<Longrightarrow> v < size_of c \<and> t \<le> CurrentTerm (nodes c ! v) \<and>
      (t = CurrentTerm (nodes c ! v) \<longrightarrow> VotedFor (nodes c ! v) = int w)"
    and "\<And>v t w w'. (v, t, w) \<in> votes c \<Longrightarrow> (v, t, w') \<in> votes c \<Longrightarrow> w = w'"
  shows "votes_ok c"
  using assms unfolding votes_ok_def by blast

lemma votes_ok_step:
  assumes "votes_ok c" and "(v, t, w) \<in> votes c" and "vote_step (nodes c ! v) rf'"
  shows "t \<le> CurrentTerm rf' \<and> (t = CurrentTerm rf' \<longrightarrow> VotedFor rf' = int w)"
  using assms(3) votes_okD(2,3) [OF assms(1,2)] unfolding vote_step_def by auto

lemma votes_ok_kept:
  assumes "votes_ok c" and "votes c' = votes c" and "size_of c' = size_of c"
    and "\<And>v. v < size_of c \<Longrightarrow> vote_step (nodes c ! v) (nodes c' ! v)"
  shows "votes_ok c'"
proof (rule votes_okI)
  fix v t w assume "(v, t, w) \<in> votes c'"
  then have v: "(v, t, w) \<in> votes c" using assms(2) by simp
  show "v < size_of c' \<and> t \<le> CurrentTerm (nodes c' ! v) \<and>
      (t = CurrentTerm (nodes c' ! v) \<longrightarrow> VotedFor (nodes c' ! v) = int w)"
    using votes_ok_step [OF assms(1) v assms(4)] votes_okD(1) [OF assms(1) v] assms(3) by simp
  show "w = w'" if "(v, t, w') \<in> votes c'" for w'
    using votes_okD(4) [OF assms(1) v, of w'] that assms(2) by simp
qed

lemma votes_ok_add:
  assumes "votes_ok c" and "votes c' = insert (v, t, w) (votes c)" and "size_of c' = size_of c"
    and "\<And>u. u < size_of c \<Longrightarrow> vote_step (nodes c ! u) (nodes c' ! u)"
    and "v < size_of c" and "CurrentTerm (nodes c' ! v) = t" and "VotedFor (nodes c' ! v) = int w"
    and "\<And>w'. (v, t, w') \<in> votes c \<Longrightarrow> w' = w"
  shows "votes_ok c'"
proof (rule votes_okI)
  fix u r x assume "(u, r, x) \<in> votes c'"
  then consider "(u, r, x) = (v, t, w)" | "(u, r, x) \<in> votes c" using assms(2) by auto
  then show "u < size_of c' \<and> r \<le> CurrentTerm (nodes c' ! u) \<and>
      (r = CurrentTerm (nodes c' ! u) \<longrightarrow> VotedFor (nodes c' ! u) = int x)"
  proof cases
    case 1
    with assms(3,5-7) show ?thesis by simp
  next
    case 2
    from votes_ok_step [OF assms(1) 2 assms(4)] votes_okD(1) [OF assms(1) 2] assms(3) show ?thesis by simp
  qed
next
  fix u r x x' assume "(u, r, x) \<in> votes c'" "(u, r, x') \<in> votes c'"
  then have "(u, r, x) = (v, t, w) \<or> (u, r, x) \<in> votes c" "(u, r, x') = (v, t, w) \<or> (u, r, x') \<in> votes c"
    by (simp_all add: assms(2))
  then show "x = x'"
  proof (elim disjE)
    assume "(u, r, x) = (v, t, w)" "(u, r, x') \<in> votes c"
    then show ?thesis using assms(8) [of x'] by simp
  next
    assume "(u, r, x) \<in> votes c" "(u, r, x') = (v, t, w)"
    then show ?thesis using assms(8) [of x] by simp
  next
    assume "(u, r, x) \<in> votes c" "(u, r, x') \<in> votes c"
    then show ?thesis by (rule votes_okD(4) [OF assms(1)])
  qed simp
qed

lemma leaders_kept:
  assumes "leaders_elected c" and "size_of c' = size_of c"
    and "\<And>i t. elected c i t \<Longrightarrow> elected c' i t"
    and "\<And>i. i < size_of c \<Longrightarrow> no_rise (nodes c ! i) (nodes c' ! i)"
  shows "leaders_elected c'"
  using assms unfolding leaders_elected_def no_rise_def by (metis (no_types, lifting))

text \<open>Updates of one server.\<close>

lemma vote_step_update:
  assumes "vote_step (xs ! i) rf'" shows "vote_step (xs ! v) (xs[i := rf'] ! v)"
  using assms by (cases "v = i"; cases "i < length xs") (simp_all add: list_update_beyond)

lemma no_rise_update:
  assumes "no_rise (xs ! i) rf'" shows "no_rise (xs ! v) (xs[i := rf'] ! v)"
  using assms by (cases "v = i"; cases "i < length xs") (simp_all add: list_update_beyond)

lemma wf_nodes_update:
  assumes "wf_cluster n c" and "vote_step (nodes c ! i) rf'" and "durable rf'" and "v < n"
  shows "peers ((nodes c)[i := rf'] ! v) = n \<and> me ((nodes c)[i := rf'] ! v) = v \<and>
    durable ((nodes c)[i := rf'] ! v)"
  using wf_clusterD(1,3) [OF assms(1)] assms(2-4)
  by (cases "v = i") (auto simp: vote_step_def)

text \<open>Updates of one element of a list, under a function that does not see them.\<close>

lemma map_update_same: "f y = f (xs ! k) \<Longrightarrow> map f (xs[k := y]) = map f xs"
  by (metis list_update_id map_update)

lemma set_update_None:
  assumes "k < length xs" and "xs ! k = None"
  shows "Some z \<in> set (xs[k := Some p]) \<longleftrightarrow> z = p \<or> Some z \<in> set xs"
proof -
  have "xs[k := Some p] ! m = Some z \<longleftrightarrow> m = k \<and> z = p \<or> xs ! m = Some z" if "m < length xs" for m
    using that assms by (cases "m = k") auto
  then show ?thesis unfolding in_set_conv_nth length_list_update using assms(1) by metis
qed

lemma call_vote_None: "\<not> granted x \<Longrightarrow> call_vote x = None"
  by (simp add: call_vote_def split: rpc_args.splits)

lemma votes_append:
  assumes "calls c' = calls c @ xs" and "\<And>x. x \<in> set xs \<Longrightarrow> \<not> granted x" and "ballots c' = ballots c @ bs"
  shows "votes c' = votes c \<union> set (map ballot_vote bs)"
  using assms by (force simp: votes_def call_vote_None)

lemma granted_term_not_granted: "\<not> granted x \<Longrightarrow> granted_term x"
  by (simp add: granted_def granted_term_def split: rpc_args.splits option.splits rpc_reply.splits)

lemma not_granted_new [simp]: "\<not> granted (new_call i j a c)"
  by (simp add: granted_def new_call_def)

text \<open>Events that leave the ballots alone and may add replication calls.\<close>

lemma counted_append:
  assumes "calls c' = calls c @ xs" and "\<And>x. x \<in> set xs \<Longrightarrow> \<not> granted x"
  shows "counted c' b = counted c b"
proof -
  have "\<not> granted (calls c' ! k)" if "k < length (calls c')" "\<not> k < length (calls c)" for k
    using that assms nth_mem [of "k - length (calls c)" xs] by (auto simp: nth_append)
  moreover have "calls c' ! k = calls c ! k" if "k < length (calls c)" for k
    using that assms(1) by (simp add: nth_append)
  moreover have "k < length (calls c')" if "k < length (calls c)" for k using that assms(1) by simp
  ultimately show ?thesis unfolding counted_def by (intro Collect_cong) metis
qed

lemma inv_quiet:
  assumes "election_inv n c"
    and "size_of c' = size_of c" "length (epochs c') = length (epochs c)" "ballots c' = ballots c"
    and "\<And>v. v < n \<Longrightarrow> vote_step (nodes c ! v) (nodes c' ! v) \<and> no_rise (nodes c ! v) (nodes c' ! v) \<and>
      durable (nodes c' ! v)"
    and "calls c' = calls c @ xs"
    and "\<And>x. x \<in> set xs \<Longrightarrow> caller x < n \<and> callee x < n \<and> caller x \<noteq> callee x \<and> \<not> returned x \<and>
      \<not> granted x \<and> (\<forall>b a. args x \<noteq> RVArgs b a)"
  shows "election_inv n c'"
proof -
  have wf: "wf_cluster n c" and vo: "votes_ok c" and bo: "ballots_ok n c" and le: "leaders_elected c"
    using assms(1) by (auto simp: election_inv_def)
  have new: "k < length (calls c) \<and> calls c' ! k = calls c ! k \<or> calls c' ! k \<in> set xs"
    if "k < length (calls c')" for k
    using that assms(6) by (auto simp: nth_append)
  have old: "k < length (calls c)" "calls c' ! k = calls c ! k"
    if "k < length (calls c')" "args (calls c' ! k) = RVArgs b a" for k b a
    using new [OF that(1)] that(2) assms(7) by auto
  have "wf_cluster n c'"
  proof (rule wf_clusterI)
    fix k assume "k < length (calls c')"
    from new [OF this] show "caller (calls c' ! k) < n \<and> callee (calls c' ! k) < n \<and>
       caller (calls c' ! k) \<noteq> callee (calls c' ! k) \<and> (returned (calls c' ! k) \<longrightarrow> reply (calls c' ! k) \<noteq> None)"
      using wf_clusterD(4) [OF wf] assms(7) by metis
  next
    fix k b a assume k: "k < length (calls c')" "args (calls c' ! k) = RVArgs b a"
    show "b < length (ballots c') \<and> b_node (ballots c' ! b) = caller (calls c' ! k) \<and>
      b_term (ballots c' ! b) = rv_Term a \<and> rv_CandidateId a = caller (calls c' ! k)"
      using wf_clusterD(5) [OF wf, of k b a] old [OF k] k(2) assms(4) by simp
  qed (use wf_clusterD(1,2,3) [OF wf] assms(2,3,5) in \<open>auto simp: vote_step_def\<close>)
  moreover have "votes c' = votes c"
    using votes_append [OF assms(6), of "[]"] assms(4,7) by simp
  then have "votes_ok c'"
    using votes_ok_kept [OF vo _ assms(2)] assms(5) wf_clusterD(1) [OF wf] by simp
  moreover have cnt: "counted c' b = counted c b" for b
    using counted_append [OF assms(6)] assms(7) by blast
  have "ballots_ok n c'"
    by (rule ballots_okI) (use ballots_okD [OF bo] old assms(4) cnt in auto)
  moreover have "leaders_elected c'"
    by (rule leaders_kept [OF le assms(2)])
      (use assms(4,5) wf_clusterD(1) [OF wf] in \<open>auto simp: elected_def\<close>)
  moreover have "list_all granted_term (calls c')"
    using assms(1,6,7) by (auto simp: election_inv_def list_all_iff intro: granted_term_not_granted)
  ultimately show ?thesis by (simp add: election_inv_def)
qed

text \<open>An election.\<close>

lemma filter_upt_nth_inj:
  assumes "k < length (filter P [0..<m])" "k' < length (filter P [0..<m])"
    "filter P [0..<m] ! k = filter P [0..<m] ! k'"
  shows "k = k'"
  using assms nth_eq_iff_index_eq [of "filter P [0..<m]" k k'] by simp

definition electing :: "nat \<Rightarrow> ('c, 'b) Raft \<Rightarrow> RequestVoteArgs \<Rightarrow> ('c, 'b) cluster \<Rightarrow> ('c, 'b) cluster \<Rightarrow> bool" where
  "electing i rf' a c c' \<longleftrightarrow> i < size_of c \<and> (\<exists>now. startElection now (nodes c ! i) = Some (rf', a)) \<and>
     nodes c' = (nodes c)[i := rf'] \<and> epochs c' = epochs c \<and>
     ballots c' = ballots c @ [\<lparr>b_node = i, b_term = rv_Term a, voteCount = 1, won = False\<rparr>] \<and>
     calls c' = calls c @ map (\<lambda>j. new_call i j (RVArgs (length (ballots c)) a) c)
       (filter (\<lambda>j. j \<noteq> i) [0..<size_of c])"

lemma electing_node:
  assumes "electing i rf' a c c'" and "wf_cluster n c"
  shows "vote_step (nodes c ! i) rf'" "no_rise (nodes c ! i) rf'" "durable rf'"
    "CurrentTerm rf' = rv_Term a" "VotedFor rf' = int i" "CurrentTerm (nodes c ! i) < rv_Term a"
    "rv_CandidateId a = i" "i < n"
  using assms startElection_votes [of _ "nodes c ! i" rf' a] wf_clusterD(1,3) [OF assms(2)]
  unfolding electing_def by auto

text \<open>A call after the election is an old one or a request for a vote in the new ballot.\<close>

lemma electing_call:
  assumes "electing i rf' a c c'" and "k < length (calls c')"
  obtains (old) "k < length (calls c)" "calls c' ! k = calls c ! k"
  | (new) m where "k = length (calls c) + m" "m < length (filter (\<lambda>j. j \<noteq> i) [0..<size_of c])"
      "calls c' ! k = new_call i (filter (\<lambda>j. j \<noteq> i) [0..<size_of c] ! m) (RVArgs (length (ballots c)) a) c"
proof (cases "k < length (calls c)")
  case True
  with old assms show ?thesis by (simp add: electing_def nth_append)
next
  case False
  with new [of "k - length (calls c)"] assms show ?thesis by (simp add: electing_def nth_append)
qed

lemma electing_ballot:
  assumes "electing i rf' a c c'"
  shows "b < length (ballots c) \<Longrightarrow> ballots c' ! b = ballots c ! b"
    and "ballots c' ! length (ballots c) = \<lparr>b_node = i, b_term = rv_Term a, voteCount = 1, won = False\<rparr>"
    and "length (ballots c') = Suc (length (ballots c))"
  using assms by (simp_all add: electing_def nth_append)

lemma electing_wf:
  assumes "electing i rf' a c c'" and wf: "wf_cluster n c"
  shows "wf_cluster n c'"
proof (rule wf_clusterI)
  note node = electing_node [OF assms]
  fix k assume "k < length (calls c')"
  from assms(1) this show "caller (calls c' ! k) < n \<and> callee (calls c' ! k) < n \<and>
    caller (calls c' ! k) \<noteq> callee (calls c' ! k) \<and> (returned (calls c' ! k) \<longrightarrow> reply (calls c' ! k) \<noteq> None)"
  proof (cases rule: electing_call)
    case old
    with wf_clusterD(4) [OF wf] show ?thesis by simp
  next
    case (new m)
    with nth_mem [OF new(2)] node(8) wf_clusterD(1) [OF wf] show ?thesis by (simp add: new_call_def)
  qed
next
  fix k b x assume k: "k < length (calls c')" "args (calls c' ! k) = RVArgs b x"
  from assms(1) k(1) show "b < length (ballots c') \<and> b_node (ballots c' ! b) = caller (calls c' ! k) \<and>
    b_term (ballots c' ! b) = rv_Term x \<and> rv_CandidateId x = caller (calls c' ! k)"
  proof (cases rule: electing_call)
    case old
    with wf_clusterD(5) [OF wf, of k b x] k(2) electing_ballot [OF assms(1)] show ?thesis by simp
  next
    case (new m)
    with k(2) electing_ballot [OF assms(1)] electing_node(7) [OF assms] show ?thesis
      by (auto simp: new_call_def)
  qed
next
  show "peers (nodes c' ! v) = n \<and> me (nodes c' ! v) = v \<and> durable (nodes c' ! v)" if "v < n" for v
    using wf_nodes_update [OF wf electing_node(1,3) [OF assms] that] assms(1) by (simp add: electing_def)
qed (use wf_clusterD(1,2) [OF wf] assms(1) in \<open>simp_all add: electing_def\<close>)

lemma electing_votes:
  assumes "electing i rf' a c c'"
  shows "votes c' = insert (i, rv_Term a, i) (votes c)" and "counted c' b = counted c b"
proof -
  let ?xs = "map (\<lambda>j. new_call i j (RVArgs (length (ballots c)) a) c) (filter (\<lambda>j. j \<noteq> i) [0..<size_of c])"
  have cl: "calls c' = calls c @ ?xs" using assms by (simp add: electing_def)
  have ng: "\<not> granted x" if "x \<in> set ?xs" for x using that by auto
  have "ballots c' = ballots c @ [\<lparr>b_node = i, b_term = rv_Term a, voteCount = 1, won = False\<rparr>]"
    using assms by (simp add: electing_def)
  from votes_append [OF cl ng this] show "votes c' = insert (i, rv_Term a, i) (votes c)"
    by (simp add: ballot_vote_def)
  show "counted c' b = counted c b" by (rule counted_append [OF cl ng])
qed

lemma electing_fresh:
  assumes "electing i rf' a c c'" and "wf_cluster n c" and "votes_ok c"
  shows "(i, rv_Term a, w) \<notin> votes c"
  using assms(3) electing_node(6) [OF assms(1,2)] unfolding votes_ok_def by (meson leD)

lemma electing_ballots_ok:
  assumes el: "electing i rf' a c c'" and wf: "wf_cluster n c" and vo: "votes_ok c" and bo: "ballots_ok n c"
  shows "ballots_ok n c'"
proof (rule ballots_okI)
  note ball = electing_ballot [OF el]
  have ne: "\<not> (b_node (ballots c ! x) = i \<and> b_term (ballots c ! x) = rv_Term a)" if "x < length (ballots c)" for x
    using electing_fresh [OF el wf vo, of i] voters_of_ballot [OF wf that] by auto
  fix b b' assume b: "b < length (ballots c')" "b' < length (ballots c')"
    "b_node (ballots c' ! b) = b_node (ballots c' ! b')" "b_term (ballots c' ! b) = b_term (ballots c' ! b')"
  have "b < length (ballots c) \<or> b = length (ballots c)" "b' < length (ballots c) \<or> b' = length (ballots c)"
    using b(1,2) ball(3) by linarith+
  then show "b = b'"
    using b(3,4) ball(1) [of b] ball(1) [of b'] ball(2) ne [of b] ne [of b'] ballots_okD(1) [OF bo, of b b']
    by (elim disjE) simp_all
next
  fix k k' b x x' assume k: "k < length (calls c')" "k' < length (calls c')"
    "args (calls c' ! k) = RVArgs b x" "args (calls c' ! k') = RVArgs b x'"
    "callee (calls c' ! k) = callee (calls c' ! k')"
  have old: "b < length (ballots c)" if "m < length (calls c)" "args (calls c ! m) = RVArgs b y" for m y
    using wf_clusterD(5) [OF wf that] by simp
  show "k = k'"
  proof (cases "b < length (ballots c)")
    case True
    have "m < length (calls c) \<and> calls c' ! m = calls c ! m"
      if "m < length (calls c')" "args (calls c' ! m) = RVArgs b y" for m y
      using el that(1) by (cases rule: electing_call) (use that(2) True in \<open>auto simp: new_call_def\<close>)
    from this [OF k(1,3)] this [OF k(2,4)] show ?thesis
      using ballots_okD(2) [OF bo, of k k' b x x'] k(3-5) by simp
  next
    case False
    have "\<exists>l. m = length (calls c) + l \<and> l < length (filter (\<lambda>j. j \<noteq> i) [0..<size_of c]) \<and>
        callee (calls c' ! m) = filter (\<lambda>j. j \<noteq> i) [0..<size_of c] ! l"
      if "m < length (calls c')" "args (calls c' ! m) = RVArgs b y" for m y
      using el that(1)
      by (cases rule: electing_call) (use that(2) False old [of m y] in \<open>auto simp: new_call_def\<close>)
    from this [OF k(1,3)] this [OF k(2,4)] show ?thesis
      using k(5) filter_upt_nth_inj by metis
  qed
next
  fix b assume "b < length (ballots c')"
  then have "b < length (ballots c) \<or> b = length (ballots c)" using electing_ballot(3) [OF el] by linarith
  then show "voteCount (ballots c' ! b) \<le> 1 + card (counted c' b)"
    "won (ballots c' ! b) \<Longrightarrow> n div 2 < voteCount (ballots c' ! b)"
    using ballots_okD(3,4) [OF bo, of b] electing_ballot [OF el] electing_votes(2) [OF el, of b] by auto
qed

lemma inv_elect:
  assumes "election_inv n c" and el: "electing i rf' a c c'"
  shows "election_inv n c'"
proof -
  have wf: "wf_cluster n c" and vo: "votes_ok c" and bo: "ballots_ok n c" and le: "leaders_elected c"
    using assms(1) by (auto simp: election_inv_def)
  note node = electing_node [OF el wf]
  have nd: "nodes c' = (nodes c)[i := rf']" "i < size_of c"
    "ballots c' = ballots c @ [\<lparr>b_node = i, b_term = rv_Term a, voteCount = 1, won = False\<rparr>]"
    using el by (simp_all add: electing_def)
  have "votes_ok c'"
  proof (rule votes_ok_add [OF vo electing_votes(1) [OF el]])
    show "vote_step (nodes c ! u) (nodes c' ! u)" for u using vote_step_update [OF node(1)] nd(1) by simp
  qed (use nd node(4,5) electing_fresh [OF el wf vo] in auto)
  moreover have "leaders_elected c'"
  proof (rule leaders_kept [OF le])
    show "no_rise (nodes c ! v) (nodes c' ! v)" for v using no_rise_update [OF node(2)] nd(1) by simp
    show "elected c' j t" if "elected c j t" for j t using that nd(3) by (auto simp: elected_def)
  qed (use nd(1) in simp)
  moreover have "list_all granted_term (calls c')"
    using assms(1) el by (auto simp: election_inv_def electing_def list_all_iff intro: granted_term_not_granted)
  ultimately show ?thesis
    using electing_wf [OF el wf] electing_ballots_ok [OF el wf vo bo] by (simp add: election_inv_def)
qed

text \<open>
  Handling a call or its reply: one server moves, one call gets a reply or is marked, and the
  ballots keep their servers and terms.
\<close>

definition answering :: "nat \<Rightarrow> nat \<Rightarrow> ('c, 'b) Raft \<Rightarrow> ('c, 'b) call \<Rightarrow> ('c, 'b) cluster \<Rightarrow> ('c, 'b) cluster \<Rightarrow> bool" where
  "answering i k rf' y c c' \<longleftrightarrow> k < length (calls c) \<and> nodes c' = (nodes c)[i := rf'] \<and>
     epochs c' = epochs c \<and> calls c' = (calls c)[k := y] \<and>
     caller y = caller (calls c ! k) \<and> callee y = callee (calls c ! k) \<and> args y = args (calls c ! k) \<and>
     (returned y \<longrightarrow> reply y \<noteq> None) \<and> map b_node (ballots c') = map b_node (ballots c) \<and>
     map b_term (ballots c') = map b_term (ballots c)"

lemma answering_call:
  assumes "answering i k rf' y c c'"
  shows "caller (calls c' ! m) = caller (calls c ! m)" "callee (calls c' ! m) = callee (calls c ! m)"
    "args (calls c' ! m) = args (calls c ! m)" "length (calls c') = length (calls c)"
    "m \<noteq> k \<Longrightarrow> calls c' ! m = calls c ! m" "calls c' ! k = y"
  using assms by (auto simp: answering_def nth_list_update)

lemma answering_ballot:
  assumes "answering i k rf' y c c'"
  shows "length (ballots c') = length (ballots c)"
    "b < length (ballots c) \<Longrightarrow> b_node (ballots c' ! b) = b_node (ballots c ! b)"
    "b < length (ballots c) \<Longrightarrow> b_term (ballots c' ! b) = b_term (ballots c ! b)"
    "ballot_vote ` set (ballots c') = ballot_vote ` set (ballots c)"
proof -
  have m: "map b_node (ballots c') = map b_node (ballots c)" "map b_term (ballots c') = map b_term (ballots c)"
    using assms by (auto simp: answering_def)
  show len: "length (ballots c') = length (ballots c)" using map_eq_imp_length_eq [OF m(1)] .
  show nd: "b_node (ballots c' ! b) = b_node (ballots c ! b)" if "b < length (ballots c)" for b
    using that len arg_cong [OF m(1), of "\<lambda>xs. xs ! b"] by simp
  show tm: "b_term (ballots c' ! b) = b_term (ballots c ! b)" if "b < length (ballots c)" for b
    using that len arg_cong [OF m(2), of "\<lambda>xs. xs ! b"] by simp
  have "map ballot_vote (ballots c') = map ballot_vote (ballots c)"
    by (rule nth_equalityI) (simp_all add: len nd tm ballot_vote_def)
  then show "ballot_vote ` set (ballots c') = ballot_vote ` set (ballots c)" by (metis list.set_map)
qed

lemma answering_wf:
  assumes an: "answering i k rf' y c c'" and wf: "wf_cluster n c"
    and "vote_step (nodes c ! i) rf'" and "durable rf'"
  shows "wf_cluster n c'"
proof (rule wf_clusterI)
  note call = answering_call [OF an]
  show "peers (nodes c' ! v) = n \<and> me (nodes c' ! v) = v \<and> durable (nodes c' ! v)" if "v < n" for v
    using wf_nodes_update [OF wf assms(3,4) that] an by (simp add: answering_def)
  fix m assume "m < length (calls c')"
  then have m: "m < length (calls c)" using call(4) by simp
  have "returned (calls c' ! m) \<longrightarrow> reply (calls c' ! m) \<noteq> None"
    using wf_clusterD(4) [OF wf m] call(5) [of m] call(6) an by (cases "m = k") (auto simp: answering_def)
  then show "caller (calls c' ! m) < n \<and> callee (calls c' ! m) < n \<and>
    caller (calls c' ! m) \<noteq> callee (calls c' ! m) \<and> (returned (calls c' ! m) \<longrightarrow> reply (calls c' ! m) \<noteq> None)"
    using wf_clusterD(4) [OF wf m] call(1,2) [of m] by simp
  show "b < length (ballots c') \<and> b_node (ballots c' ! b) = caller (calls c' ! m) \<and>
    b_term (ballots c' ! b) = rv_Term x \<and> rv_CandidateId x = caller (calls c' ! m)"
    if "args (calls c' ! m) = RVArgs b x" for b x
  proof -
    from that call(3) [of m] have "args (calls c ! m) = RVArgs b x" by simp
    from wf_clusterD(5) [OF wf m this] call(1) [of m] answering_ballot [OF an] show ?thesis by simp
  qed
qed (use wf_clusterD(1,2) [OF wf] an in \<open>simp_all add: answering_def\<close>)

text \<open>The invariants that only look at the senders, receivers and arguments of the calls.\<close>

lemma answering_ballots_ok:
  assumes an: "answering i k rf' y c c'" and bo: "ballots_ok n c"
    and "\<And>b. b < length (ballots c) \<Longrightarrow> voteCount (ballots c' ! b) \<le> 1 + card (counted c' b) \<and>
      (won (ballots c' ! b) \<longrightarrow> n div 2 < voteCount (ballots c' ! b))"
  shows "ballots_ok n c'"
proof (rule ballots_okI)
  note call = answering_call [OF an] and ball = answering_ballot [OF an]
  show "b = b'" if "b < length (ballots c')" "b' < length (ballots c')"
    "b_node (ballots c' ! b) = b_node (ballots c' ! b')" "b_term (ballots c' ! b) = b_term (ballots c' ! b')" for b b'
    using that ballots_okD(1) [OF bo, of b b'] ball by simp
  show "m = m'" if "m < length (calls c')" "m' < length (calls c')" "args (calls c' ! m) = RVArgs b x"
    "args (calls c' ! m') = RVArgs b x'" "callee (calls c' ! m) = callee (calls c' ! m')" for m m' b x x'
    using that ballots_okD(2) [OF bo, of m m' b x x'] call(2-4) by simp
qed (use assms(3) answering_ballot(1) [OF an] in auto)

lemma handle_votes:
  assumes "handle now a rf = Some (rf', r)" and "durable rf"
  shows "vote_step rf rf'" "no_rise rf rf'" "durable rf'"
  using assms by (cases a; auto dest: RequestVote_votes AppendEntries_votes InstallSnapshot_votes)+

text \<open>Handling a call: the only new vote is the one that is granted.\<close>

lemma deliver_votes_ok:
  assumes an: "answering v k rf' y c c'" and wf: "wf_cluster n c" and vo: "votes_ok c"
    and h: "handle now (args (calls c ! k)) (nodes c ! v) = Some (rf', r)"
    and y: "y = (calls c ! k)\<lparr>reply := Some r\<rparr>" and "reply (calls c ! k) = None" and v: "v = callee (calls c ! k)"
  shows "votes_ok c'"
proof -
  have k: "k < length (calls c)" and cl: "calls c' = (calls c)[k := y]" and nd: "nodes c' = (nodes c)[v := rf']"
    using an by (simp_all add: answering_def)
  have vn: "v < size_of c" using wf_clusterD(1,4) [OF wf] k v by auto
  have dur: "durable (nodes c ! v)" using wf_clusterD(1,3) [OF wf] vn by simp
  have step: "vote_step (nodes c ! u) (nodes c' ! u)" for u
    using vote_step_update [OF handle_votes(1) [OF h dur]] nd by simp
  have old: "call_vote (calls c ! k) = None" using assms(6) by (intro call_vote_None) (simp add: granted_def)
  show ?thesis
  proof (cases "call_vote y")
    case None
    have "map call_vote (calls c') = map call_vote (calls c)"
      unfolding cl by (rule map_update_same) (simp add: None old)
    then have "votes c' = votes c" using answering_ballot(4) [OF an] by (simp only: votes_def list.set_map)
    then show ?thesis by (rule votes_ok_kept [OF vo]) (use nd step in auto)
  next
    case (Some p)
    then obtain b a rr where a: "args (calls c ! k) = RVArgs b a" "r = RVReply rr" "rvr_VoteGranted rr"
      "p = (v, rv_Term a, rv_CandidateId a)"
      using y v by (auto simp: call_vote_def granted_def split: rpc_args.splits rpc_reply.splits if_splits)
    with h have "RequestVote now a (nodes c ! v) = Some (rf', rr)" by auto
    note gr = RequestVote_granted [OF this a(3)]
    have "Some z \<in> set (map call_vote (calls c')) \<longleftrightarrow> z = p \<or> Some z \<in> set (map call_vote (calls c))" for z
      using set_update_None [of k "map call_vote (calls c)" z p] old Some k unfolding cl map_update by simp
    then have "votes c' = insert p (votes c)"
      using answering_ballot(4) [OF an] unfolding votes_def list.set_map by auto
    then show ?thesis
    proof (rule votes_ok_add [OF vo, where t = "rv_Term a" and w = "rv_CandidateId a" and v = v, folded a(4)])
      fix w' assume "(v, rv_Term a, w') \<in> votes c"
      from votes_okD(2,3) [OF vo this] gr show "w' = rv_CandidateId a" by auto
    qed (use nd vn step gr in auto)
  qed
qed

lemma deliver_counted:
  assumes an: "answering v k rf' y c c'" and wf: "wf_cluster n c"
    and "y = (calls c ! k)\<lparr>reply := Some r\<rparr>" and "reply (calls c ! k) = None"
  shows "counted c' b = counted c b"
proof -
  have "\<not> returned (calls c ! k)" using wf_clusterD(4) [OF wf, of k] an assms(4) by (auto simp: answering_def)
  then have "\<not> returned (calls c ! k)" "\<not> returned (calls c' ! k)"
    using answering_call(6) [OF an] assms(3) by simp_all
  moreover note answering_call(4) [OF an] answering_call(5) [OF an]
  ultimately show ?thesis unfolding counted_def by (intro Collect_cong) metis
qed

lemma handle_granted_term:
  assumes "handle now (args x) rf = Some (rf', r)"
  shows "granted_term (x\<lparr>reply := Some r\<rparr>)"
  using assms RequestVote_granted [of now _ rf rf']
  by (cases "args x") (auto simp: granted_term_def)

lemma list_all_update: "list_all P xs \<Longrightarrow> P y \<Longrightarrow> list_all P (xs[k := y])"
  using set_update_subset_insert [of xs k y] by (auto simp: list_all_iff)

lemma inv_deliver:
  assumes inv: "election_inv n c" and k: "k < length (calls c)" and rep: "reply (calls c ! k) = None"
    and h: "handle now (args (calls c ! k)) (nodes c ! callee (calls c ! k)) = Some (rf', r)"
    and "nodes c' = (nodes c)[callee (calls c ! k) := rf']" "ballots c' = ballots c" "epochs c' = epochs c"
    and "calls c' = (calls c)[k := (calls c ! k)\<lparr>reply := Some r\<rparr>]"
  shows "election_inv n c'"
proof -
  have wf: "wf_cluster n c" and vo: "votes_ok c" and bo: "ballots_ok n c" and le: "leaders_elected c"
    and gt: "list_all granted_term (calls c)"
    using inv by (auto simp: election_inv_def)
  let ?v = "callee (calls c ! k)" and ?y = "(calls c ! k)\<lparr>reply := Some r\<rparr>"
  have an: "answering ?v k rf' ?y c c'" using assms(2,5-8) by (simp add: answering_def)
  have dur: "durable (nodes c ! ?v)" using wf_clusterD(3,4) [OF wf] k by simp
  note node = handle_votes [OF h dur]
  have "ballots_ok n c'"
    by (rule answering_ballots_ok [OF an bo])
      (use ballots_okD(3,4) [OF bo] deliver_counted [OF an wf refl rep] assms(6) in simp)
  moreover have "leaders_elected c'"
  proof (rule leaders_kept [OF le])
    show "no_rise (nodes c ! v) (nodes c' ! v)" for v using no_rise_update [OF node(2)] assms(5) by simp
  qed (use assms(5,6) in \<open>simp_all add: elected_def\<close>)
  moreover have "list_all granted_term (calls c')"
    unfolding assms(8) by (rule list_all_update [OF gt handle_granted_term [OF h]])
  ultimately show ?thesis
    using answering_wf [OF an wf node(1,3)] deliver_votes_ok [OF an wf vo h refl rep refl]
    by (simp add: election_inv_def)
qed

text \<open>Handling a reply.\<close>

lemma vote_reply_ballot:
  assumes "vote_reply now rr b rf = (rf', b')"
  shows "b_node b' = b_node b" "b_term b' = b_term b" "won b \<Longrightarrow> won b'"
    "voteCount b' = voteCount b \<and> won b' = won b \<or>
     voteCount b' = voteCount b + 1 \<and> rvr_VoteGranted rr \<and> (won b' \<longrightarrow> won b \<or> peers rf div 2 < voteCount b')"
    "no_rise rf rf' \<or> \<not> won b \<and> won b' \<and> rvr_VoteGranted rr \<and> rvr_Term rr = CurrentTerm rf'"
  using assms by (auto simp: vote_reply_def Let_def becomeLeader_def no_rise_def split: if_splits)

text \<open>The reply of a vote changes the ballot it belongs to; the others change no ballot.\<close>

lemma process_cases:
  assumes "process now j a r bs rf = Some (rf', bs')"
  obtains (vote) b x rr where "a = RVArgs b x" "r = RVReply rr" "bs' = bs[b := snd (vote_reply now rr (bs ! b) rf)]"
      "vote_reply now rr (bs ! b) rf = (rf', snd (vote_reply now rr (bs ! b) rf))"
  | (other) "bs' = bs" "rf' = rf \<or> (\<exists>x rr. a = AEArgs x \<and> r = AEReply rr \<and> replicate_entries_reply now j x rr rf = Some rf') \<or>
      (\<exists>x rr. a = ISArgs x \<and> r = ISReply rr \<and> replicate_snapshot_reply now j x rr rf = Some rf')"
      "\<And>b x rr. a = RVArgs b x \<Longrightarrow> r \<noteq> RVReply rr"
  using assms by (cases "(now, j, a, r, bs, rf)" rule: process.cases) (auto split: prod.splits)

lemma process_votes:
  assumes "process now j a r bs rf = Some (rf', bs')" and "durable rf"
  shows "vote_step rf rf'" "durable rf'"
  using assms(1) by (cases rule: process_cases;
    use assms(2) in \<open>auto dest!: vote_reply_votes entries_reply_votes snapshot_reply_votes\<close>)+

lemma return_counted:
  assumes an: "answering i k rf' ((calls c ! k)\<lparr>returned := True\<rparr>) c c'"
  shows "card (counted c b) \<le> card (counted c' b)"
    and "args (calls c ! k) = RVArgs b x \<Longrightarrow> granted (calls c ! k) \<Longrightarrow> \<not> returned (calls c ! k) \<Longrightarrow>
      1 + card (counted c b) \<le> card (counted c' b)"
proof -
  have k: "k < length (calls c)" using an by (simp add: answering_def)
  have gr: "granted (calls c' ! m) = granted (calls c ! m)" for m
    using answering_call(5,6) [OF an] by (cases "m = k") (auto simp: granted_def)
  have rt: "returned (calls c' ! m) \<longleftrightarrow> m = k \<or> returned (calls c ! m)" for m
    using answering_call(5,6) [OF an] by (cases "m = k") auto
  have sub: "counted c b \<subseteq> counted c' b"
    using answering_call(3,4) [OF an] by (auto simp: counted_def gr rt)
  then show "card (counted c b) \<le> card (counted c' b)" by (simp add: card_mono)
  assume *: "args (calls c ! k) = RVArgs b x" "granted (calls c ! k)" "\<not> returned (calls c ! k)"
  then have "insert k (counted c b) \<subseteq> counted c' b" "k \<notin> counted c b"
    using sub answering_call(3,4) [OF an] k by (auto simp: counted_def gr rt)
  then show "1 + card (counted c b) \<le> card (counted c' b)"
    using card_mono [of "counted c' b" "insert k (counted c b)"] by simp
qed

lemma process_ballots:
  assumes "process now j a r bs rf = Some (rf', bs')"
  shows "map b_node bs' = map b_node bs \<and> map b_term bs' = map b_term bs \<and> length bs' = length bs"
  using assms
proof (cases rule: process_cases)
  case (vote b0 x rr)
  note vb = vote_reply_ballot [OF vote(4)]
  have "map b_node bs' = map b_node bs" "map b_term bs' = map b_term bs"
    unfolding vote(3) by (rule map_update_same, simp add: vb)+
  then show ?thesis by (simp add: vote(3))
qed simp

lemma process_won:
  assumes "process now j a r bs rf = Some (rf', bs')" and "won (bs ! b)"
  shows "won (bs' ! b)"
  using assms(1)
proof (cases rule: process_cases)
  case (vote b0 x rr)
  show ?thesis unfolding vote(3)
    using vote_reply_ballot(3) [OF vote(4)] assms(2)
    by (cases "b = b0"; cases "b0 < length bs") (auto simp: list_update_beyond)
qed (use assms(2) in simp)

lemma process_count:
  assumes "process now j a r bs rf = Some (rf', bs')" and "b < length bs"
  shows "voteCount (bs' ! b) = voteCount (bs ! b) \<and> won (bs' ! b) = won (bs ! b) \<or>
      (\<exists>x rr. a = RVArgs b x \<and> r = RVReply rr \<and> voteCount (bs' ! b) = voteCount (bs ! b) + 1 \<and>
        rvr_VoteGranted rr \<and> (won (bs' ! b) \<longrightarrow> won (bs ! b) \<or> peers rf div 2 < voteCount (bs' ! b)))"
  using assms(1)
proof (cases rule: process_cases)
  case (vote b0 x rr)
  show ?thesis unfolding vote(3)
    using vote_reply_ballot(4) [OF vote(4)] vote(1,2) assms(2) by (cases "b = b0") auto
qed simp

text \<open>A server that becomes leader has won a ballot of its term.\<close>

lemma process_leader:
  assumes "process now j a r bs rf = Some (rf', bs')"
  shows "no_rise rf rf' \<or> (\<exists>b x rr. a = RVArgs b x \<and> r = RVReply rr \<and> rvr_VoteGranted rr \<and>
    rvr_Term rr = CurrentTerm rf' \<and> \<not> won (bs ! b) \<and> (b < length bs \<longrightarrow> won (bs' ! b)))"
  using assms
proof (cases rule: process_cases)
  case (vote b x rr)
  with vote_reply_ballot(5) [OF vote(4)] show ?thesis by auto
qed (auto dest: entries_reply_votes snapshot_reply_votes)

lemma return_leaders:
  assumes an: "answering (caller (calls c ! k)) k rf' y c c'" and wf: "wf_cluster n c"
    and le: "leaders_elected c" and gt: "list_all granted_term (calls c)"
    and p: "process now (callee (calls c ! k)) (args (calls c ! k)) r (ballots c)
      (nodes c ! caller (calls c ! k)) = Some (rf', bs)"
    and rep: "reply (calls c ! k) = Some r" and el: "\<And>i t. elected c i t \<Longrightarrow> elected c' i t"
    and bs: "ballots c' = bs"
  shows "leaders_elected c'"
proof -
  let ?v = "caller (calls c ! k)"
  have k: "k < length (calls c)" and nd: "nodes c' = (nodes c)[?v := rf']" using an by (simp_all add: answering_def)
  have vn: "?v < size_of c" using wf_clusterD(1,4) [OF wf] k by auto
  from process_leader [OF p] show ?thesis
  proof
    assume nr: "no_rise (nodes c ! ?v) rf'"
    show ?thesis by (rule leaders_kept [OF le]) (use nd el no_rise_update [OF nr] in auto)
  next
    assume "\<exists>b x rr. args (calls c ! k) = RVArgs b x \<and> r = RVReply rr \<and> rvr_VoteGranted rr \<and>
      rvr_Term rr = CurrentTerm rf' \<and> \<not> won (ballots c ! b) \<and> (b < length (ballots c) \<longrightarrow> won (bs ! b))"
    then obtain b x rr where v: "args (calls c ! k) = RVArgs b x" "r = RVReply rr" "rvr_VoteGranted rr"
      "rvr_Term rr = CurrentTerm rf'" "b < length (ballots c) \<longrightarrow> won (bs ! b)" by blast
    have "rvr_Term rr = rv_Term x" using gt k v rep by (auto simp: list_all_length granted_term_def)
    moreover note b = wf_clusterD(5) [OF wf k v(1)]
    ultimately have "elected c' ?v (CurrentTerm rf')"
      using v(4,5) answering_ballot(1-3) [OF an] bs unfolding elected_def
      by (intro bexI [of _ "ballots c' ! b"]) auto
    then show ?thesis
      using le nd vn el unfolding leaders_elected_def by (auto simp: nth_list_update)
  qed
qed

lemma inv_return:
  assumes inv: "election_inv n c" and k: "k < length (calls c)" and rep: "reply (calls c ! k) = Some r"
    and nr: "\<not> returned (calls c ! k)" and "epochs c' = epochs c"
    and p: "process now (callee (calls c ! k)) (args (calls c ! k)) r (ballots c)
      (nodes c ! caller (calls c ! k)) = Some (rf', bs)"
    and "nodes c' = (nodes c)[caller (calls c ! k) := rf']" "ballots c' = bs"
    and "calls c' = (calls c)[k := (calls c ! k)\<lparr>returned := True\<rparr>]"
  shows "election_inv n c'"
proof -
  have wf: "wf_cluster n c" and vo: "votes_ok c" and bo: "ballots_ok n c" and le: "leaders_elected c"
    and gt: "list_all granted_term (calls c)"
    using inv by (auto simp: election_inv_def)
  let ?v = "caller (calls c ! k)"
  have an: "answering ?v k rf' ((calls c ! k)\<lparr>returned := True\<rparr>) c c'"
    using assms(2,3,5,7-9) process_ballots [OF p] by (simp add: answering_def)
  have vn: "?v < n" and node: "durable (nodes c ! ?v)" "peers (nodes c ! ?v) = n"
    using wf_clusterD(3,4) [OF wf] k by auto
  note step = process_votes [OF p node(1)]
  have el: "elected c' i t" if "elected c i t" for i t
  proof -
    from that obtain b where b: "b < length (ballots c)" "b_node (ballots c ! b) = i" "b_term (ballots c ! b) = t"
      "won (ballots c ! b)" unfolding elected_def by (metis in_set_conv_nth)
    with answering_ballot [OF an] process_won [OF p b(4)] assms(8) show ?thesis
      unfolding elected_def by (metis nth_mem)
  qed
  have "voteCount (ballots c' ! b) \<le> 1 + card (counted c' b) \<and>
      (won (ballots c' ! b) \<longrightarrow> n div 2 < voteCount (ballots c' ! b))" if b: "b < length (ballots c)" for b
    using process_count [OF p b] ballots_okD(3,4) [OF bo b] return_counted [OF an, of b] nr rep
    unfolding assms(8) node(2) by (auto simp: granted_def)
  then have "ballots_ok n c'" by (rule answering_ballots_ok [OF an bo])
  moreover have "map call_vote (calls c') = map call_vote (calls c)"
    unfolding assms(9) by (rule map_update_same) (simp add: call_vote_def granted_def split: rpc_args.split)
  then have "votes c' = votes c"
    using answering_ballot(4) [OF an] by (simp only: votes_def list.set_map)
  then have "votes_ok c'"
    by (rule votes_ok_kept [OF vo]) (use vote_step_update [OF step(1)] assms(7) in simp_all)
  moreover have "leaders_elected c'"
    by (rule return_leaders [OF an wf le gt p rep el assms(8)])
  moreover have "list_all granted_term (calls c')"
    unfolding assms(9) using gt k by (intro list_all_update) (auto simp: list_all_length granted_term_def)
  ultimately show ?thesis using answering_wf [OF an wf step] by (simp add: election_inv_def)
qed

lemma inv_initial: "election_inv n (initial n)"
proof -
  have "wf_cluster n (initial n)" by (rule wf_clusterI) (simp_all add: initial_def)
  moreover have "votes_ok (initial n)" by (rule votes_okI) (simp_all add: initial_def votes_def)
  moreover have "ballots_ok n (initial n)" by (rule ballots_okI) (simp_all add: initial_def)
  moreover have "leaders_elected (initial n)" by (simp add: leaders_elected_def initial_def)
  ultimately show ?thesis by (simp add: election_inv_def initial_def)
qed

lemma inv_step:
  assumes "election_inv n c" and "moves c c'"
  shows "election_inv n c'"
  using assms(2)
proof (cases rule: moves.cases)
  case none
  show ?thesis by (rule inv_quiet [OF assms(1), of _ "[]"])
      (use none assms(1) wf_clusterD(1,3) [of n c] in \<open>auto simp: election_inv_def\<close>)
next
  case (local_move i rf')
  have wf: "wf_cluster n c" using assms(1) by (simp add: election_inv_def)
  have "durable (nodes c ! i)" using wf_clusterD(1,3) [OF wf] local_move(1) by simp
  note st = local_step_votes [OF local_move(2) this]
  show ?thesis
  proof (rule inv_quiet [OF assms(1), of _ "[]"])
    fix v assume "v < n"
    then show "vote_step (nodes c ! v) (nodes c' ! v) \<and> no_rise (nodes c ! v) (nodes c' ! v) \<and> durable (nodes c' ! v)"
      using vote_step_update [of "nodes c" i rf' v] no_rise_update [of "nodes c" i rf' v] st
        wf_nodes_update [OF wf, of i rf' v] local_move(3) by simp
  qed (use local_move in simp_all)
next
  case (send i j a)
  have wf: "wf_cluster n c" using assms(1) by (simp add: election_inv_def)
  show ?thesis by (rule inv_quiet [OF assms(1), of _ "[new_call i j a c]"])
      (use send wf_clusterD(1,3) [OF wf] in \<open>auto simp: new_call_def granted_def\<close>)
next
  case (elect i now rf' a)
  show ?thesis by (rule inv_elect [OF assms(1), of i rf' a]) (use elect in \<open>auto simp: electing_def\<close>)
next
  case (deliver k now rf' r)
  show ?thesis by (rule inv_deliver [OF assms(1) deliver])
next
  case (return k r now rf' bs)
  show ?thesis by (rule inv_return [OF assms(1) return])
qed

lemma reachable_inv: "reachable n c \<Longrightarrow> election_inv n c"
  by (induction rule: reachable.induct) (auto intro: inv_initial inv_step exec_moves)

section \<open>Election safety\<close>

text \<open>
  C2. In every reachable state of a group of peers, whatever messages are lost, delayed or
  reordered and whatever servers crash and restart from their storage: two servers that are
  leaders in the same term are the same server.
\<close>

theorem election_safety:
  assumes "reachable n c" and "i < n" "j < n"
    and "state (nodes c ! i) = leader" "state (nodes c ! j) = leader"
    and "CurrentTerm (nodes c ! i) = CurrentTerm (nodes c ! j)"
  shows "i = j"
proof -
  have inv: "election_inv n c" by (rule reachable_inv [OF assms(1)])
  then have "leaders_elected c" and sz: "size_of c = n" by (auto simp: election_inv_def wf_cluster_def)
  then have "elected c i (CurrentTerm (nodes c ! i))" "elected c j (CurrentTerm (nodes c ! j))"
    using assms(2-5) unfolding leaders_elected_def by auto
  with elected_unique [OF inv] assms(6) show ?thesis by simp
qed

definition election_trace :: "(nat, unit) event list" where
  "election_trace = [Elect 0 0, Deliver 0 0, Return 0 0]"

lemma election_trace_result:
  "map_option (\<lambda>c. map (\<lambda>rf. (state rf, CurrentTerm rf)) (nodes c)) (run election_trace (initial 3)) =
     Some [(leader, 1), (follower, 1), (follower, 0)]"
  by code_simp

theorem election_safety_witness:
  "\<exists>c :: (nat, unit) cluster. reachable 3 c \<and>
     {j. j < 3 \<and> state (nodes c ! j) = leader \<and> CurrentTerm (nodes c ! j) = 1} = {0}"
proof -
  obtain c :: "(nat, unit) cluster" where c: "run election_trace (initial 3) = Some c"
    "map (\<lambda>rf. (state rf, CurrentTerm rf)) (nodes c) = [(leader, 1), (follower, 1), (follower, 0)]"
    using election_trace_result by auto
  have r: "reachable 3 c" by (rule run_reachable [OF reachable_initial c(1)])
  have "nodes c \<noteq> []" using c(2) by auto
  then have z: "state (nodes c ! 0) = leader" "CurrentTerm (nodes c ! 0) = 1"
    using c(2) by (cases "nodes c"; simp)+
  have "0 = j" if "j < 3" "state (nodes c ! j) = leader" "CurrentTerm (nodes c ! j) = 1" for j
    using election_safety [OF r _ that(1) z(1) that(2)] z(2) that(3) by simp
  with r z show ?thesis by (intro exI [of _ c]) auto
qed

end
