(* ===== verification/Raft_Replication.thy ===== *)
theory Raft_Replication
  imports Raft_Node
begin

text \<open>
  What the handlers of \<open>raft.go\<close> do to one peer: none of them panics, the log that a successful
  AppendEntries leaves behind, the hint that a failed one gives, the index that a leader commits,
  and what survives a crash.
\<close>

section \<open>Logs\<close>

text \<open>The entry at a log index; the first one stands for the snapshot.\<close>

definition entryAt :: "('c, 'b) Raft \<Rightarrow> int \<Rightarrow> 'c LogEntry option" where
  "entryAt rf i = slice_at (Log rf) (sliceIndex rf i)"

lemma termAt_entryAt: "termAt rf i = map_option Term (entryAt rf i)"
  by (simp add: termAt_def entryAt_def)

lemma entryAt_Some_iff:
  "entryAt rf i = Some e \<longleftrightarrow> LastIncludedIndex rf \<le> i \<and> i \<le> lastLogIndex rf \<and>
     e = Log rf ! nat (i - LastIncludedIndex rf)"
  by (auto simp: entryAt_def sliceIndex_def lastLogIndex_def slice_at_Some_iff)

lemma entryAt_None_iff:
  "entryAt rf i = None \<longleftrightarrow> i < LastIncludedIndex rf \<or> lastLogIndex rf < i"
  by (auto simp: entryAt_def sliceIndex_def lastLogIndex_def slice_at_def)

lemma termAt_in:
  assumes "LastIncludedIndex rf \<le> i" and "i \<le> lastLogIndex rf"
  obtains t where "termAt rf i = Some t"
  using assms termAt_None_iff [of rf i] by fastforce

text \<open>The loop over the received entries: the first \<open>k\<close> of them are in the log, the log is cut after them.\<close>

lemma ae_scan_spec:
  assumes "LastIncludedIndex rf < j" and "j \<le> lastLogIndex rf + 1"
  shows "\<exists>k. k \<le> length es \<and> j + int k \<le> lastLogIndex rf + 1 \<and>
    (\<forall>m < k. termAt rf (j + int m) = Some (Term (es ! m))) \<and>
    (k < length es \<longrightarrow> termAt rf (j + int k) \<noteq> Some (Term (es ! k))) \<and>
    ae_scan rf j es = Some (if k = length es then Log rf
      else take (nat (j + int k - LastIncludedIndex rf)) (Log rf), drop k es)"
  using assms
proof (induction es arbitrary: j)
  case Nil
  then show ?case by simp
next
  case (Cons e es)
  show ?case
  proof (cases "j \<le> lastLogIndex rf \<and> termAt rf j = Some (Term e)")
    case True
    with Cons.prems obtain k where k: "k \<le> length es" "j + 1 + int k \<le> lastLogIndex rf + 1"
      "\<forall>m < k. termAt rf (j + 1 + int m) = Some (Term (es ! m))"
      "k < length es \<longrightarrow> termAt rf (j + 1 + int k) \<noteq> Some (Term (es ! k))"
      "ae_scan rf (j + 1) es = Some (if k = length es then Log rf
        else take (nat (j + 1 + int k - LastIncludedIndex rf)) (Log rf), drop k es)"
      using Cons.IH [of "j + 1"] by auto
    have "termAt rf (j + int m) = Some (Term ((e # es) ! m))" if "m < Suc k" for m
      using that k(3) True by (cases m) (auto simp: algebra_simps)
    then show ?thesis using True k by (intro exI [of _ "Suc k"]) (auto simp: algebra_simps)
  next
    case False
    have eq: "j - LastIncludedIndex rf = int (length (Log rf))" if "lastLogIndex rf < j"
      using that Cons.prems by (simp add: lastLogIndex_def)
    show ?thesis
    proof (cases "lastLogIndex rf < j")
      case True
      have "termAt rf j = None" using True by (simp add: termAt_None_iff)
      with True eq Cons.prems show ?thesis by (intro exI [of _ 0]) auto
    next
      case notlast: False
      then obtain t where t: "termAt rf j = Some t" using Cons.prems termAt_None_iff [of rf j] by force
      then show ?thesis using False notlast Cons.prems
        by (intro exI [of _ 0]) (auto simp: slice_to_def sliceIndex_def lastLogIndex_def)
    qed
  qed
qed

text \<open>The log after the merge.\<close>

definition merged :: "('c, 'b) Raft \<Rightarrow> int \<Rightarrow> 'c LogEntry list \<Rightarrow> nat \<Rightarrow> 'c LogEntry list" where
  "merged rf p es k = (if k = length es then Log rf
     else take (nat (p + 1 + int k - LastIncludedIndex rf)) (Log rf) @ drop k es)"

lemma ae_accept_log:
  assumes "LastIncludedIndex rf \<le> ae_PrevLogIndex args" and "ae_PrevLogIndex args \<le> lastLogIndex rf"
  shows "\<exists>k rf'. ae_accept args rf = Some rf' \<and> k \<le> length (ae_Entries args) \<and>
    ae_PrevLogIndex args + 1 + int k \<le> lastLogIndex rf + 1 \<and>
    (\<forall>m < k. termAt rf (ae_PrevLogIndex args + 1 + int m) = Some (Term (ae_Entries args ! m))) \<and>
    (k < length (ae_Entries args) \<longrightarrow>
      termAt rf (ae_PrevLogIndex args + 1 + int k) \<noteq> Some (Term (ae_Entries args ! k))) \<and>
    Log rf' = merged rf (ae_PrevLogIndex args) (ae_Entries args) k \<and>
    LastIncludedIndex rf' = LastIncludedIndex rf \<and>
    commitIndex rf' = (if commitIndex rf < ae_LeaderCommit args
      then min (ae_LeaderCommit args) (lastLogIndex rf') else commitIndex rf)"
proof -
  let ?p = "ae_PrevLogIndex args" and ?es = "ae_Entries args"
  from assms ae_scan_spec [of rf "?p + 1" ?es] obtain k where k: "k \<le> length ?es"
    "?p + 1 + int k \<le> lastLogIndex rf + 1"
    "\<forall>m < k. termAt rf (?p + 1 + int m) = Some (Term (?es ! m))"
    "k < length ?es \<longrightarrow> termAt rf (?p + 1 + int k) \<noteq> Some (Term (?es ! k))"
    "ae_scan rf (?p + 1) ?es = Some (if k = length ?es then Log rf
      else take (nat (?p + 1 + int k - LastIncludedIndex rf)) (Log rf), drop k ?es)" by auto
  then show ?thesis
    by (intro exI [of _ k]) (auto simp: ae_accept_def merged_def Let_def lastLogIndex_def)
qed

text \<open>Entries of the merged log: the old ones up to the cut, the received ones behind the previous index.\<close>

lemma merged_entryAt:
  assumes "Log rf' = merged rf p es k" and "LastIncludedIndex rf' = LastIncludedIndex rf"
    and "LastIncludedIndex rf \<le> p" and "k \<le> length es" and "p + 1 + int k \<le> lastLogIndex rf + 1"
  shows "i \<le> p + int k \<Longrightarrow> entryAt rf' i = entryAt rf i"
    and "k < length es \<Longrightarrow> k \<le> m \<Longrightarrow> m < length es \<Longrightarrow> entryAt rf' (p + 1 + int m) = Some (es ! m)"
    and "lastLogIndex rf' = (if k = length es then lastLogIndex rf else p + int (length es))"
proof -
  let ?c = "nat (p + 1 + int k - LastIncludedIndex rf)"
  have c: "?c \<le> length (Log rf)" "int ?c = p + 1 + int k - LastIncludedIndex rf"
    using assms(3,5) by (auto simp: lastLogIndex_def)
  show last: "lastLogIndex rf' = (if k = length es then lastLogIndex rf else p + int (length es))"
    using c assms(1,2,4) by (auto simp: lastLogIndex_def merged_def min_def)
  show "entryAt rf' i = entryAt rf i" if "i \<le> p + int k"
    using that c assms(1,2,3,4)
    by (auto simp: entryAt_def sliceIndex_def slice_at_def merged_def nth_append)
  show "entryAt rf' (p + 1 + int m) = Some (es ! m)" if "k < length es" "k \<le> m" "m < length es"
  proof -
    have "nat (p + 1 + int m - LastIncludedIndex rf) = ?c + (m - k)" using c(2) that(2) by linarith
    then show ?thesis using that c assms(1-3) last
      by (simp add: entryAt_Some_iff merged_def nth_append min_def)
  qed
qed

section \<open>The consistency check\<close>

text \<open>The walk back to the first entry of the conflicting term.\<close>

lemma conflict_scan_spec:
  assumes "k < length log"
  shows "\<exists>r. conflict_scan log t k = Some r \<and> r \<le> k \<and> (\<forall>m. r < m \<and> m \<le> k \<longrightarrow> Term (log ! m) = t) \<and>
    (0 < r \<longrightarrow> Term (log ! r) \<noteq> t)"
  using assms
proof (induction k)
  case 0
  then show ?case by simp
next
  case (Suc k)
  then obtain r where r: "conflict_scan log t k = Some r" "r \<le> k"
    "\<forall>m. r < m \<and> m \<le> k \<longrightarrow> Term (log ! m) = t" "0 < r \<longrightarrow> Term (log ! r) \<noteq> t" by auto
  have at: "slice_at log (int (Suc k)) = Some (log ! Suc k)"
    using Suc.prems by (simp add: slice_at_def nat_add_distrib)
  show ?case
  proof (cases "Term (log ! Suc k) = t")
    case True
    with r at show ?thesis by (intro exI [of _ r]) (auto simp: le_Suc_eq)
  next
    case False
    with at show ?thesis by (intro exI [of _ "Suc k"]) auto
  qed
qed

lemma ae_check_total: "\<exists>x. ae_check args rf = Some x"
proof (cases "LastIncludedIndex rf \<le> ae_PrevLogIndex args \<and> ae_PrevLogIndex args \<le> lastLogIndex rf")
  case True
  then obtain t where t: "termAt rf (ae_PrevLogIndex args) = Some t" using termAt_in by blast
  have "nat (sliceIndex rf (ae_PrevLogIndex args)) < length (Log rf)"
    using True by (auto simp: sliceIndex_def lastLogIndex_def)
  from conflict_scan_spec [OF this, of t] obtain r where
    "conflict_scan (Log rf) t (nat (sliceIndex rf (ae_PrevLogIndex args))) = Some r" by blast
  with True t show ?thesis by (cases "ae_PrevLogTerm args = t") (auto simp: ae_check_def)
qed (auto simp: ae_check_def)

lemma ae_check_True:
  assumes "ae_check args rf = Some (True, x)"
  shows "LastIncludedIndex rf \<le> ae_PrevLogIndex args" "ae_PrevLogIndex args \<le> lastLogIndex rf"
    "termAt rf (ae_PrevLogIndex args) = Some (ae_PrevLogTerm args)"
  using assms by (auto simp: ae_check_def bind_eq_Some_conv split: if_splits)

lemma ae_process_total: "\<exists>rf' r. ae_process args rf = Some (rf', r)"
proof -
  obtain s x y where c: "ae_check args rf = Some (s, x, y)" using ae_check_total by (metis prod_cases3)
  show ?thesis
  proof (cases s)
    case True
    with c ae_check_True [of args rf "(x, y)"] ae_accept_log [of rf args] show ?thesis
      by (auto simp: ae_process_def Let_def)
  qed (simp add: ae_process_def c)
qed

lemma merged_nonempty: "Log rf \<noteq> [] \<Longrightarrow> LastIncludedIndex rf \<le> p \<Longrightarrow> merged rf p es k \<noteq> []"
  by (auto simp: merged_def)

lemma ae_process_nonempty:
  assumes "ae_process args rf = Some (rf', r)" and "Log rf \<noteq> []"
  shows "Log rf' \<noteq> []"
proof (cases "aer_Success r")
  case True
  with assms obtain x where c: "ae_check args rf = Some (True, x)" "ae_accept args rf = Some rf'"
    by (auto simp: ae_process_def bind_eq_Some_conv Let_def split: if_splits)
  from ae_accept_log [OF ae_check_True(1,2) [OF c(1)]] c(2)
  obtain k where "Log rf' = merged rf (ae_PrevLogIndex args) (ae_Entries args) k" by auto
  with merged_nonempty [OF assms(2) ae_check_True(1) [OF c(1)]] show ?thesis by simp
next
  case False
  with assms show ?thesis by (auto simp: ae_process_def bind_eq_Some_conv Let_def split: if_splits)
qed

lemma is_install_total:
  assumes "Log rf \<noteq> []"
  shows "\<exists>rf'. is_install args rf = Some rf' \<and> Log rf' \<noteq> []"
proof -
  have "\<exists>log. is_log args rf = Some log \<and> log \<noteq> []" if lt: "LastIncludedIndex rf < is_LastIncludedIndex args"
  proof (cases "is_LastIncludedIndex args \<le> lastLogIndex rf")
    case True
    then have "nat (is_LastIncludedIndex args - LastIncludedIndex rf) < length (Log rf)"
      using lt by (auto simp: lastLogIndex_def)
    moreover obtain t where "termAt rf (is_LastIncludedIndex args) = Some t"
      using termAt_in [of rf "is_LastIncludedIndex args"] True lt by fastforce
    ultimately show ?thesis using True lt
      by (auto simp: is_log_def slice_from_def sliceIndex_def lastLogIndex_def)
  qed (simp add: is_log_def)
  with assms show ?thesis by (auto simp: is_install_def Let_def)
qed

section \<open>No handler panics\<close>



section \<open>AppendEntries\<close>

lemma AppendEntries_merged:
  assumes "AppendEntries now a rf = Some (rf', r)" and "aer_Success r"
  obtains k where "termAt rf (ae_PrevLogIndex a) = Some (ae_PrevLogTerm a)" "k \<le> length (ae_Entries a)"
    "ae_PrevLogIndex a + 1 + int k \<le> lastLogIndex rf + 1"
    "\<forall>m < k. termAt rf (ae_PrevLogIndex a + 1 + int m) = Some (Term (ae_Entries a ! m))"
    "k < length (ae_Entries a) \<longrightarrow> termAt rf (ae_PrevLogIndex a + 1 + int k) \<noteq> Some (Term (ae_Entries a ! k))"
    "Log rf' = merged rf (ae_PrevLogIndex a) (ae_Entries a) k" "LastIncludedIndex rf' = LastIncludedIndex rf"
proof -
  define rf1 where "rf1 = ae_stepped now (ae_Term a) rf"
  from assms have "ae_process a rf1 = Some (rf', r)" and t: "CurrentTerm rf \<le> ae_Term a"
    by (auto simp: AppendEntries_form rf1_def split: if_splits)
  with assms(2) obtain x where c: "ae_check a rf1 = Some (True, x)" and acc: "ae_accept a rf1 = Some rf'"
    by (auto simp: ae_process_def bind_eq_Some_conv Let_def split: if_splits)
  have same: "Log rf1 = Log rf" "LastIncludedIndex rf1 = LastIncludedIndex rf"
    using ae_stepped_props(5,6) [OF t] by (simp_all add: rf1_def)
  then have eq: "termAt rf1 = termAt rf" "lastLogIndex rf1 = lastLogIndex rf"
    by (simp_all add: fun_eq_iff termAt_def sliceIndex_def lastLogIndex_def)
  note chk = ae_check_True [OF c, unfolded eq same]
  from ae_accept_log [of rf1 a, unfolded eq same, OF chk(1,2)] acc that [OF chk(3)] show ?thesis
    by (auto simp: merged_def same)
qed

lemma AppendEntries_failed:
  assumes "AppendEntries now a rf = Some (rf', r)" and "\<not> aer_Success r"
  shows "Log rf' = Log rf \<and> LastIncludedIndex rf' = LastIncludedIndex rf"
  using assms ae_stepped_props(5,6) [of rf "ae_Term a" now]
  by (auto simp: AppendEntries_form ae_process_def bind_eq_Some_conv Let_def split: if_splits)

text \<open>
  C24. A successful AppendEntries: the log held the leader's entry before the sent ones; afterwards
  it holds the sent entries behind it, by term; what was there up to that point stays. Unless the
  log already held all of them, it now ends with the last one; if it did, nothing is cut, so a
  delayed message cannot remove entries that a later one added.
\<close>

theorem AppendEntries_success:
  fixes rf :: "('c, 'b) Raft"
  assumes "AppendEntries now a rf = Some (rf', r)" and "aer_Success r"
  shows "termAt rf (ae_PrevLogIndex a) = Some (ae_PrevLogTerm a) \<and> LastIncludedIndex rf' = LastIncludedIndex rf \<and>
    (\<forall>i \<le> ae_PrevLogIndex a. entryAt rf' i = entryAt rf i) \<and>
    (\<forall>m < length (ae_Entries a). termAt rf' (ae_PrevLogIndex a + 1 + int m) = Some (Term (ae_Entries a ! m))) \<and>
    (if \<forall>m < length (ae_Entries a). termAt rf (ae_PrevLogIndex a + 1 + int m) = Some (Term (ae_Entries a ! m))
     then Log rf' = Log rf else lastLogIndex rf' = ae_PrevLogIndex a + int (length (ae_Entries a)))"
proof -
  let ?p = "ae_PrevLogIndex a" and ?es = "ae_Entries a"
  obtain k where k: "termAt rf ?p = Some (ae_PrevLogTerm a)" "k \<le> length ?es" "?p + 1 + int k \<le> lastLogIndex rf + 1"
    "\<forall>m < k. termAt rf (?p + 1 + int m) = Some (Term (?es ! m))"
    "k < length ?es \<longrightarrow> termAt rf (?p + 1 + int k) \<noteq> Some (Term (?es ! k))"
    "Log rf' = merged rf ?p ?es k" "LastIncludedIndex rf' = LastIncludedIndex rf"
    using AppendEntries_merged [OF assms] .
  have "LastIncludedIndex rf \<le> ?p" using k(1) by (simp add: termAt_Some_iff)
  note m = merged_entryAt [OF k(6,7) this k(2,3)]
  have "termAt rf' (?p + 1 + int j) = Some (Term (?es ! j))" if "j < length ?es" for j
    using that k(4) m(1) [of "?p + 1 + int j"] m(2) [of j] by (cases "j < k") (auto simp: termAt_entryAt)
  moreover have "k = length ?es \<longleftrightarrow> (\<forall>m < length ?es. termAt rf (?p + 1 + int m) = Some (Term (?es ! m)))"
    using k(2,4,5) by (metis le_neq_implies_less)
  ultimately show ?thesis using k(1,6,7) m(1,3) by (auto simp: merged_def)
qed

definition sample_log :: "(nat, unit) Raft" where
  "sample_log = (Make 3 0 MakePersister 0)\<lparr>CurrentTerm := 2,
     Log := [\<lparr>Term = 0, Command = None\<rparr>, \<lparr>Term = 1, Command = Some 7\<rparr>, \<lparr>Term = 1, Command = Some 8\<rparr>]\<rparr>"

definition sample_args :: "nat AppendEntriesArgs" where
  "sample_args = \<lparr>ae_Term = 2, ae_LeaderId = 1, ae_PrevLogIndex = 1, ae_PrevLogTerm = 1,
     ae_Entries = [\<lparr>Term = 2, Command = Some 9\<rparr>], ae_LeaderCommit = 0\<rparr>"

theorem AppendEntries_success_witness:
  "\<exists>rf' r. AppendEntries 0 sample_args sample_log = Some (rf', r) \<and> aer_Success r \<and>
     termAt rf' (1 + 1 + int 0) = Some 2 \<and> lastLogIndex rf' = 2"
proof -
  have "map_option (aer_Success o snd) (AppendEntries 0 sample_args sample_log) = Some True" by code_simp
  then obtain rf' r where ae: "AppendEntries 0 sample_args sample_log = Some (rf', r)" "aer_Success r" by auto
  have "termAt sample_log (1 + 1 + int 0) = Some 1" by code_simp
  with AppendEntries_success [OF ae] ae show ?thesis by (auto simp: sample_args_def)
qed

text \<open>
  A failed AppendEntries of the current term leaves the log alone, and its hint is right: either
  the follower has no entry at the leader's previous index and the hint is the index next to its
  first or last one, or the entry there has another term and the hint is the first index of the run
  of entries with that term that ends there, or the one behind the follower's snapshot.
\<close>

lemma AppendEntries_conflict_hint:
  fixes rf :: "('c, 'b) Raft"
  assumes "AppendEntries now a rf = Some (rf', r)" and "\<not> aer_Success r" and "CurrentTerm rf \<le> ae_Term a"
  shows "Log rf' = Log rf \<and> LastIncludedIndex rf' = LastIncludedIndex rf \<and>
    (aer_ConflictTerm r = - 1 \<and> termAt rf (ae_PrevLogIndex a) = None \<and>
       aer_ConflictIndex r = (if ae_PrevLogIndex a < LastIncludedIndex rf
         then LastIncludedIndex rf + 1 else lastLogIndex rf + 1) \<or>
     termAt rf (ae_PrevLogIndex a) = Some (aer_ConflictTerm r) \<and> aer_ConflictTerm r \<noteq> ae_PrevLogTerm a \<and>
       LastIncludedIndex rf < aer_ConflictIndex r \<and> aer_ConflictIndex r \<le> ae_PrevLogIndex a + 1 \<and>
       (\<forall>i. aer_ConflictIndex r \<le> i \<and> i \<le> ae_PrevLogIndex a \<longrightarrow> termAt rf i = Some (aer_ConflictTerm r)) \<and>
       (aer_ConflictIndex r = LastIncludedIndex rf + 1 \<or>
        termAt rf (aer_ConflictIndex r - 1) \<noteq> Some (aer_ConflictTerm r)))"
proof -
  let ?p = "ae_PrevLogIndex a"
  define rf1 where "rf1 = ae_stepped now (ae_Term a) rf"
  have same: "Log rf1 = Log rf" "LastIncludedIndex rf1 = LastIncludedIndex rf"
    using ae_stepped_props(5,6) [OF assms(3)] by (simp_all add: rf1_def)
  then have eq: "termAt rf1 = termAt rf" "lastLogIndex rf1 = lastLogIndex rf" "sliceIndex rf1 = sliceIndex rf"
    by (simp_all add: fun_eq_iff termAt_def sliceIndex_def lastLogIndex_def)
  from assms have "ae_process a rf1 = Some (rf', r)" by (auto simp: AppendEntries_form rf1_def split: if_splits)
  with assms(2) have c: "ae_check a rf1 = Some (False, aer_ConflictTerm r, aer_ConflictIndex r)" and "rf' = rf1"
    by (auto simp: ae_process_def bind_eq_Some_conv Let_def split: if_splits)
  show ?thesis
  proof (cases "termAt rf ?p")
    case None
    with c eq same \<open>rf' = rf1\<close> show ?thesis by (auto simp: ae_check_def termAt_None_iff split: if_splits)
  next
    case (Some t)
    then have rng: "LastIncludedIndex rf \<le> ?p" "?p \<le> lastLogIndex rf" by (auto simp: termAt_Some_iff)
    define k where "k = nat (?p - LastIncludedIndex rf)"
    have k: "k < length (Log rf)" "?p = LastIncludedIndex rf + int k"
      using rng by (auto simp: k_def lastLogIndex_def)
    from conflict_scan_spec [OF k(1), of t] obtain q where q: "conflict_scan (Log rf) t k = Some q" "q \<le> k"
      "\<forall>m. q < m \<and> m \<le> k \<longrightarrow> Term (Log rf ! m) = t" "0 < q \<longrightarrow> Term (Log rf ! q) \<noteq> t" by blast
    from c rng q(1) Some have h: "aer_ConflictTerm r = t" "t \<noteq> ae_PrevLogTerm a"
      "aer_ConflictIndex r = LastIncludedIndex rf + int q + 1"
      by (auto simp: ae_check_def eq same sliceIndex_def simp flip: k_def split: if_splits)
    have "termAt rf i = Some t" if "LastIncludedIndex rf + int q + 1 \<le> i" "i \<le> ?p" for i
    proof -
      have "q < nat (i - LastIncludedIndex rf)" "nat (i - LastIncludedIndex rf) \<le> k" using that k(2) by linarith+
      with q(3) that rng show ?thesis by (auto simp: termAt_Some_iff)
    qed
    moreover have "q = 0 \<or> termAt rf (LastIncludedIndex rf + int q) \<noteq> Some t"
      using q(4) by (auto simp: termAt_Some_iff)
    ultimately show ?thesis using h Some k(2) q(2) same \<open>rf' = rf1\<close> by auto
  qed
qed

section \<open>Commitment\<close>

lemma commit_scan_spec:
  assumes "LastIncludedIndex rf \<le> commitIndex rf" and "commitIndex rf + int k \<le> lastLogIndex rf"
  shows "\<exists>x. commit_scan rf k = Some x \<and>
    (\<forall>N. x = Some N \<longrightarrow> commitIndex rf < N \<and> N \<le> commitIndex rf + int k \<and>
       termAt rf N = Some (CurrentTerm rf) \<and> peers rf div 2 < replicas rf N) \<and>
    (\<forall>M. (case x of None \<Rightarrow> commitIndex rf | Some N \<Rightarrow> N) < M \<and> M \<le> commitIndex rf + int k \<and>
       peers rf div 2 < replicas rf M \<longrightarrow>
       (\<exists>i. M \<le> i \<and> i \<le> commitIndex rf + int k \<and> termAt rf i \<noteq> Some (CurrentTerm rf)))"
  using assms(2)
proof (induction k)
  case 0
  then show ?case by auto
next
  case (Suc k)
  let ?N = "commitIndex rf + int (Suc k)"
  obtain t where t: "termAt rf ?N = Some t" using termAt_in [of rf ?N] assms(1) Suc.prems by fastforce
  from Suc obtain x where x: "commit_scan rf k = Some x"
    "\<forall>N. x = Some N \<longrightarrow> commitIndex rf < N \<and> N \<le> commitIndex rf + int k \<and>
       termAt rf N = Some (CurrentTerm rf) \<and> peers rf div 2 < replicas rf N"
    "\<forall>M. (case x of None \<Rightarrow> commitIndex rf | Some N \<Rightarrow> N) < M \<and> M \<le> commitIndex rf + int k \<and>
       peers rf div 2 < replicas rf M \<longrightarrow>
       (\<exists>i. M \<le> i \<and> i \<le> commitIndex rf + int k \<and> termAt rf i \<noteq> Some (CurrentTerm rf))" by auto
  consider "t \<noteq> CurrentTerm rf" | "t = CurrentTerm rf" "peers rf div 2 < replicas rf ?N"
    | "t = CurrentTerm rf" "\<not> peers rf div 2 < replicas rf ?N" by blast
  then show ?case
  proof cases
    case 1
    with t show ?thesis by (intro exI [of _ None]) (auto intro!: exI [of _ ?N])
  next
    case 2
    with t show ?thesis by (intro exI [of _ "Some ?N"]) auto
  next
    case 3
    have "M \<le> commitIndex rf + int k \<or> M = ?N" if "M \<le> ?N" for M using that by auto
    with 3 t x show ?thesis by (intro exI [of _ x]) fastforce
  qed
qed

text \<open>
  C25. A leader's commit index never goes back; when it advances, the new index holds an entry of the
  leader's own term and is matched by a majority; and no higher index is matched by a majority
  unless an entry of an older term follows it. The search never reads outside the log.
\<close>

theorem advanceCommitIndex_correct:
  assumes "LastIncludedIndex rf \<le> commitIndex rf"
  shows "\<exists>rf'. advanceCommitIndex rf = Some rf' \<and> commitIndex rf \<le> commitIndex rf' \<and>
    (commitIndex rf' \<noteq> commitIndex rf \<longrightarrow>
       termAt rf (commitIndex rf') = Some (CurrentTerm rf) \<and> peers rf div 2 < replicas rf (commitIndex rf')) \<and>
    (\<forall>M. commitIndex rf' < M \<and> M \<le> lastLogIndex rf \<and> peers rf div 2 < replicas rf M \<longrightarrow>
       (\<exists>i. M \<le> i \<and> i \<le> lastLogIndex rf \<and> termAt rf i \<noteq> Some (CurrentTerm rf)))"
proof (cases "commitIndex rf \<le> lastLogIndex rf")
  case True
  then have e: "commitIndex rf + int (nat (lastLogIndex rf - commitIndex rf)) = lastLogIndex rf" by simp
  from commit_scan_spec [OF assms, of "nat (lastLogIndex rf - commitIndex rf)", unfolded e]
  obtain x where x: "commit_scan rf (nat (lastLogIndex rf - commitIndex rf)) = Some x"
    "\<forall>N. x = Some N \<longrightarrow> commitIndex rf < N \<and> N \<le> lastLogIndex rf \<and>
       termAt rf N = Some (CurrentTerm rf) \<and> peers rf div 2 < replicas rf N"
    "\<forall>M. (case x of None \<Rightarrow> commitIndex rf | Some N \<Rightarrow> N) < M \<and> M \<le> lastLogIndex rf \<and>
       peers rf div 2 < replicas rf M \<longrightarrow>
       (\<exists>i. M \<le> i \<and> i \<le> lastLogIndex rf \<and> termAt rf i \<noteq> Some (CurrentTerm rf))" by auto
  then show ?thesis by (cases x) (auto simp: advanceCommitIndex_def)
qed (auto simp: advanceCommitIndex_def)

theorem advanceCommitIndex_correct_witness:
  "\<exists>rf'. advanceCommitIndex (sample_log\<lparr>CurrentTerm := 1, matchIndex := [0, 2, 0]\<rparr>) = Some rf' \<and>
     commitIndex rf' = 2 \<and> replicas (sample_log\<lparr>CurrentTerm := 1, matchIndex := [0, 2, 0]\<rparr>) 2 = 2"
proof -
  let ?rf = "sample_log\<lparr>CurrentTerm := 1, matchIndex := [0, 2, 0]\<rparr>"
  have "LastIncludedIndex ?rf \<le> commitIndex ?rf" by code_simp
  from advanceCommitIndex_correct [OF this] obtain rf' where r: "advanceCommitIndex ?rf = Some rf'" by blast
  moreover have "map_option commitIndex (advanceCommitIndex ?rf) = Some 2" by code_simp
  moreover have "replicas ?rf 2 = 2" by code_simp
  ultimately show ?thesis by simp
qed

section \<open>Crashes\<close>

text \<open>
  C23. A crash loses nothing that Raft must remember: after any sequence of critical sections and
  crashes from a first start, a server that is started again from a copy of its storage has the
  term, the vote, the log and the snapshot that the crashed one had, is a follower, and counts as
  committed and applied exactly what its snapshot holds.
\<close>

theorem restart_keeps_state:
  assumes "node_step\<^sup>*\<^sup>* (Make n i MakePersister t0) rf"
    and "rf' = Make n i (Checkpoint (persister rf)) t1"
  shows "persistent_view rf' = persistent_view rf \<and> state rf' = follower \<and>
    commitIndex rf' = LastIncludedIndex rf \<and> lastApplied rf' = LastIncludedIndex rf"
proof -
  from assms(1) have "durable rf" by (induction) (auto dest: node_step_durable)
  then have v: "persistent_view rf' = persistent_view rf" by (simp add: assms(2) durable_def)
  have "commitIndex rf' = LastIncludedIndex rf' \<and> lastApplied rf' = LastIncludedIndex rf'"
    by (simp add: assms(2) Make_def readPersist_def split: option.split)
  with v show ?thesis by (simp add: persistent_view_def assms(2))
qed

theorem restart_keeps_state_witness:
  "\<exists>rf :: (nat, unit) Raft. node_step\<^sup>*\<^sup>* (Make 3 0 MakePersister 0) rf \<and> CurrentTerm rf = 1 \<and> VotedFor rf = 0 \<and>
     CurrentTerm (Make 3 0 (Checkpoint (persister rf)) 5) = 1 \<and> VotedFor (Make 3 0 (Checkpoint (persister rf)) 5) = 0"
proof -
  let ?m = "Make 3 0 MakePersister 0 :: (nat, unit) Raft"
  have "map_option (\<lambda>(rf, a). (CurrentTerm rf, VotedFor rf)) (startElection 0 ?m) = Some (1, 0)" by code_simp
  then obtain rf a where st: "startElection 0 ?m = Some (rf, a)" "CurrentTerm rf = 1" "VotedFor rf = 0" by auto
  from ns_startElection [OF st(1)] have s: "node_step\<^sup>*\<^sup>* ?m rf" by (rule r_into_rtranclp)
  from restart_keeps_state [OF s refl, of 5] st s show ?thesis
    by (intro exI [of _ rf]) (simp add: persistent_view_def)
qed

end
