(* ===== verification/Raft_Log.thy ===== *)
theory Raft_Log
  imports Raft_Election Raft_Replication
begin

text \<open>
  The logs of a cluster. A log, whether a server holds it or a message carries a piece of it, is a
  first index, which stands for everything before, and entries from there on. Any two logs agree
  below an index where their terms agree (log matching), in every reachable state, with snapshots
  at arbitrary indices. The last section runs a schedule on which a delayed reply makes a leader
  commit an entry that no majority holds.
\<close>

section \<open>Pieces of logs\<close>

type_synonym 'c piece = "int \<times> 'c LogEntry list"

definition at :: "'c piece \<Rightarrow> int \<Rightarrow> 'c LogEntry option" where
  "at X i = slice_at (snd X) (i - fst X)"

definition term_at :: "'c piece \<Rightarrow> int \<Rightarrow> int option" where
  "term_at X i = map_option Term (at X i)"

lemma at_None_iff: "at X i = None \<longleftrightarrow> i < fst X \<or> fst X + int (length (snd X)) \<le> i"
  by (auto simp: at_def slice_at_def)

lemma term_at_None_iff: "term_at X i = None \<longleftrightarrow> i < fst X \<or> fst X + int (length (snd X)) \<le> i"
  by (simp add: term_at_def at_None_iff)

lemma term_at_below:
  assumes "term_at X i = Some t" and "fst X \<le> j" and "j \<le> i"
  shows "\<exists>u. term_at X j = Some u"
proof -
  have "\<not> (j < fst X \<or> fst X + int (length (snd X)) \<le> j)"
    using assms term_at_None_iff [of X i] by auto
  then show ?thesis using term_at_None_iff [of X j] by (cases "term_at X j") auto
qed

lemma term_at_fst: "term_at X i = Some t \<Longrightarrow> fst X \<le> i"
  using term_at_None_iff [of X i] by (cases "i < fst X") auto

text \<open>
  Two pieces match: where they have the same term, they have the same terms below, as far as both
  reach, and the same entries behind both first indices.
\<close>

definition match :: "'c piece \<Rightarrow> 'c piece \<Rightarrow> bool" where
  "match X Y \<longleftrightarrow> (\<forall>i t j. term_at X i = Some t \<longrightarrow> term_at Y i = Some t \<longrightarrow> j \<le> i \<longrightarrow> fst X \<le> j \<longrightarrow> fst Y \<le> j \<longrightarrow>
     term_at X j = term_at Y j \<and> (fst X < j \<and> fst Y < j \<longrightarrow> at X j = at Y j))"

lemma matchI:
  assumes "\<And>i t j. term_at X i = Some t \<Longrightarrow> term_at Y i = Some t \<Longrightarrow> j \<le> i \<Longrightarrow> fst X \<le> j \<Longrightarrow> fst Y \<le> j \<Longrightarrow>
     term_at X j = term_at Y j \<and> (fst X < j \<and> fst Y < j \<longrightarrow> at X j = at Y j)"
  shows "match X Y"
  using assms unfolding match_def by blast

lemma matchD:
  assumes "match X Y" and "term_at X i = Some t" and "term_at Y i = Some t"
    and "j \<le> i" "fst X \<le> j" "fst Y \<le> j"
  shows "term_at X j = term_at Y j" "fst X < j \<Longrightarrow> fst Y < j \<Longrightarrow> at X j = at Y j"
  using assms unfolding match_def by blast+

lemma match_refl [simp]: "match X X" by (simp add: match_def)

lemma match_sym: "match X Y \<Longrightarrow> match Y X" unfolding match_def by metis

text \<open>A part of a log from a later index on; its first entry keeps the term only.\<close>

definition part_of :: "'c piece \<Rightarrow> 'c piece \<Rightarrow> bool" where
  "part_of X Y \<longleftrightarrow> fst Y \<le> fst X \<and> (\<forall>i t. term_at X i = Some t \<longrightarrow> term_at Y i = Some t) \<and>
     (\<forall>i e. fst X < i \<longrightarrow> at X i = Some e \<longrightarrow> at Y i = Some e)"

lemma part_ofI:
  assumes "fst Y \<le> fst X" and "\<And>i. fst X \<le> i \<Longrightarrow> term_at X i \<noteq> None \<Longrightarrow> term_at X i = term_at Y i"
    and "\<And>i. fst X < i \<Longrightarrow> at X i \<noteq> None \<Longrightarrow> at X i = at Y i"
  shows "part_of X Y"
  using assms term_at_fst [of X] unfolding part_of_def by (metis option.distinct(1))

lemma part_of_refl [simp]: "part_of X X" by (simp add: part_of_def)

lemma part_ofD:
  assumes "part_of X Y"
  shows "fst Y \<le> fst X" "term_at X i = Some t \<Longrightarrow> term_at Y i = Some t"
    "fst X < i \<Longrightarrow> at X i = Some e \<Longrightarrow> at Y i = Some e"
  using assms by (auto simp: part_of_def)

lemma part_match:
  assumes "part_of X Y" and "match Y Z"
  shows "match X Z"
proof (rule matchI)
  fix i t j assume a: "term_at X i = Some t" "term_at Z i = Some t" "j \<le> i" "fst X \<le> j" "fst Z \<le> j"
  note p = part_ofD [OF assms(1)]
  obtain u where u: "term_at X j = Some u" using term_at_below [OF a(1,4,3)] by blast
  note m = matchD [OF assms(2) p(2) [OF a(1)] a(2,3) _ a(5)]
  have "term_at X j = term_at Z j" using m(1) p(1) p(2) [OF u] u a(4) by simp
  moreover have "at X j = at Z j" if "fst X < j" "fst Z < j"
  proof -
    obtain e where "at X j = Some e" using u by (auto simp: term_at_def)
    with p(3) [OF that(1) this] m(2) that p(1) show ?thesis by simp
  qed
  ultimately show "term_at X j = term_at Z j \<and> (fst X < j \<and> fst Z < j \<longrightarrow> at X j = at Z j)" by blast
qed

text \<open>
  The log of a follower \<open>R\<close> after it has taken over a message \<open>M\<close>: \<open>R\<close> up to \<open>q\<close>, where the
  terms agree from the first index of \<open>M\<close> on, and \<open>M\<close> behind.
\<close>

lemma splice_match:
  assumes "match R Z" and "match M Z" and fX: "fst X = fst R" and "fst M \<le> q"
    and low: "\<And>i. i \<le> q \<Longrightarrow> at X i = at R i" and high: "\<And>i. q < i \<Longrightarrow> at X i = at M i"
    and same: "\<And>i. fst M \<le> i \<Longrightarrow> i \<le> q \<Longrightarrow> term_at R i = term_at M i"
  shows "match X Z"
proof (rule matchI)
  fix i t j assume a: "term_at X i = Some t" "term_at Z i = Some t" "j \<le> i" "fst X \<le> j" "fst Z \<le> j"
  have tl: "term_at X k = term_at R k" if "k \<le> q" for k using low [OF that] by (simp add: term_at_def)
  have th: "term_at X k = term_at M k" if "q < k" for k using high [OF that] by (simp add: term_at_def)
  show "term_at X j = term_at Z j \<and> (fst X < j \<and> fst Z < j \<longrightarrow> at X j = at Z j)"
  proof (cases "i \<le> q")
    case True
    then have "term_at R i = Some t" and "j \<le> q" using a(1,3) tl by auto
    with matchD [OF assms(1) _ a(2,3)] a(4,5) fX tl low show ?thesis by simp
  next
    case False
    then have Mi: "term_at M i = Some t" using a(1) th by simp
    note M = matchD [OF assms(2) Mi a(2)]
    show ?thesis
    proof (cases "q < j")
      case True
      with M [of j] a(3,5) assms(4) th high show ?thesis by auto
    next
      case low_j: False
      let ?k = "max j (fst M)"
      have k: "?k \<le> q" "?k \<le> i" "fst M \<le> ?k" "fst Z \<le> ?k" "fst R \<le> ?k" using low_j False assms(4) a(4,5) fX by auto
      obtain u where "term_at M ?k = Some u" using term_at_below [OF Mi k(3,2)] by blast
      then have "term_at Z ?k = Some u" "term_at R ?k = Some u" using M(1) [of ?k] same [of ?k] k by auto
      from matchD [OF assms(1) this(2,1), of j] low_j a(4,5) fX tl low show ?thesis by auto
    qed
  qed
qed

section \<open>The pieces of a cluster\<close>

definition piece_of :: "('c, 'b) Raft \<Rightarrow> 'c piece" where
  "piece_of rf = (LastIncludedIndex rf, Log rf)"

fun args_piece :: "('c, 'b) rpc_args \<Rightarrow> 'c piece option" where
  "args_piece (RVArgs b a) = None"
| "args_piece (AEArgs a) = Some (ae_PrevLogIndex a, \<lparr>Term = ae_PrevLogTerm a, Command = None\<rparr> # ae_Entries a)"
| "args_piece (ISArgs a) = Some (is_LastIncludedIndex a, [\<lparr>Term = is_LastIncludedTerm a, Command = None\<rparr>])"

definition pieces :: "('c, 'b) cluster \<Rightarrow> 'c piece set" where
  "pieces c = piece_of ` set (nodes c) \<union> {X. Some X \<in> (\<lambda>x. args_piece (args x)) ` set (calls c)}"

definition all_match :: "'c piece set \<Rightarrow> bool" where
  "all_match S \<longleftrightarrow> (\<forall>X \<in> S. \<forall>Y \<in> S. match X Y)"

definition terms_of :: "'c piece set \<Rightarrow> (int \<times> int) set" where
  "terms_of S = {(i, t). \<exists>X \<in> S. term_at X i = Some t}"

text \<open>A piece that may be added to a set without breaking the matching or adding a new term to an index.\<close>

definition fits :: "'c piece set \<Rightarrow> 'c piece \<Rightarrow> bool" where
  "fits S X \<longleftrightarrow> (\<forall>Z \<in> S. match X Z) \<and> (\<forall>i t. term_at X i = Some t \<longrightarrow> (i, t) \<in> terms_of S)"

lemma fits_add:
  assumes "all_match S" and "fits S X" and "S' \<subseteq> insert X S"
  shows "all_match S'" and "terms_of S' \<subseteq> terms_of S"
proof -
  have "match Y Z" if "Y \<in> insert X S" "Z \<in> insert X S" for Y Z
    using that assms(1,2) match_sym unfolding all_match_def fits_def by (metis insertE match_refl)
  then show "all_match S'" using assms(3) unfolding all_match_def by blast
  show "terms_of S' \<subseteq> terms_of S" using assms(2,3) unfolding fits_def terms_of_def by blast
qed

lemma fits_part:
  assumes "part_of X Y" and "Y \<in> S" and "all_match S"
  shows "fits S X"
proof -
  have "match X Z" if "Z \<in> S" for Z
    by (rule part_match [OF assms(1)]) (use assms(2,3) that in \<open>simp add: all_match_def\<close>)
  moreover have "(i, t) \<in> terms_of S" if "term_at X i = Some t" for i t
    using part_ofD(2) [OF assms(1) that] assms(2) by (auto simp: terms_of_def)
  ultimately show ?thesis by (simp add: fits_def)
qed

lemma fits_member: "X \<in> S \<Longrightarrow> all_match S \<Longrightarrow> fits S X"
  by (rule fits_part [OF part_of_refl])

lemma fits_splice:
  assumes "R \<in> S" and "M \<in> S" and "all_match S" and "fst X = fst R" and "fst M \<le> q"
    and "\<And>i. i \<le> q \<Longrightarrow> at X i = at R i" and "\<And>i. q < i \<Longrightarrow> at X i = at M i"
    and "\<And>i. fst M \<le> i \<Longrightarrow> i \<le> q \<Longrightarrow> term_at R i = term_at M i"
  shows "fits S X"
proof -
  have "match X Z" if "Z \<in> S" for Z
    using splice_match [of R Z M X q] assms that unfolding all_match_def by blast
  moreover have "(i, t) \<in> terms_of S" if "term_at X i = Some t" for i t
    using that assms(1,2,6,7) unfolding terms_of_def term_at_def by (cases "i \<le> q") force+
  ultimately show ?thesis unfolding fits_def by blast
qed

section \<open>What a step does to one log\<close>

lemma at_piece_of: "at (piece_of rf) i = entryAt rf i"
  by (simp add: at_def piece_of_def entryAt_def sliceIndex_def)

lemma fst_piece_of [simp]: "fst (piece_of rf) = LastIncludedIndex rf"
  by (simp add: piece_of_def)

lemma term_at_piece_of: "term_at (piece_of rf) i = termAt rf i"
  by (simp add: term_at_def at_piece_of termAt_entryAt)

text \<open>A leader sends parts of its own log.\<close>

lemma send_entries_part:
  assumes "newAppendEntriesArgsFor j rf = Some a" and "args_piece (AEArgs a) = Some X"
  shows "part_of X (piece_of rf)"
proof -
  let ?n = "nextIndex rf ! j"
  obtain t where t: "termAt rf (?n - 1) = Some t" and a: "ae_PrevLogIndex a = ?n - 1" "ae_PrevLogTerm a = t"
    "ae_Entries a = drop (nat (?n - LastIncludedIndex rf)) (Log rf)"
    using assms(1) by (auto simp: newAppendEntriesArgsFor_def bind_eq_Some_conv slice_from_Some_iff sliceIndex_def)
  have rng: "LastIncludedIndex rf \<le> ?n - 1" "?n - 1 \<le> lastLogIndex rf" using t by (auto simp: termAt_Some_iff)
  have X: "X = (?n - 1, \<lparr>Term = t, Command = None\<rparr> # drop (nat (?n - LastIncludedIndex rf)) (Log rf))"
    using assms(2) a by simp
  have high: "at X i = entryAt rf i" if "?n - 1 < i" for i
  proof -
    have *: "nat (i - (?n - 1)) = Suc (nat (i - ?n))" "nat (?n - LastIncludedIndex rf) + nat (i - ?n) = nat (i - LastIncludedIndex rf)"
      using that rng by linarith+
    show ?thesis using that rng *
      by (auto simp: X at_def slice_at_def entryAt_def sliceIndex_def lastLogIndex_def)
  qed
  have "term_at X i = termAt rf i" if "?n - 1 \<le> i" for i
    using that high [of i] t by (cases "i = ?n - 1") (auto simp: term_at_def termAt_entryAt X at_def slice_at_def)
  moreover have "fst X = ?n - 1" by (simp add: X)
  ultimately show ?thesis
    by (intro part_ofI) (use high rng term_at_fst [of X] in \<open>auto simp: term_at_piece_of at_piece_of\<close>)
qed

lemma send_snapshot_part:
  assumes "newInstallSnapshotArgs rf = Some a" and "args_piece (ISArgs a :: ('c, 'b) rpc_args) = Some (X :: 'c piece)"
  shows "part_of X (piece_of (rf :: ('c, 'b) Raft))"
proof -
  obtain t where t: "termAt rf (LastIncludedIndex rf) = Some t" "is_LastIncludedIndex a = LastIncludedIndex rf"
    "is_LastIncludedTerm a = t"
    using assms(1) by (auto simp: newInstallSnapshotArgs_def bind_eq_Some_conv)
  have X: "X = (LastIncludedIndex rf, [\<lparr>Term = t, Command = None\<rparr>])" using assms(2) t by simp
  have "term_at X i = Some u \<Longrightarrow> i = LastIncludedIndex rf \<and> u = t" for i u
    by (auto simp: X term_at_def at_def slice_at_def split: if_splits)
  moreover have "at X i = None" if "fst X < i" for i using that by (simp add: X at_def slice_at_def)
  ultimately show ?thesis using t(1)
    by (auto simp: part_of_def term_at_piece_of X piece_of_def) (auto simp: term_at_piece_of [unfolded piece_of_def])
qed

lemma send_part:
  assumes "(\<exists>x. a = AEArgs x \<and> replicate_send j rf = Some (CallAppendEntries x)) \<or>
    (\<exists>x. a = ISArgs x \<and> replicate_send j rf = Some (CallInstallSnapshot x))"
    and "args_piece a = Some X"
  shows "part_of X (piece_of rf) \<and> state rf = leader"
  using assms send_entries_part [of j rf _ X] send_snapshot_part [of rf _ X]
  by (auto simp: replicate_send_def simp del: args_piece.simps split: if_splits)

text \<open>Taking a snapshot keeps the part behind it.\<close>

lemma drop_part:
  assumes "0 \<le> k" and "k \<le> int (length l)"
  shows "part_of (b + k, drop (nat k) l) (b, l)"
proof -
  have "at (b + k, drop (nat k) l) i = at (b, l) i" if "b + k \<le> i" for i
    using that assms by (auto simp: at_def slice_at_def nat_add_distrib [symmetric] simp flip: nat_diff_distrib)
  then show ?thesis using assms(1) by (intro part_ofI) (simp_all add: term_at_def)
qed

lemma Snapshot_part:
  assumes "Snapshot index d rf = Some rf'"
  shows "part_of (piece_of rf') (piece_of rf)" "lastLogIndex rf' = lastLogIndex rf"
  using assms drop_part [of "index - LastIncludedIndex rf" "Log rf" "LastIncludedIndex rf"]
  by (auto simp: Snapshot_def bind_eq_Some_conv slice_from_Some_iff sliceIndex_def piece_of_def lastLogIndex_def
      split: if_splits)

text \<open>AppendEntries splices the message into the log.\<close>

lemma message_at:
  assumes "args_piece (AEArgs a) = Some M"
  shows "fst M = ae_PrevLogIndex a" "term_at M (ae_PrevLogIndex a) = Some (ae_PrevLogTerm a)"
    "at M (ae_PrevLogIndex a + 1 + int m) = (if m < length (ae_Entries a) then Some (ae_Entries a ! m) else None)"
  using assms by (auto simp: term_at_def at_def slice_at_def nat_add_distrib)

lemma AppendEntries_fits:
  assumes ae: "AppendEntries now a rf = Some (rf', r)"
    and S: "piece_of rf \<in> S" "args_piece (AEArgs a) = Some M" "M \<in> S" "all_match S"
  shows "fits S (piece_of rf')"
proof (cases "aer_Success r")
  case True
  let ?p = "ae_PrevLogIndex a" and ?es = "ae_Entries a"
  obtain k where k: "termAt rf ?p = Some (ae_PrevLogTerm a)" "k \<le> length ?es" "?p + 1 + int k \<le> lastLogIndex rf + 1"
    "\<forall>m < k. termAt rf (?p + 1 + int m) = Some (Term (?es ! m))"
    "Log rf' = merged rf ?p ?es k" "LastIncludedIndex rf' = LastIncludedIndex rf"
    using AppendEntries_merged [OF ae True] .
  have "LastIncludedIndex rf \<le> ?p" using k(1) by (simp add: termAt_Some_iff)
  note m = merged_entryAt [OF k(5,6) this k(2,3)] and M = message_at [OF S(2)]
  have idx: "\<exists>m. i = ?p + 1 + int m" if "?p < i" for i
    by (rule exI [of _ "nat (i - ?p - 1)"]) (use that in simp)
  consider "k = length ?es" | (cut) "k < length ?es" using k(2) by linarith
  then show ?thesis
  proof cases
    case 1
    then have "piece_of rf' = piece_of rf" using k(5,6) by (simp add: piece_of_def merged_def)
    with S fits_member show ?thesis by metis
  next
    case cut
    show ?thesis
    proof (rule fits_splice [OF S(1,3,4), where q = "?p + int k"])
      show "at (piece_of rf') i = at (piece_of rf) i" if "i \<le> ?p + int k" for i
        using m(1) [OF that] by (simp add: at_piece_of)
      show "at (piece_of rf') i = at M i" if "?p + int k < i" for i
      proof -
        have "?p < i" using that by linarith
        then obtain j where j: "i = ?p + 1 + int j" using idx by blast
        with m(2) [OF cut, of j] m(3) M(3) [of j] that cut show ?thesis
          by (cases "j < length ?es") (auto simp: at_piece_of entryAt_None_iff)
      qed
      show "term_at (piece_of rf) i = term_at M i" if "fst M \<le> i" "i \<le> ?p + int k" for i
      proof (cases "i = ?p")
        case False
        with that M(1) obtain j where j: "i = ?p + 1 + int j" using idx [of i] by auto
        with k(4) M(3) [of j] that cut show ?thesis by (simp add: term_at_piece_of) (simp add: term_at_def)
      qed (use k(1) M(2) in \<open>simp add: term_at_piece_of\<close>)
    qed (use k(6) M(1) in auto)
  qed
next
  case False
  then have "piece_of rf' = piece_of rf" using AppendEntries_failed [OF ae] by (simp add: piece_of_def)
  with S fits_member show ?thesis by metis
qed

text \<open>InstallSnapshot keeps the part behind the snapshot or takes the message over.\<close>

lemma InstallSnapshot_fits:
  assumes "InstallSnapshot now a rf = Some (rf', r)"
    and S: "piece_of rf \<in> S" "args_piece (ISArgs a :: ('c, 'b) rpc_args) = Some M" "M \<in> S" "all_match S"
  shows "fits S (piece_of (rf' :: ('c, 'b) Raft))"
proof (cases "is_Term a < CurrentTerm rf")
  case True
  then have "rf' = rf" using assms(1) by (auto simp: InstallSnapshot_form)
  with S fits_member show ?thesis by metis
next
  case False
  let ?rf = "is_stepped now (is_Term a) rf"
  have same: "Log ?rf = Log rf" "LastIncludedIndex ?rf = LastIncludedIndex rf"
    using False is_stepped_props(5,6) [of rf "is_Term a" now] by auto
  from False assms(1) have i: "is_install a ?rf = Some rf'" by (auto simp: InstallSnapshot_form)
  show ?thesis
  proof (cases "LastIncludedIndex rf < is_LastIncludedIndex a")
    case True
    with i obtain log where log: "is_log a ?rf = Some log" "piece_of rf' = (is_LastIncludedIndex a, log)"
      by (auto simp: is_install_def bind_eq_Some_conv Let_def same piece_of_def split: if_splits)
    show ?thesis
    proof (cases "log = [\<lparr>Term = is_LastIncludedTerm a, Command = None\<rparr>]")
      case True
      with log S show ?thesis by (auto intro: fits_member)
    next
      case False
      with log(1) have "slice_from (Log rf) (is_LastIncludedIndex a - LastIncludedIndex rf) = Some log"
        by (auto simp: is_log_def bind_eq_Some_conv same sliceIndex_def split: if_splits)
      with drop_part [of "is_LastIncludedIndex a - LastIncludedIndex rf" "Log rf" "LastIncludedIndex rf"]
      have "part_of (piece_of rf') (piece_of rf)" by (simp add: slice_from_Some_iff log(2)) (simp add: piece_of_def)
      then show ?thesis by (rule fits_part [OF _ S(1,4)])
    qed
  next
    case False
    with i same have "piece_of rf' = piece_of rf" by (auto simp: is_install_def piece_of_def)
    with S fits_member show ?thesis by metis
  qed
qed

lemma local_step_log:
  assumes "local_step rf rf'" and "durable rf"
  shows "part_of (piece_of rf') (piece_of rf) \<and> (state rf' = leader \<longrightarrow> lastLogIndex rf' = lastLogIndex rf) \<or>
    (\<exists>x. state rf = leader \<and> quiet rf rf' \<and> LastIncludedIndex rf' = LastIncludedIndex rf \<and>
      Log rf' = Log rf @ [\<lparr>Term = CurrentTerm rf, Command = Some x\<rparr>])"
proof -
  have keep: ?thesis if "Log rf' = Log rf \<and> LastIncludedIndex rf' = LastIncludedIndex rf"
    using that by (simp add: piece_of_def lastLogIndex_def)
  from assms(1) show ?thesis
  proof (cases rule: local_step.cases)
    case (ls_Start x)
    then show ?thesis
      by (cases "state rf = leader") (auto simp: Start_def Let_def quiet_def)
  next
    case (ls_Snapshot index d)
    with Snapshot_part show ?thesis by blast
  next
    case (ls_crash now)
    with crash_view [OF assms(2), of now] keep show ?thesis by (simp add: persistent_view_def)
  next
    case (ls_apply m)
    show ?thesis by (rule keep) (use applier_votes(1) [OF ls_apply] in blast)
  next
    case (ls_applied m)
    show ?thesis by (rule keep) (simp add: ls_applied applier_votes(2))
  next
    case ls_dispatch
    show ?thesis by (rule keep) (simp add: ls_dispatch dispatch_votes(1))
  next
    case (ls_worker j)
    show ?thesis by (rule keep) (simp add: ls_worker dispatch_votes(2))
  qed
qed

section \<open>The invariant\<close>

definition sender_elected :: "('c, 'b) cluster \<Rightarrow> ('c, 'b) call \<Rightarrow> bool" where
  "sender_elected c x \<longleftrightarrow> (case args x of RVArgs b a \<Rightarrow> True
     | AEArgs a \<Rightarrow> elected c (caller x) (ae_Term a) | ISArgs a \<Rightarrow> elected c (caller x) (is_Term a))"

definition terms_elected :: "('c, 'b) cluster \<Rightarrow> bool" where
  "terms_elected c \<longleftrightarrow> (\<forall>i t. (i, t) \<in> terms_of (pieces c) \<longrightarrow> t = 0 \<or> (\<exists>k. elected c k t))"

text \<open>No log anywhere has an entry of a leader's term beyond the leader's own log.\<close>

definition leaders_ahead :: "('c, 'b) cluster \<Rightarrow> bool" where
  "leaders_ahead c \<longleftrightarrow> (\<forall>v < size_of c. state (nodes c ! v) = leader \<longrightarrow>
     (\<forall>i. (i, CurrentTerm (nodes c ! v)) \<in> terms_of (pieces c) \<longrightarrow> i \<le> lastLogIndex (nodes c ! v)))"

definition terms_pos :: "('c, 'b) cluster \<Rightarrow> bool" where
  "terms_pos c \<longleftrightarrow> (\<forall>v < size_of c. 0 \<le> CurrentTerm (nodes c ! v)) \<and> (\<forall>b \<in> set (ballots c). 1 \<le> b_term b)"

definition log_inv :: "nat \<Rightarrow> ('c, 'b) cluster \<Rightarrow> bool" where
  "log_inv n c \<longleftrightarrow> election_inv n c \<and> all_match (pieces c) \<and> terms_elected c \<and> leaders_ahead c \<and>
     list_all (sender_elected c) (calls c) \<and> terms_pos c"

lemma elected_pos: "terms_pos c \<Longrightarrow> elected c k t \<Longrightarrow> 1 \<le> t"
  by (auto simp: terms_pos_def elected_def)

lemma pieces_update:
  assumes "nodes c' = (nodes c)[i := rf']" and "map args (calls c') = map args (calls c)"
  shows "pieces c' \<subseteq> insert (piece_of rf') (pieces c)"
proof -
  have "(\<lambda>x. args_piece (args x)) ` set (calls c') = args_piece ` set (map args (calls c'))" by (simp add: image_image)
  also have "\<dots> = (\<lambda>x. args_piece (args x)) ` set (calls c)" unfolding assms(2) by (simp add: image_image)
  finally show ?thesis using set_update_subset_insert [of "nodes c" i rf'] assms(1) by (auto simp: pieces_def)
qed

lemma pieces_append:
  assumes "nodes c' = nodes c" and "calls c' = calls c @ [x]" and "args_piece (args x) = Some X"
  shows "pieces c' \<subseteq> insert X (pieces c)"
  using assms by (auto simp: pieces_def)

lemma node_piece: "i < size_of c \<Longrightarrow> piece_of (nodes c ! i) \<in> pieces c"
  by (simp add: pieces_def)

lemma call_piece: "k < length (calls c) \<Longrightarrow> args_piece (args (calls c ! k)) = Some X \<Longrightarrow> X \<in> pieces c"
  unfolding pieces_def by (force simp: image_iff in_set_conv_nth)

text \<open>Elections are never undone.\<close>

lemma moves_elected:
  assumes "moves c c'" and "elected c k t"
  shows "elected c' k t"
  using assms(1)
proof (cases rule: moves.cases)
  case (return m r now rf' bs)
  note pb = process_ballots [OF return(5)]
  from assms(2) obtain b where b: "b < length (ballots c)" "b_node (ballots c ! b) = k" "b_term (ballots c ! b) = t"
    "won (ballots c ! b)" unfolding elected_def by (metis in_set_conv_nth)
  have "b_node (bs ! b) = k" "b_term (bs ! b) = t"
    using b(1-3) pb by (metis nth_map)+
  with process_won [OF return(5) b(4)] b(1) pb return(7) show ?thesis
    unfolding elected_def by (metis nth_mem)
qed (use assms(2) in \<open>auto simp: elected_def\<close>)

lemma moves_vote_step:
  assumes "moves c c'" and "wf_cluster n c"
  shows "vote_step (nodes c ! v) (nodes c' ! v)" and "size_of c' = size_of c"
proof -
  have dur: "durable (nodes c ! i)" if "i < size_of c" for i
    using wf_clusterD(1,3) [OF assms(2)] that by simp
  have call: "callee (calls c ! k) < size_of c" "caller (calls c ! k) < size_of c" if "k < length (calls c)" for k
    using wf_clusterD(1,4) [OF assms(2)] that by auto
  from assms(1) show "vote_step (nodes c ! v) (nodes c' ! v)"
  proof (cases rule: moves.cases)
    case (local_move i rf')
    with local_step_votes [OF _ dur] show ?thesis by (auto intro: vote_step_update)
  next
    case (elect i now rf' a)
    with startElection_votes [OF elect(2)] show ?thesis by (auto intro: vote_step_update)
  next
    case (deliver k now rf' r)
    with handle_votes(1) [OF deliver(3) dur] call show ?thesis by (auto intro: vote_step_update)
  next
    case (return k r now rf' bs)
    with process_votes(1) [OF return(5) dur] call show ?thesis by (auto intro: vote_step_update)
  qed simp_all
  from assms(1) show "size_of c' = size_of c" by (cases rule: moves.cases) simp_all
qed

lemma moves_terms_pos:
  assumes "moves c c'" and "wf_cluster n c" and "terms_pos c"
  shows "terms_pos c'"
proof -
  note vs = moves_vote_step [OF assms(1,2)]
  have "0 \<le> CurrentTerm (nodes c' ! v)" if "v < size_of c'" for v
    using that vs(1) [of v] vs(2) assms(3) by (force simp: terms_pos_def vote_step_def)
  moreover have "1 \<le> t" if "t \<in> set (map b_term (ballots c'))" for t
    using assms(1)
  proof (cases rule: moves.cases)
    case (elect i now rf' a)
    with that assms(3) startElection_votes [OF elect(2)] show ?thesis by (auto simp: terms_pos_def)
  next
    case (return k r now rf' bs)
    then have "map b_term (ballots c') = map b_term (ballots c)" using process_ballots [OF return(5)] by simp
    with that assms(3) show ?thesis by (auto simp: terms_pos_def)
  qed (use that assms(3) in \<open>auto simp: terms_pos_def\<close>)
  ultimately show ?thesis by (auto simp: terms_pos_def)
qed

text \<open>
  A step that adds no new term to an index keeps the invariant, if a server that is leader after it
  was leader before, with a log that is no longer than now, or is the first leader of its term.
\<close>

lemma log_inv_step:
  assumes inv: "log_inv n c" and mv: "moves c c'" and "election_inv n c'"
    and "all_match (pieces c')" and sub: "terms_of (pieces c') \<subseteq> terms_of (pieces c)"
    and "list_all (sender_elected c') (calls c')"
    and lead: "\<And>v. v < n \<Longrightarrow> state (nodes c' ! v) = leader \<Longrightarrow>
      state (nodes c ! v) = leader \<and> CurrentTerm (nodes c' ! v) = CurrentTerm (nodes c ! v) \<and>
        lastLogIndex (nodes c ! v) \<le> lastLogIndex (nodes c' ! v) \<or>
      1 \<le> CurrentTerm (nodes c' ! v) \<and> (\<forall>k. \<not> elected c k (CurrentTerm (nodes c' ! v)))"
  shows "log_inv n c'"
proof -
  have wf: "wf_cluster n c" and te: "terms_elected c" and la: "leaders_ahead c" and tp: "terms_pos c"
    using inv by (auto simp: log_inv_def election_inv_def)
  have sz: "size_of c = n" "size_of c' = n" using moves_vote_step(2) [OF mv wf] wf_clusterD(1) [OF wf] by auto
  have "terms_elected c'" unfolding terms_elected_def
  proof (intro allI impI)
    fix i t assume "(i, t) \<in> terms_of (pieces c')"
    with sub te have "t = 0 \<or> (\<exists>k. elected c k t)" by (auto simp: terms_elected_def)
    with moves_elected [OF mv] show "t = 0 \<or> (\<exists>k. elected c' k t)" by blast
  qed
  moreover have "leaders_ahead c'" unfolding leaders_ahead_def
  proof (intro allI impI)
    fix v i assume v: "v < size_of c'" "state (nodes c' ! v) = leader" "(i, CurrentTerm (nodes c' ! v)) \<in> terms_of (pieces c')"
    then have "(i, CurrentTerm (nodes c' ! v)) \<in> terms_of (pieces c)" using sub by blast
    with lead [of v] v(1,2) sz la te show "i \<le> lastLogIndex (nodes c' ! v)"
      unfolding leaders_ahead_def terms_elected_def by force
  qed
  ultimately show ?thesis using assms(3,4,6) moves_terms_pos [OF mv wf tp] by (simp add: log_inv_def)
qed

lemma senders_kept:
  assumes "moves c c'" and "list_all (sender_elected c) (calls c)"
    and "\<And>x. x \<in> set (calls c') \<Longrightarrow> (\<exists>y \<in> set (calls c). args y = args x \<and> caller y = caller x) \<or> sender_elected c x"
  shows "list_all (sender_elected c') (calls c')"
  unfolding list_all_iff
proof
  fix x assume "x \<in> set (calls c')"
  from assms(3) [OF this] have "sender_elected c x"
  proof
    assume "\<exists>y \<in> set (calls c). args y = args x \<and> caller y = caller x"
    then obtain y where y: "y \<in> set (calls c)" "args y = args x" "caller y = caller x" by blast
    then have "sender_elected c y" using assms(2) by (simp add: list_all_iff)
    with y show ?thesis by (simp add: sender_elected_def split: rpc_args.splits)
  qed
  with moves_elected [OF assms(1)] show "sender_elected c' x"
    by (auto simp: sender_elected_def split: rpc_args.splits)
qed

lemma no_rise_leader:
  assumes "no_rise rf rf'" and "state rf' = leader"
  shows "state rf = leader" "CurrentTerm rf' = CurrentTerm rf"
  using assms by (auto simp: no_rise_def)

text \<open>A leader appends a command: the index is new and no other log has its term there.\<close>

lemma Start_match:
  assumes "match (piece_of rf) Z" and "Log rf' = Log rf @ [e]" "LastIncludedIndex rf' = LastIncludedIndex rf"
    and "\<And>i. term_at Z i = Some (Term e) \<Longrightarrow> i \<le> lastLogIndex rf"
  shows "match (piece_of rf') Z"
proof (rule matchI)
  have last: "lastLogIndex rf' = lastLogIndex rf + 1" using assms(2,3) by (simp add: lastLogIndex_def)
  have old: "at (piece_of rf') i = at (piece_of rf) i" if "i \<le> lastLogIndex rf" for i
    using that assms(2,3) by (auto simp: at_def piece_of_def slice_at_def lastLogIndex_def nth_append)
  have new: "i \<le> lastLogIndex rf \<or> t = Term e" if "term_at (piece_of rf') i = Some t" for i t
  proof (cases "i = lastLogIndex rf + 1")
    case True
    with that assms(2,3) show ?thesis
      by (auto simp: term_at_def at_def piece_of_def slice_at_def lastLogIndex_def split: if_splits)
  next
    case False
    with that last show ?thesis by (auto simp: term_at_piece_of termAt_Some_iff)
  qed
  fix i t j assume a: "term_at (piece_of rf') i = Some t" "term_at Z i = Some t" "j \<le> i"
    "fst (piece_of rf') \<le> j" "fst Z \<le> j"
  have "i \<le> lastLogIndex rf" using new [OF a(1)] assms(4) [of i] a(2) by auto
  with old a(1,3) have "term_at (piece_of rf) i = Some t" "at (piece_of rf') j = at (piece_of rf) j"
    by (simp_all add: term_at_def)
  with matchD [OF assms(1) _ a(2,3)] a(4,5) assms(3)
  show "term_at (piece_of rf') j = term_at Z j \<and>
      (fst (piece_of rf') < j \<and> fst Z < j \<longrightarrow> at (piece_of rf') j = at Z j)"
    by (simp add: term_at_def)
qed

lemma Start_term:
  assumes "Log rf' = Log rf @ [e]" "LastIncludedIndex rf' = LastIncludedIndex rf" and "termAt rf' i = Some t"
  shows "termAt rf i = Some t \<or> i = lastLogIndex rf + 1 \<and> t = Term e"
  using assms by (auto simp: termAt_def sliceIndex_def lastLogIndex_def slice_at_def nth_append split: if_splits)

lemma Start_terms:
  assumes "Log rf' = Log rf @ [e]" "LastIncludedIndex rf' = LastIncludedIndex rf" and "piece_of rf \<in> S"
    and "S' \<subseteq> insert (piece_of rf') S"
  shows "terms_of S' \<subseteq> insert (lastLogIndex rf + 1, Term e) (terms_of S)"
proof
  fix p assume "p \<in> terms_of S'"
  then obtain X where X: "X \<in> S'" "term_at X (fst p) = Some (snd p)" by (auto simp: terms_of_def)
  then have "X \<in> S \<or> X = piece_of rf'" using assms(4) by blast
  then show "p \<in> insert (lastLogIndex rf + 1, Term e) (terms_of S)"
  proof
    assume "X = piece_of rf'"
    with X(2) have "termAt rf' (fst p) = Some (snd p)" by (simp add: term_at_piece_of)
    from Start_term [OF assms(1,2) this] show ?thesis
    proof
      assume "termAt rf (fst p) = Some (snd p)"
      with assms(3) show ?thesis by (auto simp: terms_of_def case_prod_beta term_at_piece_of intro!: bexI [of _ "piece_of rf"])
    qed (simp add: prod_eq_iff)
  qed (use X(2) in \<open>auto simp: terms_of_def case_prod_beta\<close>)
qed

lemma log_inv_Start:
  assumes inv: "log_inv n c" and mv: "moves c c'" and "election_inv n c'" and i: "i < size_of c"
    and nd: "nodes c' = (nodes c)[i := rf']" and cl: "calls c' = calls c"
    and st: "state (nodes c ! i) = leader" "quiet (nodes c ! i) rf'"
    and log: "LastIncludedIndex rf' = LastIncludedIndex (nodes c ! i)"
      "Log rf' = Log (nodes c ! i) @ [\<lparr>Term = CurrentTerm (nodes c ! i), Command = Some x\<rparr>]"
  shows "log_inv n c'"
proof -
  let ?rf = "nodes c ! i" and ?T = "CurrentTerm (nodes c ! i)"
  have ei: "election_inv n c" and am: "all_match (pieces c)" and te: "terms_elected c" and la: "leaders_ahead c"
    and se: "list_all (sender_elected c) (calls c)" and tp: "terms_pos c"
    using inv by (auto simp: log_inv_def)
  have wf: "wf_cluster n c" and el: "elected c i ?T"
    using ei i st(1) by (auto simp: election_inv_def leaders_elected_def)
  have P: "pieces c' \<subseteq> insert (piece_of rf') (pieces c)" using pieces_update [OF nd] cl by simp
  have "match (piece_of rf') Z" if "Z \<in> pieces c" for Z
  proof (rule Start_match [OF _ log(2,1)])
    show "match (piece_of ?rf) Z" using am that node_piece [OF i] by (simp add: all_match_def)
    show "j \<le> lastLogIndex ?rf" if "term_at Z j = Some (Term \<lparr>Term = ?T, Command = Some x\<rparr>)" for j
      using la i st(1) that \<open>Z \<in> pieces c\<close> unfolding leaders_ahead_def terms_of_def by auto
  qed
  then have am': "all_match (pieces c')"
    using am P match_sym unfolding all_match_def by (metis (no_types, lifting) insertE match_refl subset_iff)
  have T: "(j, t) \<in> terms_of (pieces c) \<or> j = lastLogIndex ?rf + 1 \<and> t = ?T" if "(j, t) \<in> terms_of (pieces c')" for j t
    using that Start_terms [OF log(2,1) node_piece [OF i] P] by auto
  have "terms_elected c'"
    using te T moves_elected [OF mv] el unfolding terms_elected_def by blast
  moreover have "leaders_ahead c'" unfolding leaders_ahead_def
  proof (intro allI impI)
    fix v j assume v: "v < size_of c'" "state (nodes c' ! v) = leader" "(j, CurrentTerm (nodes c' ! v)) \<in> terms_of (pieces c')"
    have last: "lastLogIndex rf' = lastLogIndex ?rf + 1" using log by (simp add: lastLogIndex_def)
    show "j \<le> lastLogIndex (nodes c' ! v)"
    proof (cases "v = i")
      case True
      with T [OF v(3)] la i st nd last show ?thesis by (fastforce simp: leaders_ahead_def quiet_def)
    next
      case False
      have "elected c v (CurrentTerm (nodes c ! v))"
        using ei v(1,2) nd False by (auto simp: election_inv_def leaders_elected_def)
      with elected_unique [OF ei el] False have "CurrentTerm (nodes c ! v) \<noteq> ?T" by metis
      with T [OF v(3)] la v(1,2) nd False show ?thesis by (auto simp: leaders_ahead_def)
    qed
  qed
  moreover have "list_all (sender_elected c') (calls c')" by (rule senders_kept [OF mv se]) (use cl in auto)
  ultimately show ?thesis using am' assms(3) moves_terms_pos [OF mv wf tp] by (simp add: log_inv_def)
qed

text \<open>A server that becomes leader is the first one of its term.\<close>

lemma return_first_leader:
  assumes inv: "election_inv n c" "election_inv n c'" and tp: "terms_pos c" and mv: "moves c c'"
    and k: "k < length (calls c)" and rep: "reply (calls c ! k) = Some r"
    and p: "process now (callee (calls c ! k)) (args (calls c ! k)) r (ballots c)
      (nodes c ! caller (calls c ! k)) = Some (rf', bs)"
    and nd: "nodes c' = (nodes c)[caller (calls c ! k) := rf']" and ld: "state rf' = leader"
  shows "no_rise (nodes c ! caller (calls c ! k)) rf' \<or>
    1 \<le> CurrentTerm rf' \<and> (\<forall>j. \<not> elected c j (CurrentTerm rf'))"
proof (cases "no_rise (nodes c ! caller (calls c ! k)) rf'")
  case False
  let ?v = "caller (calls c ! k)"
  have wf: "wf_cluster n c" and bo: "ballots_ok n c" and gt: "list_all granted_term (calls c)"
    and le: "leaders_elected c'"
    using inv by (auto simp: election_inv_def)
  from process_leader [OF p] False obtain b x rr where v: "args (calls c ! k) = RVArgs b x" "r = RVReply rr"
    "rvr_VoteGranted rr" "rvr_Term rr = CurrentTerm rf'" "\<not> won (ballots c ! b)" by blast
  have t: "CurrentTerm rf' = rv_Term x" using gt k v rep by (auto simp: list_all_length granted_term_def)
  note b = wf_clusterD(5) [OF wf k v(1)]
  have vn: "?v < size_of c" using wf_clusterD(1,4) [OF wf] k by auto
  have "ballots c ! b \<in> set (ballots c)" using b by simp
  then have "1 \<le> b_term (ballots c ! b)" using tp unfolding terms_pos_def by blast
  then have "1 \<le> CurrentTerm rf'" using b t by simp
  moreover have "\<not> elected c j (CurrentTerm rf')" for j
  proof
    assume el: "elected c j (CurrentTerm rf')"
    have "elected c' ?v (CurrentTerm rf')" using le vn nd ld by (auto simp: leaders_elected_def)
    with elected_unique [OF inv(2) moves_elected [OF mv el]] have j: "j = ?v" by simp
    from el obtain b' where b': "b' < length (ballots c)" "b_node (ballots c ! b') = j"
      "b_term (ballots c ! b') = CurrentTerm rf'" "won (ballots c ! b')"
      unfolding elected_def by (metis in_set_conv_nth)
    from ballots_okD(1) [OF bo b'(1), of b] b b' j t v(5) show False by auto
  qed
  ultimately show ?thesis by blast
qed simp

lemma process_log:
  assumes "process now j a r bs rf = Some (rf', bs')"
  shows "Log rf' = Log rf" "LastIncludedIndex rf' = LastIncludedIndex rf"
  using assms by (cases rule: process_cases;
    auto dest: vote_reply_votes entries_reply_votes snapshot_reply_votes)+

lemma AppendEntries_term:
  assumes "AppendEntries now a rf = Some (rf', r)"
  shows "rf' = rf \<or> CurrentTerm rf' = ae_Term a"
proof (cases "ae_Term a < CurrentTerm rf")
  case False
  then have p: "ae_process a (ae_stepped now (ae_Term a) rf) = Some (rf', r)" and "CurrentTerm rf \<le> ae_Term a"
    using assms by (auto simp: AppendEntries_form)
  from ae_process_quiet [OF p] ae_stepped_props(4) [OF this(2), of now] show ?thesis by (simp add: quiet_def)
qed (use assms in \<open>simp add: AppendEntries_form\<close>)

lemma InstallSnapshot_term:
  assumes "InstallSnapshot now a rf = Some (rf', r)"
  shows "rf' = rf \<or> CurrentTerm rf' = is_Term a"
proof (cases "is_Term a < CurrentTerm rf")
  case False
  then have p: "is_install a (is_stepped now (is_Term a) rf) = Some rf'" and "CurrentTerm rf \<le> is_Term a"
    using assms by (auto simp: InstallSnapshot_form)
  from is_install_quiet [OF p] is_stepped_props(4) [OF this(2), of now] show ?thesis by (simp add: quiet_def)
qed (use assms in \<open>simp add: InstallSnapshot_form\<close>)

text \<open>A call of a leader's own term never reaches that leader.\<close>

lemma handle_leader:
  assumes inv: "log_inv n c" and k: "k < length (calls c)"
    and h: "handle now (args (calls c ! k)) (nodes c ! callee (calls c ! k)) = Some (rf', r)"
    and ld: "state rf' = leader"
  shows "state (nodes c ! callee (calls c ! k)) = leader \<and>
    CurrentTerm rf' = CurrentTerm (nodes c ! callee (calls c ! k)) \<and>
    lastLogIndex rf' = lastLogIndex (nodes c ! callee (calls c ! k))"
proof -
  let ?v = "callee (calls c ! k)" and ?rf = "nodes c ! callee (calls c ! k)"
  have ei: "election_inv n c" and wf: "wf_cluster n c" and le: "leaders_elected c"
    and se: "sender_elected c (calls c ! k)"
    using inv k by (auto simp: log_inv_def election_inv_def list_all_length)
  have v: "?v < size_of c" "caller (calls c ! k) \<noteq> ?v" using wf_clusterD(1,4) [OF wf] k by auto
  have "durable ?rf" using wf_clusterD(1,3) [OF wf] v by simp
  note old = no_rise_leader [OF handle_votes(2) [OF h this] ld]
  have el: "elected c ?v (CurrentTerm ?rf)" using le v old(1) by (simp add: leaders_elected_def)
  have no: "\<not> elected c (caller (calls c ! k)) (CurrentTerm ?rf)"
    using elected_unique [OF ei el] v(2) by metis
  have "lastLogIndex rf' = lastLogIndex ?rf"
  proof (cases "args (calls c ! k)")
    case (RVArgs b a)
    with h show ?thesis by (auto dest!: RequestVote_votes intro: lastLogIndex_cong)
  next
    case (AEArgs a)
    with se no old(2) have "ae_Term a \<noteq> CurrentTerm ?rf" by (auto simp: sender_elected_def)
    with h AEArgs AppendEntries_term [of now a ?rf rf'] old(2) show ?thesis by auto
  next
    case (ISArgs a)
    with se no old(2) have "is_Term a \<noteq> CurrentTerm ?rf" by (auto simp: sender_elected_def)
    with h ISArgs InstallSnapshot_term [of now a ?rf rf'] old(2) show ?thesis by auto
  qed
  with old show ?thesis by blast
qed

lemma handle_fits:
  assumes h: "handle now (args (calls c ! k)) (nodes c ! v) = Some (rf', r)"
    and k: "k < length (calls c)" and v: "v < size_of c" and am: "all_match (pieces c)"
  shows "fits (pieces c) (piece_of rf')"
proof (cases "args (calls c ! k)")
  case (RVArgs b a)
  with h have "piece_of rf' = piece_of (nodes c ! v)" by (auto dest!: RequestVote_votes simp: piece_of_def)
  then show ?thesis using fits_member [OF node_piece [OF v] am] by simp
next
  case (AEArgs a)
  then obtain M where M: "args_piece (AEArgs a) = Some M" "M \<in> pieces c"
    using call_piece [OF k] by (metis args_piece.simps(2))
  from h AEArgs AppendEntries_fits [OF _ node_piece [OF v] M am] show ?thesis by auto
next
  case (ISArgs a)
  then obtain M where M: "args_piece (ISArgs a :: ('a, 'b) rpc_args) = Some M" "M \<in> pieces c"
    using call_piece [OF k] by (metis args_piece.simps(3))
  from h ISArgs InstallSnapshot_fits [OF _ node_piece [OF v] M am] show ?thesis by auto
qed

lemma leader_update:
  assumes "nodes c' = (nodes c)[i := rf']" and "state (nodes c' ! v) = leader" and "i < size_of c"
    and "state rf' = leader \<Longrightarrow> state (nodes c ! i) = leader \<and> CurrentTerm rf' = CurrentTerm (nodes c ! i) \<and>
      lastLogIndex (nodes c ! i) \<le> lastLogIndex rf' \<or> P (CurrentTerm rf')"
  shows "state (nodes c ! v) = leader \<and> CurrentTerm (nodes c' ! v) = CurrentTerm (nodes c ! v) \<and>
    lastLogIndex (nodes c ! v) \<le> lastLogIndex (nodes c' ! v) \<or> P (CurrentTerm (nodes c' ! v))"
  using assms by (cases "v = i") auto

lemma senders_update:
  assumes "moves c c'" and "list_all (sender_elected c) (calls c)" and "calls c' = (calls c)[k := y]"
    and "k < length (calls c)" "args y = args (calls c ! k)" "caller y = caller (calls c ! k)"
  shows "list_all (sender_elected c') (calls c')"
proof (rule senders_kept [OF assms(1,2)])
  fix x assume "x \<in> set (calls c')"
  then have "x = y \<or> x \<in> set (calls c)" using assms(3) set_update_subset_insert [of "calls c" k y] by auto
  then show "(\<exists>z \<in> set (calls c). args z = args x \<and> caller z = caller x) \<or> sender_elected c x"
  proof
    assume "x = y"
    with assms(5,6) nth_mem [OF assms(4)] show ?thesis by (intro disjI1 bexI [of _ "calls c ! k"]) simp_all
  qed blast
qed

lemma map_args_update: "args y = args (xs ! k) \<Longrightarrow> map args (xs[k := y]) = map args xs"
  by (rule map_update_same)

lemma log_invD:
  assumes "log_inv n c"
  shows "election_inv n c" "all_match (pieces c)" "list_all (sender_elected c) (calls c)" "terms_pos c"
    "leaders_elected c" "wf_cluster n c" "i < size_of c \<Longrightarrow> durable (nodes c ! i)"
  using assms wf_clusterD(1,3) [of n c] by (auto simp: log_inv_def election_inv_def)

lemma senders_same: "moves c c' \<Longrightarrow> list_all (sender_elected c) (calls c) \<Longrightarrow> calls c' = calls c \<Longrightarrow>
    list_all (sender_elected c') (calls c')"
  by (rule senders_kept) auto

lemma log_inv_local:
  assumes inv: "log_inv n c" and mv: "moves c c'"
    and i: "i < size_of c" and ls: "local_step (nodes c ! i) rf'" and nd: "nodes c' = (nodes c)[i := rf']"
    and cl: "calls c' = calls c"
  shows "log_inv n c'"
proof -
  note D = log_invD [OF inv] and ei' = inv_step [OF log_invD(1) [OF inv] mv]
  have nr: "no_rise (nodes c ! i) rf'" using local_step_votes [OF ls D(7) [OF i]] by blast
  from local_step_log [OF ls D(7) [OF i]] show ?thesis
  proof
    assume pt: "part_of (piece_of rf') (piece_of (nodes c ! i)) \<and>
      (state rf' = leader \<longrightarrow> lastLogIndex rf' = lastLogIndex (nodes c ! i))"
    have P: "pieces c' \<subseteq> insert (piece_of rf') (pieces c)" using pieces_update [OF nd] cl by simp
    note fa = fits_add [OF D(2) fits_part [OF conjunct1 [OF pt] node_piece [OF i] D(2)] P]
    show ?thesis
    proof (rule log_inv_step [OF inv mv ei' fa senders_same [OF mv D(3) cl]])
      fix v assume v: "state (nodes c' ! v) = leader"
      show "state (nodes c ! v) = leader \<and> CurrentTerm (nodes c' ! v) = CurrentTerm (nodes c ! v) \<and>
          lastLogIndex (nodes c ! v) \<le> lastLogIndex (nodes c' ! v) \<or>
        1 \<le> CurrentTerm (nodes c' ! v) \<and> (\<forall>k. \<not> elected c k (CurrentTerm (nodes c' ! v)))"
        by (rule leader_update [OF nd v i]) (use pt no_rise_leader [OF nr] in simp)
    qed
  next
    assume "\<exists>x. state (nodes c ! i) = leader \<and> quiet (nodes c ! i) rf' \<and>
      LastIncludedIndex rf' = LastIncludedIndex (nodes c ! i) \<and>
      Log rf' = Log (nodes c ! i) @ [\<lparr>Term = CurrentTerm (nodes c ! i), Command = Some x\<rparr>]"
    with log_inv_Start [OF inv mv ei' i nd cl] show ?thesis by blast
  qed
qed

lemma log_inv_send:
  assumes inv: "log_inv n c" and mv: "moves c c'" and i: "i < size_of c" and nd: "nodes c' = nodes c"
    and cl: "calls c' = calls c @ [new_call i j a c]"
    and a: "(\<exists>x. a = AEArgs x \<and> replicate_send j (nodes c ! i) = Some (CallAppendEntries x)) \<or>
      (\<exists>x. a = ISArgs x \<and> replicate_send j (nodes c ! i) = Some (CallInstallSnapshot x))"
  shows "log_inv n c'"
proof -
  note D = log_invD [OF inv] and ei' = inv_step [OF log_invD(1) [OF inv] mv]
  from a obtain X where X: "args_piece a = Some X" by auto
  note sp = send_part [OF a X]
  have P: "pieces c' \<subseteq> insert X (pieces c)"
    by (rule pieces_append [OF nd cl]) (simp add: new_call_def X)
  note fa = fits_add [OF D(2) fits_part [OF conjunct1 [OF sp] node_piece [OF i] D(2)] P]
  have el: "elected c i (CurrentTerm (nodes c ! i))" using D(5) sp i by (simp add: leaders_elected_def)
  have "sender_elected c (new_call i j a c)"
    using a
  proof
    assume "\<exists>x. a = AEArgs x \<and> replicate_send j (nodes c ! i) = Some (CallAppendEntries x)"
    with el show ?thesis by (auto simp: sender_elected_def new_call_def replicate_send_def
        newAppendEntriesArgsFor_def bind_eq_Some_conv split: if_splits)
  next
    assume "\<exists>x. a = ISArgs x \<and> replicate_send j (nodes c ! i) = Some (CallInstallSnapshot x)"
    with el show ?thesis by (auto simp: sender_elected_def new_call_def replicate_send_def
        newInstallSnapshotArgs_def bind_eq_Some_conv split: if_splits)
  qed
  then have "list_all (sender_elected c') (calls c')" by (intro senders_kept [OF mv D(3)]) (auto simp: cl)
  then show ?thesis by (rule log_inv_step [OF inv mv ei' fa]) (use nd in simp)
qed

lemma log_inv_elect:
  assumes inv: "log_inv n c" and mv: "moves c c'" and i: "i < size_of c"
    and st: "startElection now (nodes c ! i) = Some (rf', a)" and nd: "nodes c' = (nodes c)[i := rf']"
    and cl: "calls c' = calls c @ map (\<lambda>j. new_call i j (RVArgs (length (ballots c)) a) c)
      (filter (\<lambda>j. j \<noteq> i) [0..<size_of c])"
  shows "log_inv n c'"
proof -
  note D = log_invD [OF inv] and ei' = inv_step [OF log_invD(1) [OF inv] mv] and se = startElection_votes [OF st]
  have "map piece_of (nodes c') = map piece_of (nodes c)"
    unfolding nd by (rule map_update_same) (use se in \<open>simp add: piece_of_def\<close>)
  then have "piece_of ` set (nodes c') = piece_of ` set (nodes c)" by (metis list.set_map)
  moreover have "Some X \<in> (\<lambda>x. args_piece (args x)) ` set (calls c') \<longleftrightarrow>
      Some X \<in> (\<lambda>x. args_piece (args x)) ` set (calls c)" for X
    unfolding cl set_append image_Un by (simp add: new_call_def image_image image_iff)
  ultimately have "pieces c' = pieces c" unfolding pieces_def by simp
  then have P: "pieces c' \<subseteq> insert (piece_of (nodes c ! i)) (pieces c)" by blast
  note fa = fits_add [OF D(2) fits_member [OF node_piece [OF i] D(2)] P]
  have "list_all (sender_elected c') (calls c')"
    by (rule senders_kept [OF mv D(3)]) (auto simp: cl sender_elected_def new_call_def)
  then show ?thesis
  proof (rule log_inv_step [OF inv mv ei' fa])
    fix v assume "state (nodes c' ! v) = leader"
    then show "state (nodes c ! v) = leader \<and> CurrentTerm (nodes c' ! v) = CurrentTerm (nodes c ! v) \<and>
        lastLogIndex (nodes c ! v) \<le> lastLogIndex (nodes c' ! v) \<or>
      1 \<le> CurrentTerm (nodes c' ! v) \<and> (\<forall>k. \<not> elected c k (CurrentTerm (nodes c' ! v)))"
      by (rule leader_update [OF nd _ i]) (use se in simp)
  qed
qed

lemma log_inv_deliver:
  assumes inv: "log_inv n c" and mv: "moves c c'" and k: "k < length (calls c)"
    and h: "handle now (args (calls c ! k)) (nodes c ! callee (calls c ! k)) = Some (rf', r)"
    and nd: "nodes c' = (nodes c)[callee (calls c ! k) := rf']"
    and cl: "calls c' = (calls c)[k := (calls c ! k)\<lparr>reply := Some r\<rparr>]"
  shows "log_inv n c'"
proof -
  note D = log_invD [OF inv] and ei' = inv_step [OF log_invD(1) [OF inv] mv]
  have v: "callee (calls c ! k) < size_of c" using wf_clusterD(1,4) [OF D(6)] k by auto
  have P: "pieces c' \<subseteq> insert (piece_of rf') (pieces c)"
    by (rule pieces_update [OF nd]) (simp add: cl map_args_update)
  note fa = fits_add [OF D(2) handle_fits [OF h k v D(2)] P]
  have "list_all (sender_elected c') (calls c')" by (rule senders_update [OF mv D(3) cl k]) simp_all
  then show ?thesis
  proof (rule log_inv_step [OF inv mv ei' fa])
    fix u assume "state (nodes c' ! u) = leader"
    then show "state (nodes c ! u) = leader \<and> CurrentTerm (nodes c' ! u) = CurrentTerm (nodes c ! u) \<and>
        lastLogIndex (nodes c ! u) \<le> lastLogIndex (nodes c' ! u) \<or>
      1 \<le> CurrentTerm (nodes c' ! u) \<and> (\<forall>k. \<not> elected c k (CurrentTerm (nodes c' ! u)))"
      by (rule leader_update [OF nd _ v]) (use handle_leader [OF inv k h] in simp)
  qed
qed

lemma log_inv_return:
  assumes inv: "log_inv n c" and mv: "moves c c'" and k: "k < length (calls c)" and rep: "reply (calls c ! k) = Some r"
    and p: "process now (callee (calls c ! k)) (args (calls c ! k)) r (ballots c)
      (nodes c ! caller (calls c ! k)) = Some (rf', bs)"
    and nd: "nodes c' = (nodes c)[caller (calls c ! k) := rf']"
    and cl: "calls c' = (calls c)[k := (calls c ! k)\<lparr>returned := True\<rparr>]"
  shows "log_inv n c'"
proof -
  note D = log_invD [OF inv] and ei' = inv_step [OF log_invD(1) [OF inv] mv]
  have v: "caller (calls c ! k) < size_of c" using wf_clusterD(1,4) [OF D(6)] k by auto
  have same: "piece_of rf' = piece_of (nodes c ! caller (calls c ! k))"
    "lastLogIndex rf' = lastLogIndex (nodes c ! caller (calls c ! k))"
    using process_log [OF p] by (simp_all add: piece_of_def lastLogIndex_def)
  have P: "pieces c' \<subseteq> insert (piece_of rf') (pieces c)"
    by (rule pieces_update [OF nd]) (simp add: cl map_args_update)
  note fa = fits_add [OF D(2) fits_member [OF node_piece [OF v] D(2), folded same(1)] P]
  have "list_all (sender_elected c') (calls c')" by (rule senders_update [OF mv D(3) cl k]) simp_all
  then show ?thesis
  proof (rule log_inv_step [OF inv mv ei' fa])
    fix u assume u: "state (nodes c' ! u) = leader"
    show "state (nodes c ! u) = leader \<and> CurrentTerm (nodes c' ! u) = CurrentTerm (nodes c ! u) \<and>
        lastLogIndex (nodes c ! u) \<le> lastLogIndex (nodes c' ! u) \<or>
      1 \<le> CurrentTerm (nodes c' ! u) \<and> (\<forall>k. \<not> elected c k (CurrentTerm (nodes c' ! u)))"
    proof (rule leader_update [OF nd u v])
      assume ld: "state rf' = leader"
      from return_first_leader [OF D(1) ei' D(4) mv k rep p nd ld]
      show "state (nodes c ! caller (calls c ! k)) = leader \<and>
          CurrentTerm rf' = CurrentTerm (nodes c ! caller (calls c ! k)) \<and>
          lastLogIndex (nodes c ! caller (calls c ! k)) \<le> lastLogIndex rf' \<or>
        1 \<le> CurrentTerm rf' \<and> (\<forall>k. \<not> elected c k (CurrentTerm rf'))"
        using same(2) no_rise_leader [OF _ ld] by auto
    qed
  qed
qed

lemma log_inv_moves:
  assumes inv: "log_inv n c" and mv: "moves c c'"
  shows "log_inv n c'"
  using mv
proof (cases rule: moves.cases)
  case none
  note D = log_invD [OF inv] and ei' = inv_step [OF log_invD(1) [OF inv] mv]
  have "pieces c' = pieces c" using none by (simp add: pieces_def)
  then show ?thesis using D(2) none(1)
    by (intro log_inv_step [OF inv mv ei' _ _ senders_same [OF mv D(3) none(2)]]) simp_all
next
  case (local_move i rf')
  show ?thesis by (rule log_inv_local [OF inv mv local_move(1-4)])
next
  case (send i j a)
  show ?thesis by (rule log_inv_send [OF inv mv send(1,4,5,8)])
next
  case (elect i now rf' a)
  show ?thesis by (rule log_inv_elect [OF inv mv elect(1-3,6)])
next
  case (deliver k now rf' r)
  show ?thesis by (rule log_inv_deliver [OF inv mv deliver(1,3,4,7)])
next
  case (return k r now rf' bs)
  show ?thesis by (rule log_inv_return [OF inv mv return(1,2,5,6,8)])
qed

lemma log_inv_initial: "log_inv n (initial n :: ('c, 'b) cluster)"
proof -
  let ?c = "initial n :: ('c, 'b) cluster"
  have m: "piece_of (Make n i MakePersister t :: ('c, 'b) Raft) = (0, [\<lparr>Term = 0, Command = None\<rparr>])" for i t
    by (simp add: piece_of_def Make_def readPersist_def ReadRaftState_def MakePersister_def)
  have p: "pieces ?c \<subseteq> {(0, [\<lparr>Term = 0, Command = None\<rparr>])}" by (auto simp: pieces_def initial_def m)
  have "match X Y" if "X \<in> pieces ?c" "Y \<in> pieces ?c" for X Y
    using subsetD [OF p that(1)] subsetD [OF p that(2)] by simp
  then have "all_match (pieces ?c)" by (simp add: all_match_def)
  moreover have "t = 0" if "(i, t) \<in> terms_of (pieces ?c)" for i t
    using that p by (auto simp: terms_of_def term_at_def at_def slice_at_def split: if_splits)
  then have "terms_elected ?c" by (auto simp: terms_elected_def)
  moreover have "leaders_ahead ?c" "terms_pos ?c"
    by (auto simp: leaders_ahead_def terms_pos_def initial_def Make_def readPersist_def ReadRaftState_def MakePersister_def)
  ultimately show ?thesis using inv_initial [of n] by (simp add: log_inv_def initial_def)
qed

lemma reachable_log_inv: "reachable n c \<Longrightarrow> log_inv n c"
  by (induction rule: reachable.induct) (auto intro: log_inv_initial log_inv_moves exec_moves)

section \<open>Log matching\<close>

text \<open>
  C1. Log matching, in every reachable state: if the logs of two servers have the same term at an
  index, they have the same terms at all indices below that both still hold and the same commands
  at those that neither has replaced by a snapshot.
\<close>

theorem log_matching:
  assumes "reachable n c" and "i < n" "j < n"
    and "termAt (nodes c ! i) k = Some t" "termAt (nodes c ! j) k = Some t"
    and "m \<le> k" "LastIncludedIndex (nodes c ! i) \<le> m" "LastIncludedIndex (nodes c ! j) \<le> m"
  shows "termAt (nodes c ! i) m = termAt (nodes c ! j) m \<and>
    (LastIncludedIndex (nodes c ! i) < m \<and> LastIncludedIndex (nodes c ! j) < m \<longrightarrow>
      entryAt (nodes c ! i) m = entryAt (nodes c ! j) m)"
proof -
  have inv: "log_inv n c" by (rule reachable_log_inv [OF assms(1)])
  have "size_of c = n" using log_invD(6) [OF inv] wf_clusterD(1) by blast
  then have "match (piece_of (nodes c ! i)) (piece_of (nodes c ! j))"
    using log_invD(2) [OF inv] node_piece assms(2,3) by (auto simp: all_match_def)
  from matchD [OF this, of k t m] assms(4-8) show ?thesis by (simp add: term_at_piece_of at_piece_of)
qed

definition replication_trace :: "(nat, unit) event list" where
  "replication_trace = [Elect 0 0, Deliver 0 0, Return 0 0, ClientStart 0 5, ClientStart 0 6,
     Replicate 0 1, Deliver 2 0, Return 2 0, Replicate 0 1, Deliver 3 0, Return 3 0]"

lemma replication_trace_result:
  "map_option (\<lambda>c. map (\<lambda>rf. (termAt rf 2, termAt rf 1, LastIncludedIndex rf)) (nodes c))
     (run replication_trace (initial 3)) = Some [(Some 1, Some 1, 0), (Some 1, Some 1, 0), (None, None, 0)]"
  by code_simp

theorem log_matching_witness:
  "\<exists>c :: (nat, unit) cluster. reachable 3 c \<and> termAt (nodes c ! 0) 2 = Some 1 \<and> termAt (nodes c ! 1) 2 = Some 1 \<and>
     entryAt (nodes c ! 0) 1 = entryAt (nodes c ! 1) 1"
proof -
  obtain c :: "(nat, unit) cluster" where c: "run replication_trace (initial 3) = Some c"
    "map (\<lambda>rf. (termAt rf 2, termAt rf 1, LastIncludedIndex rf)) (nodes c) =
      [(Some 1, Some 1, 0), (Some 1, Some 1, 0), (None, None, 0)]"
    using replication_trace_result by auto
  have r: "reachable 3 c" by (rule run_reachable [OF reachable_initial c(1)])
  have "length (nodes c) = 3" using arg_cong [OF c(2), of length] by simp
  then have v: "termAt (nodes c ! 0) 2 = Some 1" "termAt (nodes c ! 1) 2 = Some 1"
    "LastIncludedIndex (nodes c ! 0) = 0" "LastIncludedIndex (nodes c ! 1) = 0"
    using arg_cong [OF c(2), of "\<lambda>xs. xs ! 0"] arg_cong [OF c(2), of "\<lambda>xs. xs ! 1"] by simp_all
  from log_matching [OF r _ _ v(1,2), of 1] v r show ?thesis by (intro exI [of _ c]) simp
qed

section \<open>A delayed reply\<close>

text \<open>
  A schedule of three servers. Server 0 leads term 1, loses the lead and leads again in term 4; the
  successful reply of its AppendEntries from term 4 comes when it leads once more, in term 6,
  after server 2 has replaced the entry at index 2 everywhere. \<open>replicateToFollower\<close> compares only the
  reply's term with its own, takes the old reply for an answer about its new log, and commits
  index 2, which no other server has. Server 1 then leads and commits another command there.
\<close>

definition unsafe_trace :: "(nat, unit) event list" where
  "unsafe_trace = [Elect 0 0, Deliver 0 0, Return 0 0, ClientStart 0 1, ClientStart 0 11,
     Elect 2 0, Elect 2 0, Deliver 5 0, Return 5 0, ClientStart 2 2,
     Elect 0 0, Elect 0 0, Deliver 8 0, Return 8 0,
     Replicate 0 1, Deliver 10 0, Return 10 0, Replicate 0 1, Deliver 11 0,
     Elect 2 0, Elect 2 0, Deliver 15 0, Return 15 0,
     Replicate 2 1, Deliver 16 0, Return 16 0, Replicate 2 1, Deliver 17 0,
     Replicate 2 0, Deliver 18 0, Return 18 0, Replicate 2 0, Deliver 19 0,
     Elect 0 0, Deliver 20 0, Return 20 0, ClientStart 0 5, Return 11 0,
     ApplyNext 0, Applied 0, ApplyNext 0, Applied 0,
     Elect 1 0, Deliver 23 0, Return 23 0, ClientStart 1 6,
     Replicate 1 2, Deliver 24 0, Return 24 0,
     ApplyNext 1, Applied 1, ApplyNext 1, Applied 1]"

lemma unsafe_trace_result:
  "map_option delivered (run unsafe_trace (initial 3)) =
     Some [[CommandMsg (Some 2) 1, CommandMsg (Some 5) 2], [CommandMsg (Some 2) 1, CommandMsg (Some 6) 2], []]"
  by code_simp

text \<open>
  C20. State machine safety fails: there is a reachable state of three servers, with no crash and no
  snapshot on the way, in which two servers have handed different commands for the same index to
  their services.
\<close>

theorem stale_reply_breaks_safety:
  "\<exists>c :: (nat, unit) cluster. reachable 3 c \<and>
     CommandMsg (Some 5) 2 \<in> set (delivered c ! 0) \<and> CommandMsg (Some 6) 2 \<in> set (delivered c ! 1)"
proof -
  obtain c :: "(nat, unit) cluster" where c: "run unsafe_trace (initial 3) = Some c"
    "delivered c = [[CommandMsg (Some 2) 1, CommandMsg (Some 5) 2], [CommandMsg (Some 2) 1, CommandMsg (Some 6) 2], []]"
    using unsafe_trace_result by auto
  have "reachable 3 c" by (rule run_reachable [OF reachable_initial c(1)])
  with c(2) show ?thesis by (intro exI [of _ c]) simp
qed

end
