(* ===== verification/Raft_Apply.thy ===== *)
theory Raft_Apply
  imports Raft_Cluster
begin

text \<open>
  The applier of \<open>raft.go\<close>: what a server hands to its service is in order. Every step of a server
  other than a crash leaves \<open>lastApplied\<close> alone except the applier's own, and a pending snapshot is
  never behind what has been applied.
\<close>

text \<open>
  Between two steps of the applier: what is applied stays, the snapshot never goes back, and a
  snapshot that becomes pending is ahead of what is applied.
\<close>

definition apply_step :: "('c, 'b) Raft \<Rightarrow> ('c, 'b) Raft \<Rightarrow> bool" where
  "apply_step rf rf' \<longleftrightarrow> lastApplied rf' = lastApplied rf \<and> LastIncludedIndex rf \<le> LastIncludedIndex rf' \<and>
     (snapshotPending rf' \<longrightarrow> snapshotPending rf \<or> lastApplied rf' < LastIncludedIndex rf')"

lemma apply_step_refl [simp]: "apply_step rf rf"
  by (simp add: apply_step_def)

lemma apply_step_trans: "apply_step a b \<Longrightarrow> apply_step b c \<Longrightarrow> apply_step a c"
  by (auto simp: apply_step_def)

lemma apply_step_fields:
  "lastApplied rf' = lastApplied rf \<Longrightarrow> LastIncludedIndex rf' = LastIncludedIndex rf \<Longrightarrow>
     snapshotPending rf' = snapshotPending rf \<Longrightarrow> apply_step rf rf'"
  by (simp add: apply_step_def)

lemma ae_accept_apply: "ae_accept a rf = Some rf' \<Longrightarrow> apply_step rf rf'"
  by (rule apply_step_fields)
    (auto simp: ae_accept_def bind_eq_Some_conv Let_def if_distrib [of snapshotPending] cong: if_cong)

lemma ae_process_apply: "ae_process a rf = Some (rf', r) \<Longrightarrow> apply_step rf rf'"
  by (auto simp: ae_process_def bind_eq_Some_conv Let_def dest: ae_accept_apply split: if_splits)

lemma stepped_apply: "apply_step rf (ae_stepped now t rf)" "apply_step rf (is_stepped now t rf)"
  by (simp_all add: ae_stepped_def is_stepped_def apply_step_def)

lemma AppendEntries_apply: "AppendEntries now a rf = Some (rf', r) \<Longrightarrow> apply_step rf rf'"
  by (auto simp: AppendEntries_form dest!: ae_process_apply split: if_splits
      intro: apply_step_trans [OF stepped_apply(1)])

lemma is_install_apply: "is_install a rf = Some rf' \<Longrightarrow> apply_step rf rf'"
  by (auto simp: is_install_def bind_eq_Some_conv Let_def apply_step_def split: if_splits)

lemma InstallSnapshot_apply: "InstallSnapshot now a rf = Some (rf', r) \<Longrightarrow> apply_step rf rf'"
  by (auto simp: InstallSnapshot_form dest!: is_install_apply split: if_splits
      intro: apply_step_trans [OF stepped_apply(2)])

lemma RequestVote_apply: "RequestVote now a rf = Some (rf', r) \<Longrightarrow> apply_step rf rf'"
  by (rule apply_step_fields) (auto simp: RequestVote_def bind_eq_Some_conv Let_def split: if_splits)

lemma handle_apply: "handle now a rf = Some (rf', r) \<Longrightarrow> apply_step rf rf'"
  by (cases a) (auto intro: AppendEntries_apply InstallSnapshot_apply RequestVote_apply)

lemma advanceCommitIndex_apply: "advanceCommitIndex rf = Some rf' \<Longrightarrow> apply_step rf rf'"
  by (rule apply_step_fields) (auto simp: advanceCommitIndex_def bind_eq_Some_conv split: option.splits)

lemma apply_step_indices:
  "apply_step (rf\<lparr>matchIndex := xs, nextIndex := ys\<rparr>) rf' = apply_step rf rf'"
  by (simp add: apply_step_def)

lemma entries_reply_apply: "replicate_entries_reply now j a r rf = Some rf' \<Longrightarrow> apply_step rf rf'"
  by (auto simp: replicate_entries_reply_def bind_eq_Some_conv Let_def apply_step_indices
      dest!: advanceCommitIndex_apply split: if_splits) (auto simp: apply_step_def)

lemma snapshot_reply_apply: "replicate_snapshot_reply now j a r rf = Some rf' \<Longrightarrow> apply_step rf rf'"
  by (auto simp: replicate_snapshot_reply_def apply_step_indices
      dest!: advanceCommitIndex_apply split: if_splits) (auto simp: apply_step_def)

lemma process_apply: "process now j a r bs rf = Some (rf', bs') \<Longrightarrow> apply_step rf rf'"
  by (cases "(now, j, a, r, bs, rf)" rule: process.cases)
    (auto simp: vote_reply_def becomeLeader_def Let_def apply_step_def
      dest: entries_reply_apply snapshot_reply_apply split: if_splits prod.splits)

text \<open>
  The applier's view of a server: the message it is sending is the next one, and a snapshot that
  waits to be sent is not behind what will have been applied by then.
\<close>

definition apply_ok :: "('c, 'b) Raft \<Rightarrow> ('c, 'b) ApplyMsg option \<Rightarrow> bool" where
  "apply_ok rf ap \<longleftrightarrow> (case ap of
       None \<Rightarrow> snapshotPending rf \<longrightarrow> lastApplied rf \<le> LastIncludedIndex rf
     | Some m \<Rightarrow> follows (lastApplied rf) m \<and> (snapshotPending rf \<longrightarrow> msg_index m \<le> LastIncludedIndex rf) \<and>
         (\<forall>d t j. m = SnapshotMsg d t j \<longrightarrow> j \<le> LastIncludedIndex rf))"

lemma apply_ok_step:
  assumes "apply_ok rf ap" and "apply_step rf rf'"
  shows "apply_ok rf' ap"
proof (cases ap)
  case (Some m)
  with assms show ?thesis by (cases m) (auto simp: apply_ok_def apply_step_def)
qed (use assms in \<open>auto simp: apply_ok_def apply_step_def\<close>)

lemma apply_ok_next:
  assumes "apply_ok rf None" and "applier_next rf = Some (rf', ap)"
  shows "apply_ok rf' ap" "lastApplied rf' = lastApplied rf"
  using assms by (auto simp: apply_ok_def applier_next_def bind_eq_Some_conv split: if_splits)

lemma apply_ok_done:
  assumes "apply_ok rf (Some m)"
  shows "apply_ok (applier_done m rf) None" "lastApplied (applier_done m rf) = msg_index m"
  using assms by (cases m; auto simp: apply_ok_def)+

definition applier_inv :: "('c, 'b) cluster \<Rightarrow> bool" where
  "applier_inv c \<longleftrightarrow> length (applying c) = size_of c \<and> length (delivered c) = size_of c \<and>
     (\<forall>v < size_of c. apply_ok (nodes c ! v) (applying c ! v))"

text \<open>The events that are not the applier's.\<close>

definition others :: "('c, 'b) event \<Rightarrow> bool" where
  "others e = (case e of ApplyNext i \<Rightarrow> False | Applied i \<Rightarrow> False | Crash i now \<Rightarrow> False | _ \<Rightarrow> True)"

lemma apply_step_update: "apply_step (xs ! i) rf' \<Longrightarrow> apply_step (xs ! v) (xs[i := rf'] ! v)"
  by (cases "v = i"; cases "i < length xs") (simp_all add: list_update_beyond)

lemma local_apply:
  "apply_step rf (fst (Start x rf))"
  "Snapshot i d rf = Some rf' \<Longrightarrow> apply_step rf rf'"
  "startElection now rf = Some (rf', a) \<Longrightarrow> apply_step rf rf'"
  "apply_step rf (replicationDispatcher rf)" "apply_step rf (replicationWorker j rf)"
proof -
  show "apply_step rf (fst (Start x rf))" by (rule apply_step_fields) (auto simp: Start_def Let_def)
  show "Snapshot i d rf = Some rf' \<Longrightarrow> apply_step rf rf'"
    by (auto simp: Snapshot_def bind_eq_Some_conv apply_step_def split: if_splits)
  show "startElection now rf = Some (rf', a) \<Longrightarrow> apply_step rf rf'"
    by (auto simp: startElection_def bind_eq_Some_conv Let_def apply_step_def)
  show "apply_step rf (replicationDispatcher rf)" by (simp add: replicationDispatcher_def Let_def apply_step_def)
  show "apply_step rf (replicationWorker j rf)" by (simp add: replicationWorker_def apply_step_def)
qed

text \<open>One server makes a step and the applier's state stays.\<close>

definition one_step :: "('c, 'b) cluster \<Rightarrow> ('c, 'b) cluster \<Rightarrow> bool" where
  "one_step c c' \<longleftrightarrow> applying c' = applying c \<and> delivered c' = delivered c \<and>
     (\<exists>i rf'. nodes c' = (nodes c)[i := rf'] \<and> apply_step (nodes c ! i) rf')"

lemma one_step_refl [simp]: "one_step c c"
  unfolding one_step_def by (metis apply_step_refl list_update_id)

lemma one_stepI:
  "applying c' = applying c \<Longrightarrow> delivered c' = delivered c \<Longrightarrow> nodes c' = (nodes c)[i := rf'] \<Longrightarrow>
     apply_step (nodes c ! i) rf' \<Longrightarrow> one_step c c'"
  unfolding one_step_def by blast

lemma send_to_step: "send_to i j c = Some c' \<Longrightarrow> one_step c c'"
  by (rule one_stepI [of _ _ i "nodes c ! i"])
    (auto simp: send_to_def bind_eq_Some_conv split: replication.split)

lemma deliver_step:
  assumes "deliver k now c = Some c'" shows "one_step c c'"
proof (cases "reply (calls c ! k)")
  case None
  with assms obtain rf' r where h: "handle now (args (calls c ! k)) (nodes c ! callee (calls c ! k)) = Some (rf', r)"
    by (auto simp: deliver_def bind_eq_Some_conv Let_def)
  with assms None show ?thesis
    by (intro one_stepI [OF _ _ _ handle_apply [OF h]]) (auto simp: deliver_def set_node_def Let_def)
qed (use assms in \<open>simp add: deliver_def Let_def\<close>)

lemma return_step:
  assumes "return k now c = Some c'" shows "one_step c c'"
proof (cases "c' = c")
  case False
  with assms obtain r where r: "reply (calls c ! k) = Some r"
    "\<not> (returned (calls c ! k) \<or> epoch (calls c ! k) \<noteq> epochs c ! caller (calls c ! k))"
    by (auto simp: return_def Let_def split: option.splits if_splits)
  with assms obtain rf' bs where p: "process now (callee (calls c ! k)) (args (calls c ! k)) r (ballots c)
      (nodes c ! caller (calls c ! k)) = Some (rf', bs)"
    by (auto simp: return_def bind_eq_Some_conv Let_def)
  with assms r show ?thesis
    by (intro one_stepI [OF _ _ _ process_apply [OF p]]) (auto simp: return_def set_node_def Let_def)
qed simp

lemma elect_step:
  assumes "elect i now c = Some c'" shows "one_step c c'"
proof -
  from assms obtain rf' a where e: "startElection now (nodes c ! i) = Some (rf', a)"
    by (auto simp: elect_def bind_eq_Some_conv)
  with assms show ?thesis
    by (intro one_stepI [OF _ _ _ local_apply(3) [OF e]]) (auto simp: elect_def set_node_def)
qed

lemma set_node_step: "apply_step (nodes c ! i) rf' \<Longrightarrow> one_step c (set_node i rf' c)"
  by (rule one_stepI) (simp_all add: set_node_def)

lemma exec_others:
  assumes "exec e c = Some c'" and "others e"
  shows "one_step c c'"
proof (cases e)
  case (TakeSnapshot i index d)
  with assms show ?thesis by (auto intro: set_node_step local_apply(2) split: if_splits)
qed (use assms in \<open>auto simp: others_def intro: elect_step send_to_step deliver_step return_step set_node_step local_apply
    split: if_splits\<close>)

lemma one_step_node:
  assumes "one_step c c'"
  shows "apply_step (nodes c ! v) (nodes c' ! v)" "size_of c' = size_of c"
  using assms by (auto simp: one_step_def intro: apply_step_update)

lemma applier_inv_update:
  assumes "applier_inv c" and "nodes c' = (nodes c)[i := rf']" "applying c' = (applying c)[i := ap]"
    and "length (delivered c') = length (delivered c)" and "apply_ok rf' ap"
  shows "applier_inv c'"
proof -
  have "apply_ok ((nodes c)[i := rf'] ! v) ((applying c)[i := ap] ! v)" if "v < size_of c" for v
    using that assms(1,5) by (cases "v = i") (auto simp: applier_inv_def)
  with assms(1-4) show ?thesis by (simp add: applier_inv_def)
qed

lemma Make_apply: "apply_ok (Make n i ps now) None"
  by (simp add: apply_ok_def Make_def readPersist_def split: option.split)

lemma exec_applier_inv:
  assumes inv: "applier_inv c" and ex: "exec e c = Some c'"
  shows "applier_inv c'"
proof (cases "others e")
  case True
  note st = exec_others [OF ex True]
  with inv one_step_node [OF st] show ?thesis
    by (auto simp: applier_inv_def one_step_def intro: apply_ok_step)
next
  case False
  then consider i where "e = ApplyNext i" | i where "e = Applied i" | i now where "e = Crash i now"
    by (auto simp: others_def split: event.splits)
  then show ?thesis
  proof cases
    case (1 i)
    show ?thesis
    proof (cases "i < size_of c \<and> applying c ! i = None")
      case True
      with ex 1 obtain rf' ap where a: "applier_next (nodes c ! i) = Some (rf', ap)" by auto
      from True inv have "apply_ok (nodes c ! i) None" by (auto simp: applier_inv_def)
      from apply_ok_next(1) [OF this a] show ?thesis
        by (rule applier_inv_update [OF inv, rotated 3]) (use ex 1 True a in \<open>auto simp: set_node_def\<close>)
    qed (use ex 1 inv in \<open>auto split: if_splits\<close>)
  next
    case (2 i)
    show ?thesis
    proof (cases "i < size_of c \<and> applying c ! i \<noteq> None")
      case True
      then obtain m where m: "applying c ! i = Some m" by blast
      with True inv have "apply_ok (nodes c ! i) (Some m)" by (auto simp: applier_inv_def)
      from apply_ok_done(1) [OF this] show ?thesis
        by (rule applier_inv_update [OF inv, rotated 3]) (use ex 2 True m in \<open>auto simp: set_node_def\<close>)
    qed (use ex 2 inv in \<open>auto split: if_splits\<close>)
  next
    case (3 i now)
    show ?thesis
    proof (cases "i < size_of c")
      case True
      show ?thesis by (rule applier_inv_update [OF inv _ _ _ Make_apply])
          (use ex 3 True in \<open>auto simp: crash_def set_node_def Let_def\<close>)
    qed (use ex 3 inv in auto)
  qed
qed

lemma reachable_applier_inv: "reachable n c \<Longrightarrow> applier_inv c"
proof (induction rule: reachable.induct)
  case reachable_initial
  show ?case by (simp add: applier_inv_def initial_def Make_apply)
qed (rule exec_applier_inv)

lemma exec_size: "exec e c = Some c' \<Longrightarrow> size_of c' = size_of c"
  by (drule exec_moves) (auto elim: moves.cases)

lemma reachable_size: "reachable n c \<Longrightarrow> size_of c = n"
  by (induction rule: reachable.induct) (auto simp: initial_def exec_size)

text \<open>One event other than a crash of server \<open>i\<close> hands over nothing or the next message.\<close>

lemma exec_delivered:
  assumes inv: "applier_inv c" and i: "i < size_of c" and ex: "exec e c = Some c'" and "\<forall>now. e \<noteq> Crash i now"
  shows "delivered c' ! i = delivered c ! i \<and> lastApplied (nodes c' ! i) = lastApplied (nodes c ! i) \<or>
    (\<exists>m. delivered c' ! i = delivered c ! i @ [m] \<and> follows (lastApplied (nodes c ! i)) m \<and>
      lastApplied (nodes c' ! i) = msg_index m)"
proof (cases "others e")
  case True
  from exec_others [OF ex True] one_step_node(1) [OF exec_others [OF ex True], of i] show ?thesis
    by (auto simp: one_step_def apply_step_def)
next
  case False
  have ok: "apply_ok (nodes c ! i) (applying c ! i)" and len: "length (delivered c) = size_of c"
    using inv i by (auto simp: applier_inv_def)
  from False consider j where "e = ApplyNext j" | j where "e = Applied j" | j now where "e = Crash j now" "j \<noteq> i"
    using assms(4) by (auto simp: others_def split: event.splits)
  then show ?thesis
  proof cases
    case (1 j)
    with ex ok i apply_ok_next(2) [of "nodes c ! i"] show ?thesis
      by (cases "j = i") (auto simp: set_node_def split: if_splits)
  next
    case (2 j)
    with ex ok i len apply_ok_done(2) [of "nodes c ! i"] show ?thesis
      by (cases "j = i") (auto simp: set_node_def apply_ok_def split: if_splits option.splits)
  next
    case (3 j now)
    with ex show ?thesis by (auto simp: crash_def set_node_def Let_def split: if_splits)
  qed
qed

text \<open>
  C11. What a server hands to its service between two crashes is in order and without gaps: each
  message is the command at the next index or a snapshot that goes further, whatever the other
  goroutines, the other servers and the network do in between; and the server's record of what is
  applied is the index of the last message.
\<close>

theorem applier_in_order:
  assumes "reachable n c" and "i < n" and "run es c = Some c'" and "\<forall>now. Crash i now \<notin> set es"
  shows "\<exists>ms. delivered c' ! i = delivered c ! i @ ms \<and> in_sequence (lastApplied (nodes c ! i)) ms \<and>
    lastApplied (nodes c' ! i) = reached (lastApplied (nodes c ! i)) ms"
proof -
  have "applier_inv c" by (rule reachable_applier_inv [OF assms(1)])
  moreover have "i < size_of c" using assms(2) reachable_size [OF assms(1)] by simp
  ultimately show ?thesis using assms(3,4)
  proof (induction es arbitrary: c)
    case Nil
    then show ?case by (auto simp: reached_def)
  next
    case (Cons e es)
    then obtain c1 where c1: "exec e c = Some c1" "run es c1 = Some c'" by (auto simp: bind_eq_Some_conv)
    have inv1: "applier_inv c1" by (rule exec_applier_inv [OF Cons.prems(1) c1(1)])
    have "size_of c1 = size_of c" by (rule exec_size [OF c1(1)])
    with Cons.IH [OF inv1 _ c1(2)] Cons.prems(2,4) obtain ms where ms: "delivered c' ! i = delivered c1 ! i @ ms"
      "in_sequence (lastApplied (nodes c1 ! i)) ms" "lastApplied (nodes c' ! i) = reached (lastApplied (nodes c1 ! i)) ms"
      by auto
    have "\<forall>now. e \<noteq> Crash i now" using Cons.prems(4) by auto
    from exec_delivered [OF Cons.prems(1,2) c1(1) this] show ?case
    proof (elim disjE exE conjE)
      fix m assume "delivered c1 ! i = delivered c ! i @ [m]" "follows (lastApplied (nodes c ! i)) m"
        "lastApplied (nodes c1 ! i) = msg_index m"
      with ms show ?thesis by (intro exI [of _ "m # ms"]) (auto simp: reached_def)
    qed (use ms in auto)
  qed
qed

definition apply_trace :: "(nat, unit) event list" where
  "apply_trace = [Elect 0 0, Deliver 0 0, Return 0 0, ClientStart 0 5, ClientStart 0 6,
     Replicate 0 1, Deliver 2 0, Return 2 0, ApplyNext 0, Applied 0, ApplyNext 0, Applied 0]"

theorem applier_in_order_witness:
  "\<exists>c' :: (nat, unit) cluster. run apply_trace (initial 3) = Some c' \<and>
     delivered c' ! 0 = [CommandMsg (Some 5) 1, CommandMsg (Some 6) 2] \<and> in_sequence 0 (delivered c' ! 0)"
proof -
  have "map_option delivered (run apply_trace (initial 3)) = Some [[CommandMsg (Some 5) 1, CommandMsg (Some 6) 2], [], []]"
    by code_simp
  then obtain c' :: "(nat, unit) cluster" where c': "run apply_trace (initial 3) = Some c'"
    "delivered c' = [[CommandMsg (Some 5) 1, CommandMsg (Some 6) 2], [], []]" by auto
  have init: "delivered (initial 3) ! 0 = []" "lastApplied (nodes (initial 3) ! 0) = 0"
    by (simp_all add: initial_def Make_def readPersist_def ReadRaftState_def MakePersister_def)
  have "\<forall>now. Crash 0 now \<notin> set apply_trace" by (simp add: apply_trace_def)
  from applier_in_order [OF reachable_initial _ c'(1) this] init c' show ?thesis by auto
qed

end
