(* ===== verification/Rsm.thy ===== *)
theory Rsm
  imports Rpcapi State_Machine Raft_Node "HOL-Library.AList"
begin

text \<open>
  The replication layer \<open>kvraft/rsm/rsm.go\<close> between a state machine and its Raft peer: one goroutine
  (\<open>readApply\<close>) executes what Raft has committed and hands each result to the \<open>Submit\<close> that waits
  for that log index, if any; Submits register a channel under the mutex, wait, poll their
  leadership and give up at a deadline. Every section that runs without waiting is one event; the
  scheduler is an arbitrary list of events. An event that is not enabled (its goroutine waits for
  the mutex, a channel or a message) changes nothing; \<open>None\<close> is a panic. The state machine is a
  parameter: \<open>do_op\<close>, \<open>snap\<close> and \<open>restore\<close>; the Raft peer is the record of \<open>Raft_Node\<close>, which its
  other goroutines may change between any two events.
\<close>

section \<open>State\<close>

type_synonym int64 = "64 word"

record 'q Op =
  op_Me :: int
  op_Id :: int64
  op_Req :: 'q

record 'p applyResult =
  ar_opId :: int64
  ar_value :: "'p option"

text \<open>
  Where a call of \<open>Submit\<close> is: past the check of leadership, waiting, about to clean up after giving
  up, with a result in hand, or done. Its channel of capacity one is part of it.
\<close>

datatype 'p submit_pc = Checked | Waiting | Leaving | Received "'p applyResult" | Done Err "'p option"

record ('q, 'p) submission =
  sub_OpId :: int64
  sub_Req :: 'q
  sub_commandId :: int
  sub_termAtStart :: int
  sub_deadline :: int
  sub_resultCh :: "'p applyResult option"
  sub_pc :: "'p submit_pc"

text \<open>
  Where \<open>readApply\<close> is: waiting for a message, about to look for the Submit of an index, sending a
  result, about to take the mutex after restoring a snapshot, notifying Submits while it holds the
  mutex, or past its loop.
\<close>

datatype 'p reader =
    Ready
  | Lookup int "'p applyResult"
  | SendResult nat "'p applyResult"
  | SnapLock int
  | SnapSends "nat list"
  | Ended

record ('q, 'p, 's, 'b) RSM =
  rsm_me :: int
  rsm_rf :: "('q Op, 'b) Raft"
  rsm_maxraftstate :: int
  rsm_sm :: 's
  rsm_resultByCommandId :: "(int \<times> nat) list"
  rsm_opId :: int64
  rsm_stopSubmit :: bool
  rsm_reader :: "'p reader"
  rsm_subs :: "('q, 'p) submission list"
  rsm_history :: "(int \<times> 'q Op \<times> 'p) list" \<comment> \<open>what has been executed, for the statements only\<close>

section \<open>Operations\<close>

definition MakeRSM ::
    "('s \<Rightarrow> 'b option \<Rightarrow> 's option) \<Rightarrow> nat \<Rightarrow> nat \<Rightarrow> ('q Op, 'b) Persister \<Rightarrow> int \<Rightarrow> 's \<Rightarrow> int \<Rightarrow>
     ('q, 'p, 's, 'b) RSM option" where
  "MakeRSM restore servers i ps maxraftstate sm now = do {
     sm' \<leftarrow> (if ReadSnapshot ps \<noteq> None then restore sm (ReadSnapshot ps) else Some sm);
     Some \<lparr>rsm_me = int i, rsm_rf = Make servers i ps now, rsm_maxraftstate = maxraftstate,
       rsm_sm = sm', rsm_resultByCommandId = [], rsm_opId = 0, rsm_stopSubmit = False,
       rsm_reader = Ready, rsm_subs = [], rsm_history = []\<rparr> }"

definition nextOpId :: "('q, 'p, 's, 'b) RSM \<Rightarrow> ('q, 'p, 's, 'b) RSM \<times> int64" where
  "nextOpId r = (r\<lparr>rsm_opId := rsm_opId r + 1\<rparr>, rsm_opId r + 1)"

text \<open>The mutex is free unless \<open>readApply\<close> notifies Submits of a snapshot.\<close>

definition mu_free :: "('q, 'p, 's, 'b) RSM \<Rightarrow> bool" where
  "mu_free r \<longleftrightarrow> (case rsm_reader r of SnapSends ks \<Rightarrow> False | _ \<Rightarrow> True)"

definition set_sub :: "nat \<Rightarrow> ('q, 'p) submission \<Rightarrow> ('q, 'p, 's, 'b) RSM \<Rightarrow> ('q, 'p, 's, 'b) RSM" where
  "set_sub k s r = r\<lparr>rsm_subs := (rsm_subs r)[k := s]\<rparr>"

text \<open>\<open>Submit\<close> up to its check of leadership.\<close>

definition Submit_check :: "'q \<Rightarrow> ('q, 'p, 's, 'b) RSM \<Rightarrow> ('q, 'p, 's, 'b) RSM" where
  "Submit_check req r0 = (case nextOpId r0 of (r, opId) \<Rightarrow>
     let (_, isLeader) = GetState (rsm_rf r)
     in r\<lparr>rsm_subs := rsm_subs r @ [\<lparr>sub_OpId = opId, sub_Req = req, sub_commandId = - 1, sub_termAtStart = - 1,
          sub_deadline = 0, sub_resultCh = None,
          sub_pc = (if isLeader then Checked else Done ErrWrongLeader None)\<rparr>]\<rparr>)"

text \<open>Under the mutex: start the command and register the channel.\<close>

definition Submit_start :: "nat \<Rightarrow> int \<Rightarrow> ('q, 'p, 's, 'b) RSM \<Rightarrow> ('q, 'p, 's, 'b) RSM" where
  "Submit_start k now r = (let s = rsm_subs r ! k in
     case Start \<lparr>op_Me = rsm_me r, op_Id = sub_OpId s, op_Req = sub_Req s\<rparr> (rsm_rf r) of
       (rf, commandId, termAtStart, isLeader) \<Rightarrow>
         if \<not> isLeader then set_sub k (s\<lparr>sub_pc := Done ErrWrongLeader None\<rparr>) r
         else (set_sub k (s\<lparr>sub_commandId := commandId, sub_termAtStart := termAtStart,
                 sub_deadline := now + 2000, sub_pc := Waiting\<rparr>) r)\<lparr>rsm_rf := rf,
                 rsm_resultByCommandId := AList.update commandId k (rsm_resultByCommandId r)\<rparr>)"

text \<open>The poll every 100 ms.\<close>

definition Submit_poll :: "nat \<Rightarrow> int \<Rightarrow> ('q, 'p, 's, 'b) RSM \<Rightarrow> ('q, 'p, 's, 'b) RSM" where
  "Submit_poll k now r = (let s = rsm_subs r ! k; (currentTerm, isStillLeader) = GetState (rsm_rf r) in
     if \<not> isStillLeader \<or> sub_termAtStart s \<noteq> currentTerm \<or> sub_deadline s < now
     then set_sub k (s\<lparr>sub_pc := Leaving\<rparr>) r else r)"

text \<open>Clean up and return, with and without a result.\<close>

definition delete_result :: "nat \<Rightarrow> ('q, 'p, 's, 'b) RSM \<Rightarrow> ('q, 'p, 's, 'b) RSM" where
  "delete_result k r = r\<lparr>rsm_resultByCommandId :=
     AList.delete (sub_commandId (rsm_subs r ! k)) (rsm_resultByCommandId r)\<rparr>"

definition Submit_leave :: "nat \<Rightarrow> ('q, 'p, 's, 'b) RSM \<Rightarrow> ('q, 'p, 's, 'b) RSM" where
  "Submit_leave k r = set_sub k ((rsm_subs r ! k)\<lparr>sub_pc := Done ErrWrongLeader None\<rparr>) (delete_result k r)"

definition Submit_finish :: "nat \<Rightarrow> 'p applyResult \<Rightarrow> ('q, 'p, 's, 'b) RSM \<Rightarrow> ('q, 'p, 's, 'b) RSM" where
  "Submit_finish k res r = (let s = rsm_subs r ! k in
     set_sub k (s\<lparr>sub_pc := if ar_opId res \<noteq> sub_OpId s then Done ErrWrongLeader None
                           else Done OK (ar_value res)\<rparr>) (delete_result k r))"

text \<open>\<open>readApply\<close> takes a message: execute a command, snapshot if the log is large; restore a snapshot.\<close>

definition readApply_command ::
    "('s \<Rightarrow> 'q \<Rightarrow> ('s \<times> 'p) option) \<Rightarrow> ('s \<Rightarrow> 'b option) \<Rightarrow> ('q Op PersistedState \<Rightarrow> int) \<Rightarrow>
     'q Op \<Rightarrow> int \<Rightarrow> ('q, 'p, 's, 'b) RSM \<Rightarrow> ('q, 'p, 's, 'b) RSM option" where
  "readApply_command do_op snap bytes_of opMsg commandId r = do {
     (sm, result) \<leftarrow> do_op (rsm_sm r) (op_Req opMsg);
     rf \<leftarrow> (if rsm_maxraftstate r \<noteq> - 1 \<and> rsm_maxraftstate r \<le> PersistBytes bytes_of (rsm_rf r)
           then Snapshot commandId (snap sm) (rsm_rf r) else Some (rsm_rf r));
     Some (r\<lparr>rsm_sm := sm, rsm_rf := rf, rsm_history := rsm_history r @ [(commandId, opMsg, result)],
       rsm_reader := Lookup commandId \<lparr>ar_opId = op_Id opMsg, ar_value = Some result\<rparr>\<rparr>) }"

definition readApply_snapshot ::
    "('s \<Rightarrow> 'b option \<Rightarrow> 's option) \<Rightarrow> 'b option \<Rightarrow> int \<Rightarrow> ('q, 'p, 's, 'b) RSM \<Rightarrow> ('q, 'p, 's, 'b) RSM option" where
  "readApply_snapshot restore data snapshotIndex r = do {
     sm \<leftarrow> restore (rsm_sm r) data;
     Some (r\<lparr>rsm_sm := sm, rsm_reader := SnapLock snapshotIndex\<rparr>) }"

text \<open>A message without a command fails the type assertion.\<close>

fun readApply ::
    "('s \<Rightarrow> 'q \<Rightarrow> ('s \<times> 'p) option) \<Rightarrow> ('s \<Rightarrow> 'b option) \<Rightarrow> ('s \<Rightarrow> 'b option \<Rightarrow> 's option) \<Rightarrow>
     ('q Op PersistedState \<Rightarrow> int) \<Rightarrow> ('q Op, 'b) ApplyMsg \<Rightarrow> ('q, 'p, 's, 'b) RSM \<Rightarrow> ('q, 'p, 's, 'b) RSM option" where
  "readApply do_op snap restore bytes_of (CommandMsg None i) r = None"
| "readApply do_op snap restore bytes_of (CommandMsg (Some opMsg) i) r = readApply_command do_op snap bytes_of opMsg i r"
| "readApply do_op snap restore bytes_of (SnapshotMsg data t i) r = readApply_snapshot restore data i r"

definition readApply_lookup :: "int \<Rightarrow> 'p applyResult \<Rightarrow> ('q, 'p, 's, 'b) RSM \<Rightarrow> ('q, 'p, 's, 'b) RSM" where
  "readApply_lookup commandId res r = r\<lparr>rsm_reader :=
     (case map_of (rsm_resultByCommandId r) commandId of None \<Rightarrow> Ready | Some k \<Rightarrow> SendResult k res)\<rparr>"

text \<open>A send waits while the channel holds a value.\<close>

definition try_send :: "nat \<Rightarrow> 'p applyResult \<Rightarrow> 'p reader \<Rightarrow> ('q, 'p, 's, 'b) RSM \<Rightarrow> ('q, 'p, 's, 'b) RSM" where
  "try_send k res next r = (let s = rsm_subs r ! k in
     if sub_resultCh s = None
     then (set_sub k (s\<lparr>sub_resultCh := Some res\<rparr>) r)\<lparr>rsm_reader := next\<rparr> else r)"

fun readApply_send :: "'p reader \<Rightarrow> ('q, 'p, 's, 'b) RSM \<Rightarrow> ('q, 'p, 's, 'b) RSM" where
  "readApply_send (SendResult k res) r = try_send k res Ready r"
| "readApply_send (SnapSends []) r = r\<lparr>rsm_reader := Ready\<rparr>"
| "readApply_send (SnapSends (k # ks)) r = try_send k \<lparr>ar_opId = - 1, ar_value = None\<rparr> (SnapSends ks) r"
| "readApply_send _ r = r"

section \<open>Events\<close>

datatype ('q, 'p, 'b) rsm_event =
    EvSubmit 'q
  | EvStart nat int
  | EvPoll nat int
  | EvStop nat            \<comment> \<open>the stop channel is closed\<close>
  | EvLeave nat
  | EvRecv nat
  | EvFinish nat
  | EvApply "('q Op, 'b) ApplyMsg"
  | EvLookup
  | EvSnapLock "int list" \<comment> \<open>the order in which the map is iterated\<close>
  | EvSend
  | EvClose
  | EvRaft "('q Op, 'b) Raft"

definition notified :: "(int \<times> nat) list \<Rightarrow> int \<Rightarrow> int set" where
  "notified m i = set (filter (\<lambda>j. j \<le> i) (map fst m))"

fun rsm_exec ::
    "('s \<Rightarrow> 'q \<Rightarrow> ('s \<times> 'p) option) \<Rightarrow> ('s \<Rightarrow> 'b option) \<Rightarrow> ('s \<Rightarrow> 'b option \<Rightarrow> 's option) \<Rightarrow>
     ('q Op PersistedState \<Rightarrow> int) \<Rightarrow> ('q, 'p, 'b) rsm_event \<Rightarrow> ('q, 'p, 's, 'b) RSM \<Rightarrow> ('q, 'p, 's, 'b) RSM option" where
  "rsm_exec do_op snap restore bytes_of (EvSubmit q) r = Some (Submit_check q r)"
| "rsm_exec do_op snap restore bytes_of (EvStart k now) r = Some
     (if k < length (rsm_subs r) \<and> (case sub_pc (rsm_subs r ! k) of Checked \<Rightarrow> True | _ \<Rightarrow> False) \<and> mu_free r
      then Submit_start k now r else r)"
| "rsm_exec do_op snap restore bytes_of (EvPoll k now) r = Some
     (if k < length (rsm_subs r) \<and> (case sub_pc (rsm_subs r ! k) of Waiting \<Rightarrow> True | _ \<Rightarrow> False)
      then Submit_poll k now r else r)"
| "rsm_exec do_op snap restore bytes_of (EvStop k) r = Some
     (if k < length (rsm_subs r) \<and> (case sub_pc (rsm_subs r ! k) of Waiting \<Rightarrow> True | _ \<Rightarrow> False) \<and> rsm_stopSubmit r
      then set_sub k ((rsm_subs r ! k)\<lparr>sub_pc := Leaving\<rparr>) r else r)"
| "rsm_exec do_op snap restore bytes_of (EvLeave k) r = Some
     (if k < length (rsm_subs r) \<and> (case sub_pc (rsm_subs r ! k) of Leaving \<Rightarrow> True | _ \<Rightarrow> False) \<and> mu_free r
      then Submit_leave k r else r)"
| "rsm_exec do_op snap restore bytes_of (EvRecv k) r = Some
     (if k < length (rsm_subs r) then
        (case (sub_pc (rsm_subs r ! k), sub_resultCh (rsm_subs r ! k)) of
           (Waiting, Some res) \<Rightarrow> set_sub k ((rsm_subs r ! k)\<lparr>sub_resultCh := None, sub_pc := Received res\<rparr>) r
         | _ \<Rightarrow> r)
      else r)"
| "rsm_exec do_op snap restore bytes_of (EvFinish k) r = Some
     (if k < length (rsm_subs r) \<and> mu_free r then
        (case sub_pc (rsm_subs r ! k) of Received res \<Rightarrow> Submit_finish k res r | _ \<Rightarrow> r) else r)"
| "rsm_exec do_op snap restore bytes_of (EvApply m) r =
     (case rsm_reader r of Ready \<Rightarrow> readApply do_op snap restore bytes_of m r | _ \<Rightarrow> Some r)"
| "rsm_exec do_op snap restore bytes_of EvLookup r = Some
     (case rsm_reader r of Lookup i res \<Rightarrow> readApply_lookup i res r | _ \<Rightarrow> r)"
| "rsm_exec do_op snap restore bytes_of (EvSnapLock order) r = Some
     (case rsm_reader r of
        SnapLock i \<Rightarrow>
          if distinct order \<and> set order = notified (rsm_resultByCommandId r) i
          then r\<lparr>rsm_reader := SnapSends (map (the o map_of (rsm_resultByCommandId r)) order)\<rparr> else r
      | _ \<Rightarrow> r)"
| "rsm_exec do_op snap restore bytes_of EvSend r = Some (readApply_send (rsm_reader r) r)"
| "rsm_exec do_op snap restore bytes_of EvClose r = Some
     (case rsm_reader r of Ready \<Rightarrow> r\<lparr>rsm_reader := Ended, rsm_stopSubmit := True\<rparr> | _ \<Rightarrow> r)"
| "rsm_exec do_op snap restore bytes_of (EvRaft rf) r = Some (r\<lparr>rsm_rf := rf\<rparr>)"

fun rsm_run ::
    "('s \<Rightarrow> 'q \<Rightarrow> ('s \<times> 'p) option) \<Rightarrow> ('s \<Rightarrow> 'b option) \<Rightarrow> ('s \<Rightarrow> 'b option \<Rightarrow> 's option) \<Rightarrow>
     ('q Op PersistedState \<Rightarrow> int) \<Rightarrow> ('q, 'p, 'b) rsm_event list \<Rightarrow> ('q, 'p, 's, 'b) RSM \<Rightarrow> ('q, 'p, 's, 'b) RSM option" where
  "rsm_run do_op snap restore bytes_of [] r = Some r"
| "rsm_run do_op snap restore bytes_of (e # es) r = do {
     r' \<leftarrow> rsm_exec do_op snap restore bytes_of e r;
     rsm_run do_op snap restore bytes_of es r' }"

section \<open>Where results come from\<close>

text \<open>A result for an index, unless it is the mark of a snapshot, is that of a command executed at the index.\<close>

definition good :: "(int \<times> 'q Op \<times> 'p) list \<Rightarrow> int \<Rightarrow> 'p applyResult \<Rightarrow> bool" where
  "good H i res \<longleftrightarrow> ar_opId res = - 1 \<or>
     (\<exists>op v. (i, op, v) \<in> set H \<and> op_Id op = ar_opId res \<and> ar_value res = Some v)"

definition started :: "('q, 'p) submission \<Rightarrow> bool" where
  "started s \<longleftrightarrow> sub_pc s \<noteq> Checked"

definition sub_ok :: "(int \<times> 'q Op \<times> 'p) list \<Rightarrow> ('q, 'p) submission \<Rightarrow> bool" where
  "sub_ok H s \<longleftrightarrow> (\<not> started s \<longrightarrow> sub_resultCh s = None) \<and>
     (\<forall>res. sub_resultCh s = Some res \<longrightarrow> good H (sub_commandId s) res) \<and>
     (\<forall>res. sub_pc s = Received res \<longrightarrow> good H (sub_commandId s) res) \<and>
     (\<forall>x. sub_pc s = Done OK x \<longrightarrow> good H (sub_commandId s) \<lparr>ar_opId = sub_OpId s, ar_value = x\<rparr>)"

definition reader_ok :: "('q, 'p, 's, 'b) RSM \<Rightarrow> bool" where
  "reader_ok r \<longleftrightarrow> (case rsm_reader r of
       Lookup i res \<Rightarrow> good (rsm_history r) i res
     | SendResult k res \<Rightarrow> k < length (rsm_subs r) \<and> started (rsm_subs r ! k) \<and>
         good (rsm_history r) (sub_commandId (rsm_subs r ! k)) res
     | SnapSends ks \<Rightarrow> \<forall>k \<in> set ks. k < length (rsm_subs r) \<and> started (rsm_subs r ! k)
     | _ \<Rightarrow> True)"

definition map_ok :: "('q, 'p, 's, 'b) RSM \<Rightarrow> bool" where
  "map_ok r \<longleftrightarrow> (\<forall>(i, k) \<in> set (rsm_resultByCommandId r).
     k < length (rsm_subs r) \<and> started (rsm_subs r ! k) \<and> sub_commandId (rsm_subs r ! k) = i)"

definition rsm_inv :: "('q, 'p, 's, 'b) RSM \<Rightarrow> bool" where
  "rsm_inv r \<longleftrightarrow> list_all (sub_ok (rsm_history r)) (rsm_subs r) \<and> map_ok r \<and> reader_ok r"

lemma reader_ok_cong:
  "rsm_reader r = rsm_reader r' \<Longrightarrow> rsm_history r = rsm_history r' \<Longrightarrow> rsm_subs r = rsm_subs r' \<Longrightarrow>
     reader_ok r = reader_ok r'"
  by (simp only: reader_ok_def)

lemma good_mono: "good H i res \<Longrightarrow> set H \<subseteq> set H' \<Longrightarrow> good H' i res"
  by (auto simp: good_def)

lemma sub_ok_mono: "sub_ok H s \<Longrightarrow> set H \<subseteq> set H' \<Longrightarrow> sub_ok H' s"
  by (auto simp: sub_ok_def intro: good_mono)

lemma rsm_invD:
  assumes "rsm_inv r" and "k < length (rsm_subs r)"
  shows "sub_ok (rsm_history r) (rsm_subs r ! k)"
  using assms by (simp add: rsm_inv_def list_all_length)

text \<open>Replacing a submission by one that has started and keeps its index.\<close>

lemma set_sub_inv:
  assumes inv: "rsm_inv r" and k: "k < length (rsm_subs r)" and "sub_ok (rsm_history r) s" "started s"
    and "sub_commandId s = sub_commandId (rsm_subs r ! k)"
  shows "rsm_inv (set_sub k s r)"
proof -
  have st: "started ((rsm_subs r)[k := s] ! j)" if "started (rsm_subs r ! j)" for j
    using that assms(2,4) by (cases "j = k") auto
  have id: "sub_commandId ((rsm_subs r)[k := s] ! j) = sub_commandId (rsm_subs r ! j)" for j
    using assms(2,5) by (cases "j = k") auto
  have "list_all (sub_ok (rsm_history r)) ((rsm_subs r)[k := s])"
    using inv assms(3) set_update_subset_insert [of "rsm_subs r" k s] by (auto simp: rsm_inv_def list_all_iff)
  moreover have "map_ok (set_sub k s r)" using inv st id by (fastforce simp: rsm_inv_def map_ok_def set_sub_def)
  moreover have "reader_ok (set_sub k s r)"
    using inv st id by (auto simp: rsm_inv_def reader_ok_def set_sub_def split: reader.splits)
  ultimately show ?thesis by (simp add: rsm_inv_def set_sub_def)
qed

lemma map_ok_delete: "map_ok r \<Longrightarrow> map_ok (r\<lparr>rsm_resultByCommandId := AList.delete i (rsm_resultByCommandId r)\<rparr>)"
  unfolding map_ok_def by (auto simp: AList.delete_eq)

lemma delete_result_inv:
  assumes "rsm_inv r" shows "rsm_inv (delete_result k r)"
proof -
  have "reader_ok (delete_result k r) = reader_ok r"
    by (rule reader_ok_cong) (simp_all add: delete_result_def)
  with assms map_ok_delete [of r] show ?thesis by (simp add: rsm_inv_def delete_result_def)
qed

lemma reader_inv:
  assumes "rsm_inv r" and "reader_ok (r\<lparr>rsm_reader := x\<rparr>)"
  shows "rsm_inv (r\<lparr>rsm_reader := x\<rparr>)"
  using assms by (simp add: rsm_inv_def map_ok_def)

lemma Submit_check_inv:
  assumes "rsm_inv r" shows "rsm_inv (Submit_check q r)"
proof -
  define s where "s = last (rsm_subs (Submit_check q r))"
  have f: "rsm_subs (Submit_check q r) = rsm_subs r @ [s]" "rsm_history (Submit_check q r) = rsm_history r"
    "rsm_resultByCommandId (Submit_check q r) = rsm_resultByCommandId r"
    "rsm_reader (Submit_check q r) = rsm_reader r"
    by (simp_all add: s_def Submit_check_def nextOpId_def GetState_def)
  have "sub_ok (rsm_history r) s"
    by (simp add: s_def Submit_check_def nextOpId_def GetState_def sub_ok_def started_def)
  with assms f show ?thesis
    by (auto simp: rsm_inv_def map_ok_def reader_ok_def nth_append split: reader.splits)
qed

lemma Submit_start_inv:
  assumes inv: "rsm_inv r" and k: "k < length (rsm_subs r)" and pc: "sub_pc (rsm_subs r ! k) = Checked"
  shows "rsm_inv (Submit_start k now r)"
proof -
  let ?s = "rsm_subs r ! k"
  have ch: "sub_resultCh ?s = None" using rsm_invD [OF inv k] pc by (simp add: sub_ok_def started_def)
  have ne: "j \<noteq> k" if "started (rsm_subs r ! j)" for j using that pc by (auto simp: started_def)
  obtain rf i t ld where S: "Start \<lparr>op_Me = rsm_me r, op_Id = sub_OpId ?s, op_Req = sub_Req ?s\<rparr> (rsm_rf r) = (rf, i, t, ld)"
    by (cases "Start \<lparr>op_Me = rsm_me r, op_Id = sub_OpId ?s, op_Req = sub_Req ?s\<rparr> (rsm_rf r)") auto
  show ?thesis
  proof (cases ld)
    case False
    have "rsm_inv (set_sub k (?s\<lparr>sub_pc := Done ErrWrongLeader None\<rparr>) r)"
      by (rule set_sub_inv [OF inv k]) (use ch in \<open>auto simp: sub_ok_def started_def\<close>)
    with False S show ?thesis by (simp add: Submit_start_def)
  next
    case True
    define s where "s = ?s\<lparr>sub_commandId := i, sub_termAtStart := t, sub_deadline := now + 2000, sub_pc := Waiting\<rparr>"
    have r': "Submit_start k now r = (set_sub k s r)\<lparr>rsm_rf := rf, rsm_resultByCommandId := AList.update i k (rsm_resultByCommandId r)\<rparr>"
      using True S by (simp add: Submit_start_def s_def)
    have s: "started s" "sub_ok (rsm_history r) s" "sub_commandId s = i" using ch by (auto simp: s_def started_def sub_ok_def)
    have old: "(rsm_subs r)[k := s] ! j = rsm_subs r ! j" if "started (rsm_subs r ! j)" for j using ne [OF that] by simp
    have "list_all (sub_ok (rsm_history r)) ((rsm_subs r)[k := s])"
      using inv s(2) set_update_subset_insert [of "rsm_subs r" k s] by (auto simp: rsm_inv_def list_all_iff)
    moreover have "j < length (rsm_subs r) \<and> started ((rsm_subs r)[k := s] ! j) \<and> sub_commandId ((rsm_subs r)[k := s] ! j) = m"
      if "(m, j) \<in> set (AList.update i k (rsm_resultByCommandId r))" for m j
    proof -
      from that consider "m = i" "j = k" | "(m, j) \<in> set (rsm_resultByCommandId r)"
        using alist_update_subset [of i k "rsm_resultByCommandId r"] by auto
      then show ?thesis
      proof cases
        case 2
        with inv have "j < length (rsm_subs r)" "started (rsm_subs r ! j)" "sub_commandId (rsm_subs r ! j) = m"
          by (auto simp: rsm_inv_def map_ok_def)
        with old show ?thesis by simp
      qed (use k s in simp)
    qed
    then have "map_ok (Submit_start k now r)" by (auto simp: map_ok_def r' set_sub_def)
    moreover have "reader_ok (Submit_start k now r)"
      using inv old by (auto simp: r' rsm_inv_def reader_ok_def set_sub_def split: reader.splits)
    ultimately show ?thesis by (simp add: rsm_inv_def r' set_sub_def)
  qed
qed

lemma sub_pc_inv:
  assumes inv: "rsm_inv r" and k: "k < length (rsm_subs r)" and "started (rsm_subs r ! k)" and "pc \<noteq> Checked"
    and "\<And>res. pc = Received res \<Longrightarrow> good (rsm_history r) (sub_commandId (rsm_subs r ! k)) res"
    and "\<And>x. pc = Done OK x \<Longrightarrow>
      good (rsm_history r) (sub_commandId (rsm_subs r ! k)) \<lparr>ar_opId = sub_OpId (rsm_subs r ! k), ar_value = x\<rparr>"
  shows "rsm_inv (set_sub k ((rsm_subs r ! k)\<lparr>sub_pc := pc\<rparr>) r)"
  by (rule set_sub_inv [OF inv k]) (use rsm_invD [OF inv k] assms(3-6) in \<open>auto simp: sub_ok_def started_def\<close>)

lemma delete_result_simps [simp]:
  "rsm_subs (delete_result k r) = rsm_subs r" "rsm_history (delete_result k r) = rsm_history r"
  by (simp_all add: delete_result_def)

lemma Submit_finish_inv:
  assumes inv: "rsm_inv r" and k: "k < length (rsm_subs r)" and pc: "sub_pc (rsm_subs r ! k) = Received res"
  shows "rsm_inv (Submit_finish k res r)"
proof -
  have g: "good (rsm_history r) (sub_commandId (rsm_subs r ! k)) res"
    using rsm_invD [OF inv k] pc by (simp add: sub_ok_def)
  have "rsm_inv (set_sub k ((rsm_subs (delete_result k r) ! k)\<lparr>sub_pc :=
      if ar_opId res \<noteq> sub_OpId (rsm_subs r ! k) then Done ErrWrongLeader None else Done OK (ar_value res)\<rparr>) (delete_result k r))"
    by (rule sub_pc_inv [OF delete_result_inv [OF inv]]) (use k pc g in \<open>auto simp: started_def good_def split: if_splits\<close>)
  then show ?thesis by (simp add: Submit_finish_def Let_def)
qed

lemma Submit_leave_inv:
  assumes "rsm_inv r" and "k < length (rsm_subs r)" and "started (rsm_subs r ! k)"
  shows "rsm_inv (Submit_leave k r)"
  using sub_pc_inv [OF delete_result_inv [OF assms(1)], of k k "Done ErrWrongLeader None"] assms(2,3)
  by (simp add: Submit_leave_def)

lemma try_send_inv:
  assumes inv: "rsm_inv r" and k: "k < length (rsm_subs r)" "started (rsm_subs r ! k)"
    and g: "good (rsm_history r) (sub_commandId (rsm_subs r ! k)) res"
    and x: "x = Ready \<or> (\<exists>ks. x = SnapSends ks \<and> (\<forall>j \<in> set ks. j < length (rsm_subs r) \<and> started (rsm_subs r ! j)))"
  shows "rsm_inv (try_send k res x r)"
proof (cases "sub_resultCh (rsm_subs r ! k)")
  case None
  let ?r = "set_sub k ((rsm_subs r ! k)\<lparr>sub_resultCh := Some res\<rparr>) r"
  have "rsm_inv ?r"
    by (rule set_sub_inv [OF inv k(1)]) (use rsm_invD [OF inv k(1)] k(2) g in \<open>auto simp: sub_ok_def started_def\<close>)
  moreover have st: "started (rsm_subs ?r ! j)" if "started (rsm_subs r ! j)" for j
    using that k by (cases "j = k") (auto simp: set_sub_def started_def)
  have "reader_ok (?r\<lparr>rsm_reader := x\<rparr>)" using x st by (auto simp: reader_ok_def) (simp add: set_sub_def)
  ultimately show ?thesis using None by (simp add: try_send_def reader_inv)
qed (use inv in \<open>simp add: try_send_def\<close>)

lemma readApply_send_inv:
  assumes inv: "rsm_inv r"
  shows "rsm_inv (readApply_send (rsm_reader r) r)"
proof (cases "rsm_reader r")
  case (SendResult k res)
  then have "k < length (rsm_subs r)" "started (rsm_subs r ! k)" "good (rsm_history r) (sub_commandId (rsm_subs r ! k)) res"
    using inv by (auto simp: rsm_inv_def reader_ok_def)
  from try_send_inv [OF inv this, of Ready] SendResult show ?thesis by simp
next
  case (SnapSends ks)
  show ?thesis
  proof (cases ks)
    case Nil
    with SnapSends inv show ?thesis by (simp add: reader_inv reader_ok_def)
  next
    case (Cons k js)
    then have k: "k < length (rsm_subs r)" "started (rsm_subs r ! k)"
      and js: "\<forall>j \<in> set js. j < length (rsm_subs r) \<and> started (rsm_subs r ! j)"
      using inv SnapSends by (auto simp: rsm_inv_def reader_ok_def)
    have "good (rsm_history r) (sub_commandId (rsm_subs r ! k)) \<lparr>ar_opId = - 1, ar_value = None\<rparr>" by (simp add: good_def)
    from try_send_inv [OF inv k this, of "SnapSends js"] SnapSends Cons js show ?thesis by simp
  qed
qed (use inv in auto)

lemma readApply_inv:
  assumes inv: "rsm_inv r" and "readApply do_op snap restore bytes_of m r = Some r'"
  shows "rsm_inv r'"
proof (cases "(do_op, snap, restore, bytes_of, m, r)" rule: readApply.cases)
  case (2 _ _ _ _ opMsg i _)
  with assms(2) obtain sm v rf where r': "r' = r\<lparr>rsm_sm := sm, rsm_rf := rf, rsm_history := rsm_history r @ [(i, opMsg, v)],
      rsm_reader := Lookup i \<lparr>ar_opId = op_Id opMsg, ar_value = Some v\<rparr>\<rparr>"
    by (auto simp: readApply_command_def bind_eq_Some_conv)
  with inv show ?thesis
    by (auto simp: rsm_inv_def map_ok_def reader_ok_def good_def list_all_iff intro: sub_ok_mono)
next
  case (3 _ _ _ _ d t i _)
  with assms show ?thesis
    by (auto simp: readApply_snapshot_def bind_eq_Some_conv rsm_inv_def map_ok_def reader_ok_def)
qed (use assms in auto)

lemma rsm_inv_frame:
  assumes "rsm_inv r" and "rsm_subs r' = rsm_subs r" "rsm_history r' = rsm_history r"
    "rsm_resultByCommandId r' = rsm_resultByCommandId r" "rsm_reader r' = rsm_reader r"
  shows "rsm_inv r'"
  using assms reader_ok_cong [of r' r] by (simp add: rsm_inv_def map_ok_def)

lemma EvSnapLock_inv:
  assumes inv: "rsm_inv r" and "set order = notified (rsm_resultByCommandId r) i"
  shows "rsm_inv (r\<lparr>rsm_reader := SnapSends (map (the o map_of (rsm_resultByCommandId r)) order)\<rparr>)"
proof (rule reader_inv [OF inv])
  have "the (map_of (rsm_resultByCommandId r) j) < length (rsm_subs r) \<and>
      started (rsm_subs r ! the (map_of (rsm_resultByCommandId r) j))" if j: "j \<in> set order" for j
  proof -
    from j assms(2) have "j \<in> fst ` set (rsm_resultByCommandId r)" by (auto simp: notified_def)
    then obtain k where k: "map_of (rsm_resultByCommandId r) j = Some k" by (metis map_of_eq_None_iff option.exhaust)
    from map_of_SomeD [OF this] inv have "k < length (rsm_subs r) \<and> started (rsm_subs r ! k)"
      by (auto simp: rsm_inv_def map_ok_def)
    with k show ?thesis by simp
  qed
  then show "reader_ok (r\<lparr>rsm_reader := SnapSends (map (the o map_of (rsm_resultByCommandId r)) order)\<rparr>)"
    by (simp add: reader_ok_def)
qed

lemma readApply_lookup_inv:
  assumes inv: "rsm_inv r" and "rsm_reader r = Lookup i res"
  shows "rsm_inv (readApply_lookup i res r)"
proof -
  have "good (rsm_history r) i res" using assms by (simp add: rsm_inv_def reader_ok_def)
  moreover have "k < length (rsm_subs r) \<and> started (rsm_subs r ! k) \<and> sub_commandId (rsm_subs r ! k) = i"
    if "map_of (rsm_resultByCommandId r) i = Some k" for k
    using map_of_SomeD [OF that] inv by (auto simp: rsm_inv_def map_ok_def)
  ultimately show ?thesis unfolding readApply_lookup_def
    by (intro reader_inv [OF inv]) (auto simp: reader_ok_def split: option.splits)
qed

lemma Submit_poll_inv:
  assumes "rsm_inv r" and "k < length (rsm_subs r)" and "sub_pc (rsm_subs r ! k) = Waiting"
  shows "rsm_inv (Submit_poll k now r)"
  using sub_pc_inv [OF assms(1,2), of Leaving] assms by (simp add: Submit_poll_def GetState_def started_def Let_def)

lemma EvRecv_inv:
  assumes inv: "rsm_inv r" and k: "k < length (rsm_subs r)"
    and "sub_pc (rsm_subs r ! k) = Waiting" "sub_resultCh (rsm_subs r ! k) = Some res"
  shows "rsm_inv (set_sub k ((rsm_subs r ! k)\<lparr>sub_resultCh := None, sub_pc := Received res\<rparr>) r)"
  by (rule set_sub_inv [OF inv k]) (use rsm_invD [OF inv k] assms(3,4) in \<open>auto simp: sub_ok_def started_def\<close>)

lemma rsm_exec_inv:
  assumes inv: "rsm_inv r" and ex: "rsm_exec do_op snap restore bytes_of e r = Some r'"
  shows "rsm_inv r'"
proof (cases e)
  case (EvStart k now)
  with ex inv Submit_start_inv [OF inv, of k now] show ?thesis by (auto split: if_splits submit_pc.splits)
next
  case (EvPoll k now)
  with ex inv Submit_poll_inv [OF inv, of k now] show ?thesis by (auto split: if_splits submit_pc.splits)
next
  case (EvStop k)
  with ex inv sub_pc_inv [OF inv, of k Leaving] show ?thesis
    by (auto simp: started_def split: if_splits submit_pc.splits)
next
  case (EvLeave k)
  with ex inv Submit_leave_inv [OF inv, of k] show ?thesis by (auto simp: started_def split: if_splits submit_pc.splits)
next
  case (EvRecv k)
  with ex inv EvRecv_inv [OF inv, of k] show ?thesis by (auto split: if_splits submit_pc.splits option.splits)
next
  case (EvFinish k)
  with ex inv Submit_finish_inv [OF inv, of k] show ?thesis by (auto split: if_splits submit_pc.splits)
next
  case (EvApply m)
  with ex inv readApply_inv [OF inv, of do_op snap restore bytes_of m r'] show ?thesis by (auto split: reader.splits)
next
  case EvLookup
  with ex inv readApply_lookup_inv [OF inv] show ?thesis by (auto split: reader.splits)
next
  case (EvSnapLock order)
  with ex inv EvSnapLock_inv [OF inv] show ?thesis by (auto split: reader.splits if_splits)
next
  case EvClose
  with ex inv show ?thesis by (auto simp: rsm_inv_def map_ok_def reader_ok_def split: reader.splits)
next
  case (EvRaft rf)
  with ex have "r' = r\<lparr>rsm_rf := rf\<rparr>" by simp
  with rsm_inv_frame [OF inv, of r'] show ?thesis by simp
qed (use ex inv Submit_check_inv readApply_send_inv in auto)

lemma rsm_run_inv:
  "rsm_inv r \<Longrightarrow> rsm_run do_op snap restore bytes_of es r = Some r' \<Longrightarrow> rsm_inv r'"
  by (induction es arbitrary: r) (auto simp: bind_eq_Some_conv intro: rsm_exec_inv)

lemma MakeRSM_inv: "MakeRSM restore n i ps maxraftstate sm now = Some r \<Longrightarrow> rsm_inv r"
  by (auto simp: MakeRSM_def bind_eq_Some_conv rsm_inv_def map_ok_def reader_ok_def split: if_splits)

text \<open>
  C12. A Submit that returns OK returns the result of a command that this server's state machine has
  executed, at the log index that Raft gave to the Submit and with the Submit's operation number
  (as long as the 64-bit counter of the server has not wrapped around to the mark of a snapshot).
\<close>

theorem Submit_OK_executed:
  assumes "MakeRSM restore n i ps maxraftstate sm now = Some r0"
    and "rsm_run do_op snap restore bytes_of es r0 = Some r" and "k < length (rsm_subs r)"
    and "sub_pc (rsm_subs r ! k) = Done OK x" and "sub_OpId (rsm_subs r ! k) \<noteq> - 1"
  shows "\<exists>op v. x = Some v \<and> (sub_commandId (rsm_subs r ! k), op, v) \<in> set (rsm_history r) \<and>
    op_Id op = sub_OpId (rsm_subs r ! k)"
proof -
  have "rsm_inv r" by (rule rsm_run_inv [OF MakeRSM_inv [OF assms(1)] assms(2)])
  from rsm_invD [OF this assms(3)] assms(4,5) show ?thesis by (auto simp: sub_ok_def good_def)
qed

text \<open>A machine that adds up the numbers it is sent, for examples.\<close>

definition sum_op :: "nat \<Rightarrow> nat \<Rightarrow> (nat \<times> nat) option" where
  "sum_op s q = Some (s + q, s + q)"

definition sum_snap :: "nat \<Rightarrow> nat option" where
  "sum_snap s = Some s"

definition sum_restore :: "nat \<Rightarrow> nat option \<Rightarrow> nat option" where
  "sum_restore s d = d"

definition leading :: "(nat Op, nat) Raft" where
  "leading = (Make 3 0 MakePersister 0)\<lparr>CurrentTerm := 1, state := leader\<rparr>"

definition submit_events :: "(nat, nat, nat) rsm_event list" where
  "submit_events = [EvRaft leading, EvSubmit 10, EvStart 0 0,
     EvApply (CommandMsg (Some \<lparr>op_Me = 0, op_Id = 1, op_Req = 10\<rparr>) 1), EvLookup, EvSend, EvRecv 0, EvFinish 0]"

definition sum_rsm :: "(nat, nat, nat, nat) RSM option" where
  "sum_rsm = MakeRSM sum_restore 3 0 MakePersister (- 1) 5 0"

definition sum_after :: "(nat, nat, nat) rsm_event list \<Rightarrow> (nat, nat, nat, nat) RSM option" where
  "sum_after es = do { r \<leftarrow> sum_rsm; rsm_run sum_op sum_snap sum_restore (\<lambda>_. 0) es r }"

theorem Submit_OK_executed_witness:
  "\<exists>r op. sum_after submit_events = Some r \<and> sub_pc (rsm_subs r ! 0) = Done OK (Some 15) \<and>
     (sub_commandId (rsm_subs r ! 0), op, 15) \<in> set (rsm_history r) \<and> op_Id op = sub_OpId (rsm_subs r ! 0)"
proof -
  have "map_option (\<lambda>r. map (\<lambda>s. (sub_pc s, sub_OpId s)) (rsm_subs r)) (sum_after submit_events) =
      Some [(Done OK (Some 15), 1)]" by code_simp
  then obtain r where r: "sum_after submit_events = Some r"
    "map (\<lambda>s. (sub_pc s, sub_OpId s)) (rsm_subs r) = [(Done OK (Some 15), 1)]" by auto
  then obtain r0 where r0: "MakeRSM sum_restore 3 0 MakePersister (- 1) 5 0 = Some r0"
    "rsm_run sum_op sum_snap sum_restore (\<lambda>_. 0) submit_events r0 = Some r"
    by (auto simp: sum_after_def sum_rsm_def bind_eq_Some_conv)
  have s: "0 < length (rsm_subs r)" "sub_pc (rsm_subs r ! 0) = Done OK (Some 15)" "sub_OpId (rsm_subs r ! 0) \<noteq> - 1"
    using r(2) by (cases "rsm_subs r"; simp)+
  from Submit_OK_executed [OF r0 s] s(2) r(1) show ?thesis by auto
qed

section \<open>Replicas agree\<close>

text \<open>What a message does to the state machine, and the messages that \<open>readApply\<close> takes in a run.\<close>

fun sm_apply :: "('s \<Rightarrow> 'q \<Rightarrow> ('s \<times> 'p) option) \<Rightarrow> ('s \<Rightarrow> 'b option \<Rightarrow> 's option) \<Rightarrow> ('q Op, 'b) ApplyMsg \<Rightarrow> 's \<Rightarrow> 's option" where
  "sm_apply do_op restore (CommandMsg None i) s = None"
| "sm_apply do_op restore (CommandMsg (Some opMsg) i) s = map_option fst (do_op s (op_Req opMsg))"
| "sm_apply do_op restore (SnapshotMsg data t i) s = restore s data"

fun sm_applies :: "('s \<Rightarrow> 'q \<Rightarrow> ('s \<times> 'p) option) \<Rightarrow> ('s \<Rightarrow> 'b option \<Rightarrow> 's option) \<Rightarrow> ('q Op, 'b) ApplyMsg list \<Rightarrow> 's \<Rightarrow> 's option" where
  "sm_applies do_op restore [] s = Some s"
| "sm_applies do_op restore (m # ms) s = do { s' \<leftarrow> sm_apply do_op restore m s; sm_applies do_op restore ms s' }"

fun taken :: "('q, 'p, 'b) rsm_event \<Rightarrow> ('q, 'p, 's, 'b) RSM \<Rightarrow> ('q Op, 'b) ApplyMsg list" where
  "taken (EvApply m) r = (case rsm_reader r of Ready \<Rightarrow> [m] | _ \<Rightarrow> [])"
| "taken _ r = []"

fun handled ::
    "('s \<Rightarrow> 'q \<Rightarrow> ('s \<times> 'p) option) \<Rightarrow> ('s \<Rightarrow> 'b option) \<Rightarrow> ('s \<Rightarrow> 'b option \<Rightarrow> 's option) \<Rightarrow>
     ('q Op PersistedState \<Rightarrow> int) \<Rightarrow> ('q, 'p, 'b) rsm_event list \<Rightarrow> ('q, 'p, 's, 'b) RSM \<Rightarrow> ('q Op, 'b) ApplyMsg list" where
  "handled do_op snap restore bytes_of [] r = []"
| "handled do_op snap restore bytes_of (e # es) r = taken e r @
     (case rsm_exec do_op snap restore bytes_of e r of
        None \<Rightarrow> [] | Some r' \<Rightarrow> handled do_op snap restore bytes_of es r')"

lemma set_sub_sm [simp]: "rsm_sm (set_sub k s r) = rsm_sm r"
  by (simp add: set_sub_def)

lemma readApply_send_sm [simp]: "rsm_sm (readApply_send x r) = rsm_sm r"
  by (cases "(x, r)" rule: readApply_send.cases) (simp_all add: try_send_def Let_def)

lemma readApply_sm:
  assumes "readApply do_op snap restore bytes_of m r = Some r'"
  shows "sm_apply do_op restore m (rsm_sm r) = Some (rsm_sm r')"
  using assms by (cases "(do_op, snap, restore, bytes_of, m, r)" rule: readApply.cases)
    (auto simp: readApply_command_def readApply_snapshot_def bind_eq_Some_conv split: if_splits)

lemma rsm_exec_sm:
  assumes "rsm_exec do_op snap restore bytes_of e r = Some r'"
  shows "sm_applies do_op restore (taken e r) (rsm_sm r) = Some (rsm_sm r')"
proof (cases e)
  case (EvApply m)
  with assms readApply_sm [of do_op snap restore bytes_of m r r'] show ?thesis by (auto split: reader.splits)
qed (use assms in \<open>auto simp: Submit_check_def nextOpId_def Submit_start_def Submit_poll_def Submit_leave_def
    Submit_finish_def delete_result_def readApply_lookup_def Let_def split: if_splits prod.splits submit_pc.splits
    option.splits reader.splits\<close>)

lemma sm_applies_append:
  "sm_applies do_op restore (ms @ ns) s = do { s' \<leftarrow> sm_applies do_op restore ms s; sm_applies do_op restore ns s' }"
  by (induction ms arbitrary: s) (auto split: Option.bind_splits)

lemma rsm_run_sm:
  "rsm_run do_op snap restore bytes_of es r = Some r' \<Longrightarrow>
     sm_applies do_op restore (handled do_op snap restore bytes_of es r) (rsm_sm r) = Some (rsm_sm r')"
proof (induction es arbitrary: r)
  case (Cons e es)
  then obtain r1 where r1: "rsm_exec do_op snap restore bytes_of e r = Some r1"
    "rsm_run do_op snap restore bytes_of es r1 = Some r'" by (auto simp: bind_eq_Some_conv)
  with Cons.IH [OF r1(2)] rsm_exec_sm [OF r1(1)] show ?case by (simp add: sm_applies_append)
qed simp

text \<open>
  The messages carry what the group has agreed on: the commands of the log \<open>qs\<close>, which starts at
  index 1, and snapshots of a replica that has executed the log up to the snapshot's index.
\<close>

definition carries :: "(int \<Rightarrow> 'q \<Rightarrow> bool) \<Rightarrow> (int \<Rightarrow> 'b option \<Rightarrow> bool) \<Rightarrow> ('q Op, 'b) ApplyMsg \<Rightarrow> bool" where
  "carries is_cmd is_snap m = (case m of
       CommandMsg (Some op) i \<Rightarrow> is_cmd i (op_Req op)
     | CommandMsg None i \<Rightarrow> False
     | SnapshotMsg d t i \<Rightarrow> is_snap i d)"

text \<open>The state machines that the replication layer drives: a snapshot is a byte slice, which may be nil.\<close>

locale replicated_machine = state_machine DoOp Snapshot Restore ok valid replicated
  for DoOp :: "'s \<Rightarrow> 'q \<Rightarrow> ('s \<times> 'p) option" and Snapshot :: "'s \<Rightarrow> 'b option"
    and Restore :: "'s \<Rightarrow> 'b option \<Rightarrow> 's option" and ok :: "'s \<Rightarrow> bool" and valid :: "'q \<Rightarrow> bool"
    and replicated :: "'s \<Rightarrow> 'r"
begin

text \<open>One message takes a replica from the state after \<open>a\<close> commands to the one after its index.\<close>

lemma apply_one:
  assumes "ok s0" and "list_all valid qs" and "0 \<le> a" "a \<le> int (length qs)"
    and "run_ops DoOp s0 (take (nat a) qs) = Some (sa, ps)" and "ok s" "replicated s = replicated sa"
    and "follows a m"
    and "carries (\<lambda>i q. 1 \<le> i \<and> i \<le> int (length qs) \<and> q = qs ! nat (i - 1))
      (\<lambda>i d. 0 \<le> i \<and> i \<le> int (length qs) \<and> (\<exists>t t' ps. run_ops DoOp s0 (take (nat i) qs) = Some (t, ps) \<and>
        ok t' \<and> replicated t' = replicated t \<and> d = Snapshot t')) m"
  shows "\<exists>s' t ps'. sm_apply DoOp Restore m s = Some s' \<and> ok s' \<and> 0 \<le> msg_index m \<and> msg_index m \<le> int (length qs) \<and>
    run_ops DoOp s0 (take (nat (msg_index m)) qs) = Some (t, ps') \<and> replicated s' = replicated t"
proof (cases m)
  case (CommandMsg c i)
  with assms(9) obtain op where op: "c = Some op" "1 \<le> i" "i \<le> int (length qs)" "op_Req op = qs ! nat (i - 1)"
    by (auto simp: carries_def split: option.splits)
  have i: "i = a + 1" using assms(8) CommandMsg by simp
  have v: "valid (op_Req op)" using assms(2) op by (simp add: list_all_length)
  have oksa: "ok sa" using run_total [OF assms(1), of "take (nat a) qs"] assms(2,5) by (auto simp: list_all_iff dest: in_set_takeD)
  from DoOp_total [OF assms(6) v] obtain s' p where s': "DoOp s (op_Req op) = Some (s', p)" "ok s'" by blast
  from DoOp_total [OF oksa v] obtain t p' where t: "DoOp sa (op_Req op) = Some (t, p')" "ok t" by blast
  have "replicated s' = replicated t" using DoOp_replicated [OF assms(6) oksa assms(7) v] s' t by simp
  moreover have "take (nat i) qs = take (nat a) qs @ [op_Req op]"
    using i op assms(3) by (simp add: nat_add_distrib take_Suc_conv_app_nth)
  then have "run_ops DoOp s0 (take (nat i) qs) = Some (t, ps @ [p'])"
    using assms(5) t(1) by (simp add: run_ops_append)
  ultimately show ?thesis using CommandMsg op s' by simp
next
  case (SnapshotMsg d u i)
  with assms(9) obtain t t' ps' where t: "0 \<le> i" "i \<le> int (length qs)" "run_ops DoOp s0 (take (nat i) qs) = Some (t, ps')"
    "ok t'" "replicated t' = replicated t" "d = Snapshot t'" by (auto simp: carries_def)
  from Restore_Snapshot [OF t(4), of s] t SnapshotMsg show ?thesis by auto
qed

lemma apply_all:
  assumes "ok s0" and "list_all valid qs" and "0 \<le> a" "a \<le> int (length qs)"
    and "run_ops DoOp s0 (take (nat a) qs) = Some (sa, ps)" and "ok s" "replicated s = replicated sa"
    and "in_sequence a ms"
    and "\<forall>m \<in> set ms. carries (\<lambda>i q. 1 \<le> i \<and> i \<le> int (length qs) \<and> q = qs ! nat (i - 1))
      (\<lambda>i d. 0 \<le> i \<and> i \<le> int (length qs) \<and> (\<exists>t t' ps. run_ops DoOp s0 (take (nat i) qs) = Some (t, ps) \<and>
        ok t' \<and> replicated t' = replicated t \<and> d = Snapshot t')) m"
  shows "\<exists>s' t ps'. sm_applies DoOp Restore ms s = Some s' \<and> ok s' \<and>
    run_ops DoOp s0 (take (nat (reached a ms)) qs) = Some (t, ps') \<and> replicated s' = replicated t"
  using assms(3-9)
proof (induction ms arbitrary: a sa ps s)
  case Nil
  then show ?case by (auto simp: reached_def)
next
  case (Cons m ms)
  from apply_one [OF assms(1,2) Cons.prems(1-5), of m] Cons.prems(6,7)
  obtain s' t ps' where s': "sm_apply DoOp Restore m s = Some s'" "ok s'" "0 \<le> msg_index m"
    "msg_index m \<le> int (length qs)" "run_ops DoOp s0 (take (nat (msg_index m)) qs) = Some (t, ps')"
    "replicated s' = replicated t" by auto
  from Cons.IH [OF s'(3,4,5,2,6)] Cons.prems(6,7) s'(1) show ?case
    by (cases ms) (auto simp: reached_def)
qed

end

section \<open>A deadlock\<close>

text \<open>
  \<open>readApply\<close> holds the mutex and sends to a Submit whose channel is full, while that Submit has
  decided to give up and waits for the mutex.
\<close>

definition deadlocked :: "nat \<Rightarrow> ('q, 'p, 's, 'b) RSM \<Rightarrow> bool" where
  "deadlocked k r \<longleftrightarrow> (\<exists>ks. rsm_reader r = SnapSends (k # ks)) \<and> k < length (rsm_subs r) \<and>
     sub_pc (rsm_subs r ! k) = Leaving \<and> sub_resultCh (rsm_subs r ! k) \<noteq> None"

lemma deadlocked_step:
  assumes "deadlocked k r" and "rsm_exec do_op snap restore bytes_of e r = Some r'"
  shows "deadlocked k r' \<and> rsm_sm r' = rsm_sm r"
proof -
  obtain ks where d: "rsm_reader r = SnapSends (k # ks)" "k < length (rsm_subs r)"
    "sub_pc (rsm_subs r ! k) = Leaving" "sub_resultCh (rsm_subs r ! k) \<noteq> None"
    using assms(1) by (auto simp: deadlocked_def)
  have mu: "\<not> mu_free r" using d(1) by (simp add: mu_free_def)
  show ?thesis
  proof (cases e)
    case (EvSubmit q)
    with assms(2) d show ?thesis
      by (auto simp: Submit_check_def nextOpId_def GetState_def deadlocked_def nth_append)
  next
    case (EvPoll j now)
    with assms(2) d show ?thesis
      by (cases "j = k") (auto simp: Submit_poll_def GetState_def set_sub_def deadlocked_def Let_def split: if_splits)
  next
    case (EvStop j)
    with assms(2) d show ?thesis by (cases "j = k") (auto simp: set_sub_def deadlocked_def split: if_splits)
  next
    case (EvRecv j)
    with assms(2) d show ?thesis
      by (cases "j = k") (auto simp: set_sub_def deadlocked_def split: if_splits submit_pc.splits option.splits)
  qed (use assms(2) d mu in \<open>auto simp: deadlocked_def try_send_def\<close>)
qed

lemma deadlocked_forever:
  assumes "rsm_run do_op snap restore bytes_of es r = Some r'" and "deadlocked k r"
  shows "deadlocked k r' \<and> rsm_sm r' = rsm_sm r"
  using assms
proof (induction es arbitrary: r)
  case (Cons e es)
  then obtain r1 where r1: "rsm_exec do_op snap restore bytes_of e r = Some r1"
    "rsm_run do_op snap restore bytes_of es r1 = Some r'" by (auto simp: bind_eq_Some_conv)
  with deadlocked_step [OF Cons.prems(2) r1(1)] Cons.IH [OF r1(2)] show ?case by simp
qed simp

definition deadlock_events :: "(nat, nat, nat) rsm_event list" where
  "deadlock_events = [EvRaft leading, EvSubmit 10, EvStart 0 0,
     EvApply (CommandMsg (Some \<lparr>op_Me = 0, op_Id = 1, op_Req = 10\<rparr>) 1), EvLookup, EvPoll 0 2001, EvSend,
     EvApply (SnapshotMsg (Some 40) 1 2), EvSnapLock [1]]"

text \<open>
  C22. The replication layer can stop for good: a server reaches a state from which no schedule ever
  executes another command or returns the waiting Submit. The result of a command lies in the
  channel of a Submit that has just given up; then a snapshot arrives, whose handler sends a second
  value to that channel without releasing the mutex that the Submit needs to leave.
\<close>

theorem snapshot_notification_deadlock:
  "\<exists>r. sum_after deadlock_events = Some r \<and>
     (\<forall>es r'. rsm_run sum_op sum_snap sum_restore (\<lambda>_. 0) es r = Some r' \<longrightarrow>
        rsm_sm r' = rsm_sm r \<and> sub_pc (rsm_subs r' ! 0) = Leaving \<and> \<not> mu_free r')"
proof -
  have "map_option (\<lambda>r. (rsm_reader r, map (\<lambda>s. (sub_pc s, sub_resultCh s)) (rsm_subs r))) (sum_after deadlock_events) =
      Some (SnapSends [0], [(Leaving, Some \<lparr>ar_opId = 1, ar_value = Some 15\<rparr>)])" by code_simp
  then obtain r where r: "sum_after deadlock_events = Some r" "rsm_reader r = SnapSends [0]"
    "map (\<lambda>s. (sub_pc s, sub_resultCh s)) (rsm_subs r) = [(Leaving, Some \<lparr>ar_opId = 1, ar_value = Some 15\<rparr>)]" by auto
  have "deadlocked 0 r" using r(2,3) by (cases "rsm_subs r") (auto simp: deadlocked_def)
  with deadlocked_forever show ?thesis
    by (intro exI [of _ r]) (fastforce simp: r(1) deadlocked_def mu_free_def)
qed

theorem snapshot_notification_deadlock_witness:
  "\<exists>r r'. sum_after deadlock_events = Some r \<and>
     rsm_run sum_op sum_snap sum_restore (\<lambda>_. 0) [EvLeave 0, EvSend] r = Some r' \<and>
     sub_pc (rsm_subs r' ! 0) = Leaving \<and> \<not> mu_free r'"
proof -
  from snapshot_notification_deadlock obtain r where r: "sum_after deadlock_events = Some r"
    "\<And>es r'. rsm_run sum_op sum_snap sum_restore (\<lambda>_. 0) es r = Some r' \<Longrightarrow>
       sub_pc (rsm_subs r' ! 0) = Leaving \<and> \<not> mu_free r'" by blast
  have "\<exists>r'. rsm_run sum_op sum_snap sum_restore (\<lambda>_. 0) [EvLeave 0, EvSend] r = Some r'" by simp
  with r show ?thesis by blast
qed

end
