(* ===== verification/Replicated.thy ===== *)
theory Replicated
  imports Rsm Raft_Cluster Kvraft_Server Shardgrp_Server
begin

text \<open>
  The replicated services: a state machine (\<open>Kvraft_Server\<close>, \<open>Shardgrp_Server\<close>) behind the
  replication layer \<open>Rsm\<close>, fed by the appliers of a Raft group. Replicas that have handled the
  messages up to the same log index agree; and a Submit can be answered with the result of another
  server's request.
\<close>

section \<open>The services as replicated machines\<close>

interpretation kvraft_rm: replicated_machine kvraft_DoOp kvraft_Snapshot kvraft_Restore
  kvraft_ok "\<lambda>q. True" kvraft_replicated
  by unfold_locales

interpretation shardgrp_rm: replicated_machine shardgrp_DoOp shardgrp_Snapshot shardgrp_Restore
  sg_ok sg_valid sg_replicated
  by unfold_locales

section \<open>Replicas of a shard group agree\<close>

text \<open>
  The messages of a group that has agreed on the log \<open>qs\<close>: its commands, and snapshots of some
  replica that has executed the log up to the snapshot's index.
\<close>

definition agreed :: "int \<Rightarrow> sg_req list \<Rightarrow> (sg_req Op, ShardgrpSnapshotData) ApplyMsg \<Rightarrow> bool" where
  "agreed gid qs m \<longleftrightarrow> carries (\<lambda>i q. 1 \<le> i \<and> i \<le> int (length qs) \<and> q = qs ! nat (i - 1))
     (\<lambda>i d. 0 \<le> i \<and> i \<le> int (length qs) \<and>
        (\<exists>t t' ps. run_ops shardgrp_DoOp (shardgrp_init gid 0) (take (nat i) qs) = Some (t, ps) \<and>
          sg_ok t' \<and> sg_replicated t' = sg_replicated t \<and> d = shardgrp_Snapshot t')) m"

lemma init_replicated: "sg_replicated (shardgrp_init gid i) = sg_replicated (shardgrp_init gid j)"
  by (simp add: sg_replicated_def shardgrp_Snapshot_def shardgrp_init_def)

lemma replica_state:
  assumes "list_all sg_valid qs" and "rsm_sm r = shardgrp_init gid i"
    and "rsm_run shardgrp_DoOp shardgrp_Snapshot shardgrp_Restore bytes_of es r = Some r'"
    and "ms = handled shardgrp_DoOp shardgrp_Snapshot shardgrp_Restore bytes_of es r"
    and "in_sequence 0 ms" and "\<forall>m \<in> set ms. agreed gid qs m"
  shows "\<exists>t ps. run_ops shardgrp_DoOp (shardgrp_init gid 0) (take (nat (reached 0 ms)) qs) = Some (t, ps) \<and>
    sg_replicated (rsm_sm r') = sg_replicated t"
proof -
  have "\<exists>s' t ps'. sm_applies shardgrp_DoOp shardgrp_Restore ms (rsm_sm r) = Some s' \<and> sg_ok s' \<and>
    run_ops shardgrp_DoOp (shardgrp_init gid 0) (take (nat (reached 0 ms)) qs) = Some (t, ps') \<and>
    sg_replicated s' = sg_replicated t"
    by (rule shardgrp_rm.apply_all [OF sg_ok_init assms(1), where sa = "shardgrp_init gid 0" and ps = "[]"])
      (use assms(2,5,6) sg_ok_init init_replicated in \<open>auto simp: agreed_def\<close>)
  with rsm_run_sm [OF assms(3)] assms(4) show ?thesis by auto
qed

text \<open>
  C13. Replicas agree: two servers of a shard group whose replication layers have taken messages in
  order up to the same log index, each its own mix of commands and snapshots of what the group
  has agreed on, whatever Submits ran in between, have the same replicated state.
\<close>

theorem replicas_agree:
  assumes "list_all sg_valid qs"
    and "rsm_sm r1 = shardgrp_init gid i" and "rsm_sm r2 = shardgrp_init gid j"
    and "rsm_run shardgrp_DoOp shardgrp_Snapshot shardgrp_Restore bytes_of es1 r1 = Some r1'"
    and "rsm_run shardgrp_DoOp shardgrp_Snapshot shardgrp_Restore bytes_of es2 r2 = Some r2'"
    and "ms1 = handled shardgrp_DoOp shardgrp_Snapshot shardgrp_Restore bytes_of es1 r1"
    and "ms2 = handled shardgrp_DoOp shardgrp_Snapshot shardgrp_Restore bytes_of es2 r2"
    and "in_sequence 0 ms1" "in_sequence 0 ms2" and "\<forall>m \<in> set ms1 \<union> set ms2. agreed gid qs m"
    and "reached 0 ms1 = reached 0 ms2"
  shows "sg_replicated (rsm_sm r1') = sg_replicated (rsm_sm r2')"
  using replica_state [OF assms(1,2,4,6,8)] replica_state [OF assms(1,3,5,7,9)] assms(10,11) by auto

definition put_0 :: "sg_req Op" where
  "put_0 = \<lparr>op_Me = 0, op_Id = 1, op_Req = SPut \<lparr>pa_ClientId = 7, pa_RequestId = 1, pa_Key = ''a'', pa_Value = ''x'', pa_Version = 0\<rparr>\<rparr>"

definition replica :: "int \<Rightarrow> (sg_req, sg_rep, ShardgrpServer, ShardgrpSnapshotData) RSM" where
  "replica i = \<lparr>rsm_me = i, rsm_rf = Make 3 0 MakePersister 0, rsm_maxraftstate = - 1, rsm_sm = shardgrp_init 1 i,
     rsm_resultByCommandId = [], rsm_opId = 0, rsm_stopSubmit = False, rsm_reader = Ready, rsm_subs = [], rsm_history = []\<rparr>"

theorem replicas_agree_witness:
  "\<exists>r1 r2. rsm_run shardgrp_DoOp shardgrp_Snapshot shardgrp_Restore (\<lambda>_. 0) [EvApply (CommandMsg (Some put_0) 1)] (replica 1) = Some r1 \<and>
     rsm_run shardgrp_DoOp shardgrp_Snapshot shardgrp_Restore (\<lambda>_. 0)
       [EvSubmit SOther, EvApply (CommandMsg (Some put_0) 1), EvLookup] (replica 2) = Some r2 \<and>
     sg_replicated (rsm_sm r1) = sg_replicated (rsm_sm r2)"
proof -
  let ?es1 = "[EvApply (CommandMsg (Some put_0) 1)]"
  let ?es2 = "[EvSubmit SOther, EvApply (CommandMsg (Some put_0) 1), EvLookup]"
  let ?run = "rsm_run shardgrp_DoOp shardgrp_Snapshot shardgrp_Restore (\<lambda>_. 0)"
  let ?h = "handled shardgrp_DoOp shardgrp_Snapshot shardgrp_Restore (\<lambda>_. 0)"
  obtain s1 p1 s2 p2 where "shardgrp_DoOp (shardgrp_init 1 1) (op_Req put_0) = Some (s1, p1)"
    "shardgrp_DoOp (shardgrp_init 1 2) (op_Req put_0) = Some (s2, p2)"
    using shardgrp_sm.DoOp_total [OF sg_ok_init, of "op_Req put_0"] by (fastforce simp: put_0_def)
  then obtain r1 r2 where r: "?run ?es1 (replica 1) = Some r1" "?run ?es2 (replica 2) = Some r2"
    by (simp add: replica_def readApply_command_def readApply_lookup_def Submit_check_def nextOpId_def GetState_def)
  have h: "[CommandMsg (Some put_0) 1] = ?h ?es1 (replica 1)" "[CommandMsg (Some put_0) 1] = ?h ?es2 (replica 2)"
    by (auto simp: replica_def Submit_check_def nextOpId_def GetState_def split: option.splits)
  have "sg_replicated (rsm_sm r1) = sg_replicated (rsm_sm r2)"
    by (rule replicas_agree [of "[op_Req put_0]", OF _ _ _ r h])
      (auto simp: replica_def put_0_def agreed_def carries_def)
  with r show ?thesis by blast
qed

section \<open>Whose result\<close>

text \<open>
  Three servers run \<open>kvraft/server.go\<close>. Server 0 leads term 1 and starts a put as its operation 1
  at log index 1. Before the entry leaves the server, server 1 leads term 2 and starts a get as its
  own operation 1, which takes index 1 everywhere and is committed. Server 0 applies it;
  \<open>readApply\<close> finds the Submit that waits for index 1, the operation numbers agree, and the put is
  answered OK with the reply of the get.
\<close>

definition put_a :: PutArgs where
  "put_a = \<lparr>pa_ClientId = 7, pa_RequestId = 1, pa_Key = ''a'', pa_Value = ''x'', pa_Version = 0\<rparr>"

definition op_0 :: "kv_req Op" where
  "op_0 = \<lparr>op_Me = 0, op_Id = 1, op_Req = PutReq put_a\<rparr>"

definition op_1 :: "kv_req Op" where
  "op_1 = \<lparr>op_Me = 1, op_Id = 1, op_Req = GetReq \<lparr>ga_Key = ''b''\<rparr>\<rparr>"

definition lead_0 :: "(kv_req Op, KvraftSnapshotData) event list" where
  "lead_0 = [Elect 0 0, Deliver 0 0, Return 0 0]"

definition lead_1 :: "(kv_req Op, KvraftSnapshotData) event list" where
  "lead_1 = [Elect 1 0, Deliver 3 0, Return 3 0, ClientStart 1 op_1, Replicate 1 0, Deliver 4 0, Return 4 0,
     Replicate 1 0, Deliver 5 0, ApplyNext 0, Applied 0]"

text \<open>The three stages of the group, and the events of server 0's replication layer along them.\<close>

definition group_1 :: "(kv_req Op, KvraftSnapshotData) cluster option" where
  "group_1 = run lead_0 (initial 3)"

definition group_2 :: "(kv_req Op, KvraftSnapshotData) cluster option" where
  "group_2 = do { c \<leftarrow> group_1; run [ClientStart 0 op_0] c }"

definition group_3 :: "(kv_req Op, KvraftSnapshotData) cluster option" where
  "group_3 = do { c \<leftarrow> group_2; run lead_1 c }"

definition server_0 :: "(kv_req, kv_rep, KvraftServer, KvraftSnapshotData) RSM option" where
  "server_0 = do {
     c1 \<leftarrow> group_1;
     c3 \<leftarrow> group_3;
     kv \<leftarrow> StartKVServer 0 None;
     r \<leftarrow> MakeRSM kvraft_Restore 3 0 MakePersister (- 1) kv 0;
     rsm_run kvraft_DoOp kvraft_Snapshot kvraft_Restore (\<lambda>_. 0)
       ([EvRaft (nodes c1 ! 0), EvSubmit (PutReq put_a), EvStart 0 0, EvRaft (nodes c3 ! 0)] @
        map EvApply (delivered c3 ! 0) @ [EvLookup, EvSend, EvRecv 0, EvFinish 0]) r }"

fun command_of :: "('c, 'b) ApplyMsg \<Rightarrow> ('c option \<times> int) option" where
  "command_of (CommandMsg x i) = Some (x, i)"
| "command_of (SnapshotMsg d t i) = None"

lemma command_of_Some: "command_of m = Some (x, i) \<longleftrightarrow> m = CommandMsg x i"
  by (cases m) auto

lemma group_3_delivers: "map_option (\<lambda>c. map command_of (delivered c ! 0)) group_3 = Some [Some (Some op_1, 1)]"
  by code_simp

lemma server_0_result:
  "map_option (\<lambda>r. (map sub_pc (rsm_subs r), map sub_Req (rsm_subs r), map (fst o snd) (rsm_history r))) server_0 =
     Some ([Done OK (Some (GetRep \<lparr>gr_Value = '''', gr_Version = 0, gr_Err = ErrNoKey\<rparr>))], [PutReq put_a], [op_1])"
  by code_simp

text \<open>
  C19. A Submit can return OK with the result of another server's request: on a schedule that Raft
  allows, the put of server 0 returns OK with the reply of a get that server 1 submitted, although
  the put itself is executed nowhere, and the handler of the put panics on the type of that reply.
  The operation numbers that \<open>Submit\<close> compares are unique on one server only.
\<close>

theorem Submit_takes_other_result:
  "\<exists>c r g. group_3 = Some c \<and> reachable 3 c \<and> delivered c ! 0 = [CommandMsg (Some op_1) 1] \<and>
     server_0 = Some r \<and> map sub_Req (rsm_subs r) = [PutReq put_a] \<and>
     map sub_pc (rsm_subs r) = [Done OK (Some (GetRep g))] \<and> op_0 \<notin> fst ` snd ` set (rsm_history r) \<and>
     kvraft_Put (\<lambda>_. (OK, GetRep g)) put_a reply0 = None"
proof -
  obtain c where c: "group_3 = Some c" "delivered c ! 0 = [CommandMsg (Some op_1) 1]"
    using group_3_delivers by (auto simp: command_of_Some)
  obtain r where r: "server_0 = Some r" "map sub_Req (rsm_subs r) = [PutReq put_a]"
    "map sub_pc (rsm_subs r) = [Done OK (Some (GetRep \<lparr>gr_Value = '''', gr_Version = 0, gr_Err = ErrNoKey\<rparr>))]"
    "map (fst o snd) (rsm_history r) = [op_1]"
    using server_0_result by auto
  have "fst ` snd ` set (rsm_history r) = set (map (fst o snd) (rsm_history r))" by (simp add: image_image)
  then have "op_0 \<notin> fst ` snd ` set (rsm_history r)" by (simp add: r(4) op_0_def op_1_def)
  moreover obtain c1 c2 where "run lead_0 (initial 3) = Some c1" "run [ClientStart 0 op_0] c1 = Some c2" "run lead_1 c2 = Some c"
    using c(1) unfolding group_3_def group_2_def group_1_def bind_eq_Some_conv by blast
  then have "reachable 3 c"
    by (rule run_reachable [OF run_reachable [OF run_reachable [OF reachable_initial]]])
  moreover have "kvraft_Put (\<lambda>_. (OK, GetRep g)) put_a reply0 = None" for g by (simp add: kvraft_Put_def)
  ultimately show ?thesis using c r(1-3) by (intro exI conjI)
qed

end
