(* ===== verification/Clerk_Loop.thy ===== *)
theory Clerk_Loop
  imports Rpcapi State_Machine
begin

text \<open>
  What the clerks of the replicated services share (\<open>kvraft/client.go\<close>,
  \<open>shardkv/shardgrp/client.go\<close>, \<open>shardkv/client.go\<close>): the exponential backoff, the loop that asks
  one server after the other, and a service behind an unreliable network for the loops to run
  against.
\<close>

section \<open>Backoff\<close>

text \<open>Durations are nanoseconds.\<close>

abbreviation Millisecond :: int where "Millisecond \<equiv> 1000000"
abbreviation Second :: int where "Second \<equiv> 1000000000"

text \<open>The loop that doubles, with \<open>n\<close> rounds to go.\<close>

fun backoff_grow :: "nat \<Rightarrow> int \<Rightarrow> int" where
  "backoff_grow 0 b = b"
| "backoff_grow (Suc n) b = (if b < 2 * Second then backoff_grow n (b * 2) else b)"

text \<open>
  The time slept after \<open>retry\<close> failures with the limit \<open>cap\<close>, where \<open>r\<close> is what the random
  generator holds; \<open>Int63n\<close> panics on a bound that is not positive.
\<close>

definition backoffWithJitter :: "int \<Rightarrow> int \<Rightarrow> int \<Rightarrow> int \<Rightarrow> int option" where
  "backoffWithJitter cap base retry r =
     (let backoff = min cap (backoff_grow (nat retry) base)
      in if backoff div 2 \<le> 0 then None else Some (backoff div 2 + r mod (backoff div 2)))"

lemma double_ge: "0 < b \<Longrightarrow> b \<le> b * 2 ^ n" for b :: int
  by simp

lemma backoff_grow_bound:
  assumes "0 < b" "cap \<le> 2 * Second"
  shows "min cap (backoff_grow n b) = min cap (b * 2 ^ n)"
  using assms(1)
proof (induction n arbitrary: b)
  case 0
  then show ?case by simp
next
  case (Suc n)
  show ?case
  proof (cases "b < 2 * Second")
    case True
    then show ?thesis using Suc.IH [of "b * 2"] Suc.prems by (simp add: mult.assoc)
  next
    case False
    then show ?thesis using double_ge [OF Suc.prems, of "Suc n"] assms(2) by (simp only: backoff_grow.simps if_False)
  qed
qed

section \<open>A service behind a network\<close>

text \<open>
  What becomes of one RPC: the request is lost; the request is executed and its reply arrives; it
  is executed and the reply is lost; the server is not the leader and answers so; or the server
  answers ErrWrongLeader because Submit has given up, but the command is executed all the same.
\<close>

datatype rpc_fate = Dropped | Answered | AnswerLost | Refused | RefusedLate

text \<open>
  The replicated service is its state machine and the log executed so far. The plan says for each
  RPC which requests of other clients the service executes before it, and its fate; when the plan
  is used up the network is silent. The calls, the times slept and the draws of the random
  generator are recorded or consumed in order.
\<close>

record ('s, 'q) world =
  w_sm :: 's
  w_log :: "'q list"
  w_plan :: "('q list \<times> rpc_fate) list"
  w_calls :: "string list"
  w_rand :: "int list"
  w_slept :: "int list"

text \<open>A request that crashes the servers is never answered.\<close>

definition execute :: "('s \<Rightarrow> 'q \<Rightarrow> ('s \<times> 'p) option) \<Rightarrow> 'q \<Rightarrow> ('s, 'q) world \<Rightarrow> 'p option \<times> ('s, 'q) world" where
  "execute do_op q w = (case do_op (w_sm w) q of
       None \<Rightarrow> (None, w)
     | Some (s, p) \<Rightarrow> (Some p, w\<lparr>w_sm := s, w_log := w_log w @ [q]\<rparr>))"

definition execute_all :: "('s \<Rightarrow> 'q \<Rightarrow> ('s \<times> 'p) option) \<Rightarrow> 'q list \<Rightarrow> ('s, 'q) world \<Rightarrow> ('s, 'q) world" where
  "execute_all do_op qs w = foldl (\<lambda>w q. snd (execute do_op q w)) w qs"

text \<open>The call of \<open>handler\<close>, which submits \<open>q\<close>, at server \<open>srv\<close>; \<open>nil\<close> is Go's nil value.\<close>

definition rpc ::
    "('s \<Rightarrow> 'q \<Rightarrow> ('s \<times> 'p) option) \<Rightarrow> 'p \<Rightarrow> (('q \<Rightarrow> Err \<times> 'p) \<Rightarrow> 'r option) \<Rightarrow> 'q \<Rightarrow> string \<Rightarrow>
     ('s, 'q) world \<Rightarrow> 'r option \<times> ('s, 'q) world" where
  "rpc do_op nil handler q srv w0 = (let w = w0\<lparr>w_calls := w_calls w0 @ [srv]\<rparr> in
     case w_plan w of
       [] \<Rightarrow> (None, w)
     | (others, fate) # rest \<Rightarrow>
         let w1 = execute_all do_op others (w\<lparr>w_plan := rest\<rparr>);
             refusal = handler (\<lambda>_. (ErrWrongLeader, nil))
         in case fate of
              Dropped \<Rightarrow> (None, w1)
            | Refused \<Rightarrow> (refusal, w1)
            | _ \<Rightarrow> (case execute do_op q w1 of
                       (None, w2) \<Rightarrow> (None, w2)
                     | (Some p, w2) \<Rightarrow>
                         ((case fate of Answered \<Rightarrow> handler (\<lambda>_. (OK, p)) | RefusedLate \<Rightarrow> refusal | _ \<Rightarrow> None), w2)))"

text \<open>Sleeping with a draw of the random generator.\<close>

definition pause :: "int \<Rightarrow> int \<Rightarrow> int \<Rightarrow> ('s, 'q) world \<Rightarrow> ('s, 'q) world option" where
  "pause cap base retry w = do {
     t \<leftarrow> backoffWithJitter cap base retry (case w_rand w of [] \<Rightarrow> 0 | r # rs \<Rightarrow> r);
     Some (w\<lparr>w_rand := tl (w_rand w), w_slept := w_slept w @ [t]\<rparr>) }"

section \<open>Asking the servers in turn\<close>

text \<open>
  One turn of a clerk's loop: call a server; an error that is final ends the loop, ErrWrongLeader
  and a missing reply go on, any other error panics.
\<close>

datatype 'r asked = Final 'r | Again | Undefined

definition ask ::
    "(string \<Rightarrow> 'w \<Rightarrow> 'r option \<times> 'w) \<Rightarrow> ('r \<Rightarrow> Err) \<Rightarrow> Err set \<Rightarrow> string \<Rightarrow> 'w \<Rightarrow> 'r asked \<times> 'w" where
  "ask call err final srv w = (case call srv w of
       (None, w') \<Rightarrow> (Again, w')
     | (Some reply, w') \<Rightarrow>
         (if err reply \<in> final then Final reply else if err reply = ErrWrongLeader then Again else Undefined, w'))"

text \<open>
  The loop with \<open>n\<close> attempts left after \<open>attempts\<close>: after each full round it sleeps. The result is
  the reply and the server that gave it, or \<open>None\<close> when the attempts are exhausted.
\<close>

fun ask_rounds ::
    "(string \<Rightarrow> 'w \<Rightarrow> 'r option \<times> 'w) \<Rightarrow> ('r \<Rightarrow> Err) \<Rightarrow> Err set \<Rightarrow> (int \<Rightarrow> 'w \<Rightarrow> 'w option) \<Rightarrow> string list \<Rightarrow>
     nat \<Rightarrow> int \<Rightarrow> int \<Rightarrow> 'w \<Rightarrow> (('r \<times> int) option \<times> 'w) option" where
  "ask_rounds call err final sleep servers 0 attempts leader w = Some (None, w)"
| "ask_rounds call err final sleep servers (Suc n) attempts leader w = do {
     srv \<leftarrow> slice_at servers leader;
     (case ask call err final srv w of
        (Final reply, w1) \<Rightarrow> Some (Some (reply, leader), w1)
      | (Undefined, w1) \<Rightarrow> None
      | (Again, w1) \<Rightarrow> do {
          w2 \<leftarrow> (if (attempts + 1) mod int (length servers) = 0
                then sleep ((attempts + 1) div int (length servers)) w1 else Some w1);
          ask_rounds call err final sleep servers n (attempts + 1) ((leader + 1) mod int (length servers)) w2 }) }"

text \<open>The loop without a limit: \<open>None\<close> when it never ends.\<close>

datatype 'a outcome = Panic | Returned 'a

partial_function (option) ask_forever ::
    "(string \<Rightarrow> 'w \<Rightarrow> 'r option \<times> 'w) \<Rightarrow> ('r \<Rightarrow> Err) \<Rightarrow> Err set \<Rightarrow> (int \<Rightarrow> 'w \<Rightarrow> 'w option) \<Rightarrow> string list \<Rightarrow>
     int \<Rightarrow> int \<Rightarrow> 'w \<Rightarrow> ('r \<times> int \<times> 'w) outcome option" where
  "ask_forever call err final sleep servers attempts leader w = (case slice_at servers leader of
       None \<Rightarrow> Some Panic
     | Some srv \<Rightarrow> (case ask call err final srv w of
           (Final reply, w1) \<Rightarrow> Some (Returned (reply, leader, w1))
         | (Undefined, w1) \<Rightarrow> Some Panic
         | (Again, w1) \<Rightarrow>
             (case (if (attempts + 1) mod int (length servers) = 0 then sleep (attempts + 1) w1 else Some w1) of
                None \<Rightarrow> Some Panic
              | Some w2 \<Rightarrow> ask_forever call err final sleep servers (attempts + 1)
                  ((leader + 1) mod int (length servers)) w2)))"

declare ask_forever.simps [code]

lemma map_Returned_iff [simp]: "map_outcome f z = Returned y \<longleftrightarrow> (\<exists>x. z = Returned x \<and> y = f x)"
  by (cases z) auto

text \<open>What every call and every sleep keeps, the loop keeps; what a reply promises holds when the loop returns it.\<close>

lemma ask_rounds_keeps:
  assumes "ask_rounds call err final sleep servers n k l w = Some (r, w')" "I w"
    and call: "\<And>srv w r w'. I w \<Longrightarrow> call srv w = (r, w') \<Longrightarrow> I w' \<and> (\<forall>x. r = Some x \<longrightarrow> P x w')"
    and sleep: "\<And>k w w'. I w \<Longrightarrow> sleep k w = Some w' \<Longrightarrow> I w'"
  shows "I w' \<and> (\<forall>x l. r = Some (x, l) \<longrightarrow> P x w' \<and> err x \<in> final)"
  using assms(1,2)
proof (induction n arbitrary: k l w)
  case 0
  then show ?case by simp
next
  case (Suc n)
  obtain srv where srv: "slice_at servers l = Some srv" using Suc.prems(1) by (auto simp: bind_eq_Some_conv)
  obtain x w1 where c: "call srv w = (x, w1)" by force
  note I1 = call [OF Suc.prems(2) c]
  show ?case
  proof (cases "fst (ask call err final srv w)")
    case (Final rep)
    then show ?thesis using Suc.prems(1) srv c I1 by (auto simp: ask_def split: option.splits if_splits)
  next
    case Again
    then obtain w2 where w2: "(if (k + 1) mod int (length servers) = 0 then sleep ((k + 1) div int (length servers)) w1 else Some w1) = Some w2"
      "ask_rounds call err final sleep servers n (k + 1) ((l + 1) mod int (length servers)) w2 = Some (r, w')"
      using Suc.prems(1) srv c by (auto simp: ask_def bind_eq_Some_conv split: option.splits if_splits)
    have "I w2" using w2(1) I1 sleep by (auto split: if_splits)
    with Suc.IH [OF w2(2)] show ?thesis by blast
  next
    case Undefined
    then show ?thesis using Suc.prems(1) srv c by (auto simp: ask_def split: option.splits if_splits)
  qed
qed

section \<open>What the service has executed\<close>

definition logged :: "('s \<Rightarrow> 'q \<Rightarrow> ('s \<times> 'p) option) \<Rightarrow> 'q set \<Rightarrow> ('s, 'q) world \<Rightarrow> ('s, 'q) world \<Rightarrow> bool" where
  "logged do_op Q w w' \<longleftrightarrow> (\<exists>qs ps. w_log w' = w_log w @ qs \<and> run_ops do_op (w_sm w) qs = Some (w_sm w', ps) \<and> set qs \<subseteq> Q)"

definition plan_reqs :: "('s, 'q) world \<Rightarrow> 'q set" where
  "plan_reqs w = (\<Union>e \<in> set (w_plan w). set (fst e))"

lemma logged_refl: "w_sm w' = w_sm w \<Longrightarrow> w_log w' = w_log w \<Longrightarrow> logged do_op Q w w'"
  by (auto simp: logged_def)

lemma logged_trans: "logged do_op Q w w' \<Longrightarrow> logged do_op Q w' w'' \<Longrightarrow> logged do_op Q w w''"
  by (auto simp: logged_def run_ops_append)

lemma logged_mono: "logged do_op Q w w' \<Longrightarrow> Q \<subseteq> Q' \<Longrightarrow> logged do_op Q' w w'"
  by (auto simp: logged_def)

lemma logged_execute: "execute do_op q w = (r, w') \<Longrightarrow> q \<in> Q \<Longrightarrow> logged do_op Q w w'"
  by (auto simp: execute_def logged_def split: option.splits prod.splits)

lemma logged_execute_all: "set qs \<subseteq> Q \<Longrightarrow> logged do_op Q w (execute_all do_op qs w)"
proof (induction qs arbitrary: w)
  case Nil
  then show ?case by (simp add: execute_all_def logged_refl)
next
  case (Cons q qs)
  have "logged do_op Q w (snd (execute do_op q w))"
    by (rule logged_execute [of _ _ _ "fst (execute do_op q w)"]) (use Cons.prems in auto)
  from logged_trans [OF this Cons.IH] Cons.prems show ?case by (simp add: execute_all_def)
qed

lemma execute_frame:
  assumes "execute do_op q w = (r, w')"
  shows "w_plan w' = w_plan w" "w_calls w' = w_calls w"
  using assms by (auto simp: execute_def split: option.splits prod.splits)

lemma execute_all_frame:
  "w_plan (execute_all do_op qs w) = w_plan w \<and> w_calls (execute_all do_op qs w) = w_calls w"
proof (induction qs arbitrary: w)
  case (Cons q qs)
  have "execute do_op q w = (fst (execute do_op q w), snd (execute do_op q w))" by simp
  note execute_frame [OF this]
  with Cons show ?case by (simp add: execute_all_def)
qed (simp add: execute_all_def)

text \<open>
  The course of an RPC: silence; or the others' requests are executed and then either ours is not,
  or it is.
\<close>

lemma rpc_cases:
  assumes "rpc do_op nil handler q srv w = (r, w')"
  obtains (silent) "w_plan w = []" "r = None" "w' = w\<lparr>w_calls := w_calls w @ [srv]\<rparr>"
  | (refused) others rest f where "w_plan w = (others, f) # rest"
      "w' = execute_all do_op others (w\<lparr>w_calls := w_calls w @ [srv], w_plan := rest\<rparr>)"
      "r = None \<or> r = handler (\<lambda>_. (ErrWrongLeader, nil))"
  | (executed) others rest f w1 p where "w_plan w = (others, f) # rest"
      "w1 = execute_all do_op others (w\<lparr>w_calls := w_calls w @ [srv], w_plan := rest\<rparr>)"
      "execute do_op q w1 = (p, w')"
      "r = None \<or> r = handler (\<lambda>_. (ErrWrongLeader, nil)) \<or> (\<exists>p'. p = Some p' \<and> r = handler (\<lambda>_. (OK, p')))"
proof (cases "w_plan w")
  case Nil
  with assms silent show ?thesis by (auto simp: rpc_def)
next
  case (Cons e rest)
  obtain others f where e: "e = (others, f)" by force
  let ?w1 = "execute_all do_op others (w\<lparr>w_calls := w_calls w @ [srv], w_plan := rest\<rparr>)"
  obtain p w2 where x: "execute do_op q ?w1 = (p, w2)" by force
  show ?thesis
  proof (cases "f = Dropped \<or> f = Refused")
    case True
    then show ?thesis using assms Cons e by (intro refused [of others f rest]) (auto simp: rpc_def Let_def)
  next
    case False
    then show ?thesis using assms Cons e x
      by (intro executed [of others f rest ?w1 p])
        (cases f; cases p; auto simp: rpc_def Let_def)+
  qed
qed

lemma pause_frame:
  assumes "pause cap base k w = Some w'"
  shows "w_sm w' = w_sm w" "w_log w' = w_log w" "w_plan w' = w_plan w" "w_calls w' = w_calls w"
  using assms by (auto simp: pause_def bind_eq_Some_conv)

lemma backoff_value:
  fixes retry :: int
  assumes "2 \<le> base" "base \<le> cap" "cap \<le> 2 * Second"
  defines "b \<equiv> min cap (base * 2 ^ nat retry)"
  shows "1 \<le> b div 2" "backoffWithJitter cap base retry r = Some (b div 2 + r mod (b div 2))"
proof -
  have "0 < base" using assms(1) by simp
  from double_ge [OF this, of "nat retry"] have "2 \<le> b"
    unfolding b_def using assms(1,2) by (intro min.boundedI) linarith+
  then show 1: "1 \<le> b div 2" by linarith
  have "min cap (backoff_grow (nat retry) base) = b"
    unfolding b_def by (rule backoff_grow_bound [OF \<open>0 < base\<close> assms(3)])
  with 1 show "backoffWithJitter cap base retry r = Some (b div 2 + r mod (b div 2))"
    unfolding backoffWithJitter_def Let_def by simp
qed

lemma pause_Some:
  assumes "2 \<le> base" "base \<le> cap" "cap \<le> 2 * Second"
  shows "\<exists>w'. pause cap base k w = Some w'"
  using backoff_value(2) [OF assms] by (simp add: pause_def)

section \<open>The contract of a call\<close>

text \<open>
  A clerk relies on this of a handler: when Submit refuses, the reply says ErrWrongLeader, and that
  is not an answer that ends the loop.
\<close>

lemma next_leader: "0 \<le> l \<Longrightarrow> l < int n \<Longrightarrow> 0 \<le> (l + 1) mod int n \<and> (l + 1) mod int n < int n"
  by (intro conjI pos_mod_sign pos_mod_bound) auto

locale service_call =
  fixes do_op :: "'s \<Rightarrow> 'q \<Rightarrow> ('s \<times> 'p) option"
    and nil :: 'p
    and handler :: "('q \<Rightarrow> Err \<times> 'p) \<Rightarrow> 'r option"
    and q :: 'q
    and err :: "'r \<Rightarrow> Err"
    and final :: "Err set"
  assumes refused: "handler (\<lambda>_. (ErrWrongLeader, nil)) = Some rep \<Longrightarrow> err rep = ErrWrongLeader"
    and not_final: "ErrWrongLeader \<notin> final"
begin

lemma rpc_calls: "rpc do_op nil handler q srv w = (r, w') \<Longrightarrow> w_calls w' = w_calls w @ [srv]"
  by (erule rpc_cases) (auto simp: execute_all_frame dest: execute_frame)

lemma rpc_plan: "rpc do_op nil handler q srv w = (r, w') \<Longrightarrow> w_plan w' = tl (w_plan w)"
  by (erule rpc_cases) (auto simp: execute_all_frame dest: execute_frame)

text \<open>Only the planned requests and ours are executed; an answer that ends the loop is that of our request.\<close>

lemma rpc_logged:
  assumes "rpc do_op nil handler q srv w = (r, w')"
  shows "logged do_op (insert q (plan_reqs w)) w w'"
  using assms
proof (cases rule: rpc_cases)
  case silent
  then show ?thesis by (simp add: logged_refl)
next
  case (refused others rest f)
  have "logged do_op (insert q (plan_reqs w)) (w\<lparr>w_calls := w_calls w @ [srv], w_plan := rest\<rparr>) w'"
    unfolding refused(2) by (rule logged_execute_all) (use refused(1) in \<open>auto simp: plan_reqs_def\<close>)
  then show ?thesis by (simp add: logged_def)
next
  case (executed others rest f w1 p)
  have "logged do_op (insert q (plan_reqs w)) (w\<lparr>w_calls := w_calls w @ [srv], w_plan := rest\<rparr>) w1"
    unfolding executed(2) by (rule logged_execute_all) (use executed(1) in \<open>auto simp: plan_reqs_def\<close>)
  then have "logged do_op (insert q (plan_reqs w)) w w1" by (simp add: logged_def)
  with logged_execute [OF executed(3), of "insert q (plan_reqs w)"] show ?thesis using logged_trans by blast
qed

lemma rpc_answer:
  assumes "rpc do_op nil handler q srv w = (Some reply, w')" and "err reply \<noteq> ErrWrongLeader"
  shows "\<exists>w1 p. logged do_op (plan_reqs w) w w1 \<and> execute do_op q w1 = (Some p, w') \<and> handler (\<lambda>_. (OK, p)) = Some reply"
  using assms(1)
proof (cases rule: rpc_cases)
  case (executed others rest f w1 p)
  have "logged do_op (plan_reqs w) (w\<lparr>w_calls := w_calls w @ [srv], w_plan := rest\<rparr>) w1"
    unfolding executed(2) by (rule logged_execute_all) (use executed(1) in \<open>auto simp: plan_reqs_def\<close>)
  then have "logged do_op (plan_reqs w) w w1" by (simp add: logged_def)
  with executed(3,4) assms(2) refused show ?thesis by (auto dest: sym)
qed (use assms(2) refused in \<open>auto dest: sym\<close>)

lemma ask_Final:
  assumes "ask (rpc do_op nil handler q) err final srv w = (Final reply, w')"
  shows "\<exists>w1 p. logged do_op (plan_reqs w) w w1 \<and> execute do_op q w1 = (Some p, w') \<and>
    handler (\<lambda>_. (OK, p)) = Some reply \<and> err reply \<in> final"
proof -
  from assms have "rpc do_op nil handler q srv w = (Some reply, w')" "err reply \<in> final"
    by (auto simp: ask_def split: prod.splits option.splits if_splits)
  moreover from this(2) not_final have "err reply \<noteq> ErrWrongLeader" by auto
  ultimately show ?thesis using rpc_answer [of srv w reply w'] by auto
qed

lemma ask_frame:
  assumes "ask (rpc do_op nil handler q) err final srv w = (a, w')"
  shows "w_calls w' = w_calls w @ [srv]" "logged do_op (insert q (plan_reqs w)) w w'" "w_plan w' = tl (w_plan w)"
proof -
  from assms obtain r where "rpc do_op nil handler q srv w = (r, w')"
    by (auto simp: ask_def split: prod.splits option.splits)
  from rpc_calls [OF this] rpc_logged [OF this] rpc_plan [OF this]
  show "w_calls w' = w_calls w @ [srv]" "logged do_op (insert q (plan_reqs w)) w w'" "w_plan w' = tl (w_plan w)" .
qed

lemma plan_reqs_tl: "w_plan w' = tl (w_plan w) \<Longrightarrow> plan_reqs w' \<subseteq> plan_reqs w"
  by (cases "w_plan w") (auto simp: plan_reqs_def)

text \<open>
  One turn that goes on, with its pause: \<open>w2\<close> is the world the next turn starts in.
\<close>

lemma turn_frame:
  assumes "ask (rpc do_op nil handler q) err final srv w = (Again, w1)"
    and "(if b then pause cap base k w1 else Some w1) = Some w2"
  shows "w_calls w2 = w_calls w @ [srv]" "logged do_op (insert q (plan_reqs w)) w w2"
    "w_plan w2 = tl (w_plan w)" "plan_reqs w2 \<subseteq> plan_reqs w"
proof -
  have same: "w_sm w2 = w_sm w1" "w_log w2 = w_log w1" "w_plan w2 = w_plan w1" "w_calls w2 = w_calls w1"
    using assms(2) pause_frame [of cap base k w1 w2] by (auto split: if_splits)
  note f = ask_frame [OF assms(1)]
  from f(1,3) same show "w_calls w2 = w_calls w @ [srv]" and plan: "w_plan w2 = tl (w_plan w)" by simp_all
  from plan show "plan_reqs w2 \<subseteq> plan_reqs w" by (rule plan_reqs_tl)
  show "logged do_op (insert q (plan_reqs w)) w w2" using f(2) same by (simp add: logged_def)
qed

text \<open>How a loop ends: with the answer to the last execution of our request.\<close>

definition answered :: "('s, 'q) world \<Rightarrow> 'r \<Rightarrow> ('s, 'q) world \<Rightarrow> bool" where
  "answered w reply w' \<longleftrightarrow> (\<exists>w1 p. logged do_op (insert q (plan_reqs w)) w w1 \<and> execute do_op q w1 = (Some p, w') \<and>
     handler (\<lambda>_. (OK, p)) = Some reply \<and> err reply \<in> final)"

lemma answered_later:
  assumes "logged do_op (insert q (plan_reqs w)) w w2" "plan_reqs w2 \<subseteq> plan_reqs w" "answered w2 reply w'"
  shows "answered w reply w'"
proof -
  obtain w1 p where "logged do_op (insert q (plan_reqs w2)) w2 w1" "execute do_op q w1 = (Some p, w')"
    "handler (\<lambda>_. (OK, p)) = Some reply" "err reply \<in> final" using assms(3) by (auto simp: answered_def)
  moreover from this(1) assms(1,2) have "logged do_op (insert q (plan_reqs w)) w w1"
    by (meson insert_mono logged_mono logged_trans)
  ultimately show ?thesis by (auto simp: answered_def)
qed

lemma ask_answered:
  assumes "ask (rpc do_op nil handler q) err final srv w = (Final reply, w')"
  shows "answered w reply w'"
  using ask_Final [OF assms] logged_mono [of do_op "plan_reqs w" w _ "insert q (plan_reqs w)"]
  unfolding answered_def by blast

lemma ask_rounds_answered:
  assumes "ask_rounds (rpc do_op nil handler q) err final (pause cap base) servers n k leader w = Some (Some (reply, leader'), w')"
  shows "answered w reply w'"
  using assms
proof (induction n arbitrary: k leader w)
  case (Suc n)
  then obtain srv where srv: "slice_at servers leader = Some srv" by (auto simp: bind_eq_Some_conv)
  show ?case
  proof (cases "ask (rpc do_op nil handler q) err final srv w" rule: prod.exhaust)
    case (Pair a w1)
    show ?thesis
    proof (cases a)
      case (Final r)
      then show ?thesis using Suc.prems srv Pair ask_answered by auto
    next
      case Again
      then obtain w2 where w2: "(if (k + 1) mod int (length servers) = 0
          then pause cap base ((k + 1) div int (length servers)) w1 else Some w1) = Some w2"
        and rest: "ask_rounds (rpc do_op nil handler q) err final (pause cap base) servers n (k + 1)
          ((leader + 1) mod int (length servers)) w2 = Some (Some (reply, leader'), w')"
        using Suc.prems srv Pair by (auto simp: bind_eq_Some_conv)
      note f = turn_frame [OF Pair [unfolded Again] w2]
      show ?thesis by (rule answered_later [OF f(2,4) Suc.IH [OF rest]])
    qed (use Suc.prems srv Pair in auto)
  qed
qed simp

lemma ask_forever_answered:
  assumes "ask_forever (rpc do_op nil handler q) err final (pause cap base) servers k leader w = Some (Returned (reply, leader', w'))"
  shows "answered w reply w'"
proof -
  let ?P = "\<lambda>call er fin sl (servers :: string list) (k :: int) (leader :: int) w x. call = rpc do_op nil handler q \<longrightarrow> er = err \<longrightarrow> fin = final \<longrightarrow>
    sl = (pause cap base :: int \<Rightarrow> ('s, 'q) world \<Rightarrow> ('s, 'q) world option) \<longrightarrow> (\<forall>reply (leader' :: int) w'. x = Returned (reply, leader', w') \<longrightarrow> answered w reply w')"
  have "?P (rpc do_op nil handler q) err final (pause cap base) servers k leader w (Returned (reply, leader', w'))"
  proof (rule ask_forever.raw_induct [where P = ?P, OF _ assms], intro impI allI)
    fix f :: "(string \<Rightarrow> ('s, 'q) world \<Rightarrow> 'r option \<times> ('s, 'q) world) \<Rightarrow> _" and call er fin sl servers k leader w x reply leader' w'
    assume IH: "\<And>call er fin sl servers k leader w x. f call er fin sl servers k leader w = Some x \<Longrightarrow> ?P call er fin sl servers k leader w x"
      and eqs: "call = rpc do_op nil handler q" "er = err" "fin = final" "sl = pause cap base" "x = Returned (reply, leader', w')"
      and body: "(case slice_at servers leader of None \<Rightarrow> Some Panic
        | Some srv \<Rightarrow> (case ask call er fin srv w of
            (Final reply, w1) \<Rightarrow> Some (Returned (reply, leader, w1))
          | (Undefined, w1) \<Rightarrow> Some Panic
          | (Again, w1) \<Rightarrow>
             (case (if (k + 1) mod int (length servers) = 0 then sl (k + 1) w1 else Some w1) of
                None \<Rightarrow> Some Panic
              | Some w2 \<Rightarrow> f call er fin sl servers (k + 1) ((leader + 1) mod int (length servers)) w2))) = Some x"
    from body eqs(5) obtain srv where srv: "slice_at servers leader = Some srv" by (auto split: option.splits)
    obtain a w1 where a: "ask (rpc do_op nil handler q) err final srv w = (a, w1)" by force
    show "answered w reply w'"
    proof (cases a)
      case (Final r)
      then show ?thesis using body srv a eqs ask_answered by auto
    next
      case Again
      then obtain w2 where w2: "(if (k + 1) mod int (length servers) = 0 then pause cap base (k + 1) w1 else Some w1) = Some w2"
        and rest: "f call er fin sl servers (k + 1) ((leader + 1) mod int (length servers)) w2 = Some x"
        using body srv a eqs by (auto split: option.splits)
      note f = turn_frame [OF a [unfolded Again] w2]
      show ?thesis by (rule answered_later [OF f(2,4)]) (use IH [OF rest] eqs in auto)
    qed (use body srv a eqs in auto)
  qed
  then show ?thesis by simp
qed

text \<open>The servers are called in turn; the loop gives up only after all its attempts.\<close>

lemma turns_shift:
  "map (\<lambda>i. f ((leader + int i) mod m)) [0..<Suc k] = f (leader mod m) # map (\<lambda>i. f (((leader + 1) mod m + int i) mod m)) [0..<k]"
proof -
  have "((leader + 1) mod m + int i) mod m = (leader + int (Suc i)) mod m" for i
    unfolding mod_add_left_eq by (simp add: add.assoc)
  then show ?thesis by (simp only: upt_conv_Cons zero_less_Suc map_Suc_upt [symmetric] list.map map_map o_def int_ops add_0_right)
qed

lemma ask_rounds_calls:
  assumes "ask_rounds (rpc do_op nil handler q) err final (pause cap base) servers n k leader w = Some (r, w')"
    and "0 \<le> leader" "leader < int (length servers)"
  shows "\<exists>j \<le> n. w_calls w' = w_calls w @ map (\<lambda>i. servers ! nat ((leader + int i) mod int (length servers))) [0..<j] \<and>
    (r = None \<longrightarrow> j = n) \<and> (\<forall>rep l. r = Some (rep, l) \<longrightarrow> 0 \<le> l \<and> l < int (length servers))"
  using assms
proof (induction n arbitrary: k leader w)
  case (Suc n)
  let ?m = "int (length servers)"
  have srv: "slice_at servers leader = Some (servers ! nat leader)" using Suc.prems(2,3) by (simp add: slice_at_def)
  obtain a w1 where a: "ask (rpc do_op nil handler q) err final (servers ! nat leader) w = (a, w1)" by force
  show ?case
  proof (cases a)
    case (Final r)
    then show ?thesis using Suc.prems srv a ask_frame(1) [OF a] by (intro exI [of _ 1]) auto
  next
    case Again
    then obtain w2 where w2: "(if (k + 1) mod ?m = 0 then pause cap base ((k + 1) div ?m) w1 else Some w1) = Some w2"
      and rest: "ask_rounds (rpc do_op nil handler q) err final (pause cap base) servers n (k + 1) ((leader + 1) mod ?m) w2 = Some (r, w')"
      using Suc.prems srv a by (auto simp: bind_eq_Some_conv)
    have "0 \<le> (leader + 1) mod ?m" "(leader + 1) mod ?m < ?m" using next_leader [OF Suc.prems(2,3)] by simp_all
    from Suc.IH [OF rest this] obtain j where j: "j \<le> n"
      "w_calls w' = w_calls w2 @ map (\<lambda>i. servers ! nat (((leader + 1) mod ?m + int i) mod ?m)) [0..<j]"
      "r = None \<longrightarrow> j = n" "\<forall>rep l. r = Some (rep, l) \<longrightarrow> 0 \<le> l \<and> l < ?m" by auto
    have "leader mod ?m = leader" using Suc.prems(2,3) by simp
    with turns_shift [of "\<lambda>i. servers ! nat i" leader ?m j] j(2) turn_frame(1) [OF a [unfolded Again] w2]
    have "w_calls w' = w_calls w @ map (\<lambda>i. servers ! nat ((leader + int i) mod ?m)) [0..<Suc j]" by simp
    with j show ?thesis by (intro exI [of _ "Suc j"]) auto
  qed (use Suc.prems srv a in auto)
qed simp

lemma ask_rounds_leader:
  assumes "ask_rounds (rpc do_op nil handler q) err final (pause cap base) servers n k leader w = Some (Some (rep, l), w')"
    and "0 \<le> leader" "leader < int (length servers)"
  shows "0 \<le> l \<and> l < int (length servers)"
  using ask_rounds_calls [OF assms] by blast

end

text \<open>
  The contract of a service that answers every valid request of the clerk with an error the clerk
  knows.
\<close>

locale safe_call = service_call +
  fixes ok :: "'a \<Rightarrow> bool" and valid :: "'b \<Rightarrow> bool"
  assumes total: "ok s \<Longrightarrow> valid r \<Longrightarrow> \<exists>s' p. do_op s r = Some (s', p) \<and> ok s'"
    and valid_q: "valid q"
    and replies: "ok s \<Longrightarrow> do_op s q = Some (s', p) \<Longrightarrow> \<exists>rep. handler (\<lambda>_. (OK, p)) = Some rep \<and> err rep \<in> final"
begin

lemma run_ok: "ok s \<Longrightarrow> list_all valid qs \<Longrightarrow> run_ops do_op s qs = Some (s', ps) \<Longrightarrow> ok s'"
proof (induction qs arbitrary: s ps)
  case (Cons r qs)
  with total [of s r] show ?case by (auto simp: bind_eq_Some_conv)
qed simp

lemma logged_ok: "logged do_op (insert q Q) w w' \<Longrightarrow> ok (w_sm w) \<Longrightarrow> \<forall>r \<in> Q. valid r \<Longrightarrow> ok (w_sm w')"
  using run_ok valid_q by (fastforce simp: logged_def list_all_iff)

lemma ask_defined:
  assumes "ask (rpc do_op nil handler q) err final srv w = (a, w')" "ok (w_sm w)" "\<forall>r \<in> plan_reqs w. valid r"
  shows "a \<noteq> Undefined"
proof
  assume "a = Undefined"
  with assms(1) obtain rep where rep: "rpc do_op nil handler q srv w = (Some rep, w')" "err rep \<notin> final" "err rep \<noteq> ErrWrongLeader"
    by (auto simp: ask_def split: prod.splits option.splits if_splits)
  from rpc_answer [OF this(1,3)] obtain w1 p where w1: "logged do_op (plan_reqs w) w w1"
    "execute do_op q w1 = (Some p, w')" "handler (\<lambda>_. (OK, p)) = Some rep" by blast
  have "ok (w_sm w1)" using logged_ok [OF logged_mono [OF w1(1) subset_insertI]] assms(2,3) by blast
  with replies [of "w_sm w1"] w1(2,3) rep(2) show False by (auto simp: execute_def split: option.splits prod.splits)
qed

lemma turn_ok:
  assumes "ask (rpc do_op nil handler q) err final srv w = (Again, w1)"
    and "(if b then pause cap base k w1 else Some w1) = Some w2" and "ok (w_sm w)" "\<forall>r \<in> plan_reqs w. valid r"
  shows "ok (w_sm w2)" "\<forall>r \<in> plan_reqs w2. valid r"
  using turn_frame(2,4) [OF assms(1,2)] logged_ok assms(3,4) by blast+

lemma ask_rounds_returns:
  assumes "0 \<le> leader" "leader < int (length servers)" "ok (w_sm w)" "\<forall>r \<in> plan_reqs w. valid r"
    and "2 \<le> base" "base \<le> cap" "cap \<le> 2 * Second"
  shows "\<exists>x. ask_rounds (rpc do_op nil handler q) err final (pause cap base) servers n k leader w = Some x"
  using assms(1-4)
proof (induction n arbitrary: k leader w)
  case (Suc n)
  let ?m = "int (length servers)"
  have srv: "slice_at servers leader = Some (servers ! nat leader)" using Suc.prems(1,2) by (simp add: slice_at_def)
  obtain a w1 where a: "ask (rpc do_op nil handler q) err final (servers ! nat leader) w = (a, w1)" by force
  obtain w2 where w2: "(if (k + 1) mod ?m = 0 then pause cap base ((k + 1) div ?m) w1 else Some w1) = Some w2"
    using pause_Some [OF assms(5-7)] by (cases "(k + 1) mod ?m = 0") auto
  show ?case
  proof (cases a)
    case Again
    note t = turn_ok [OF a [unfolded Again] w2 Suc.prems(3,4)]
    have "0 \<le> (leader + 1) mod ?m" "(leader + 1) mod ?m < ?m" using next_leader [OF Suc.prems(1,2)] by simp_all
    from Suc.IH [OF this t, of "k + 1"] a Again srv w2 show ?thesis by auto
  qed (use a srv ask_defined [OF a Suc.prems(3,4)] in auto)
qed simp

text \<open>An RPC that the network lets through is answered.\<close>

lemma ask_let_through:
  assumes "w_plan w = (others, Answered) # rest" "ok (w_sm w)" "\<forall>r \<in> plan_reqs w. valid r"
  shows "\<exists>reply w'. ask (rpc do_op nil handler q) err final srv w = (Final reply, w')"
proof -
  let ?w = "w\<lparr>w_calls := w_calls w @ [srv], w_plan := rest\<rparr>"
  have "logged do_op (insert q (plan_reqs w)) ?w (execute_all do_op others ?w)"
    by (rule logged_execute_all) (use assms(1) in \<open>auto simp: plan_reqs_def\<close>)
  then have "ok (w_sm (execute_all do_op others ?w))" using logged_ok assms(2,3) by fastforce
  then obtain s' p rep where "do_op (w_sm (execute_all do_op others ?w)) q = Some (s', p)"
    "handler (\<lambda>_. (OK, p)) = Some rep" "err rep \<in> final"
    using total [OF _ valid_q] replies by blast
  with assms(1) show ?thesis by (simp add: ask_def rpc_def execute_def Let_def)
qed

lemma ask_forever_returns:
  assumes "0 \<le> leader" "leader < int (length servers)" "ok (w_sm w)" "\<forall>r \<in> plan_reqs w. valid r"
    and "2 \<le> base" "base \<le> cap" "cap \<le> 2 * Second" and "Answered \<in> snd ` set (w_plan w)"
  shows "\<exists>x. ask_forever (rpc do_op nil handler q) err final (pause cap base) servers k leader w = Some (Returned x)"
  using assms(1-4,8)
proof (induction "length (w_plan w)" arbitrary: k leader w)
  case (Suc n)
  let ?m = "int (length servers)"
  have srv: "slice_at servers leader = Some (servers ! nat leader)" using Suc.prems(1,2) by (simp add: slice_at_def)
  obtain a w1 where a: "ask (rpc do_op nil handler q) err final (servers ! nat leader) w = (a, w1)" by force
  obtain w2 where w2: "(if (k + 1) mod ?m = 0 then pause cap base (k + 1) w1 else Some w1) = Some w2"
    using pause_Some [OF assms(5-7)] by (cases "(k + 1) mod ?m = 0") auto
  obtain others f rest where plan: "w_plan w = (others, f) # rest" using Suc.hyps(2) by (cases "w_plan w") auto
  show ?case
  proof (cases a)
    case Again
    note t = turn_ok [OF a [unfolded Again] w2 Suc.prems(3,4)]
    have "f \<noteq> Answered" 
      using ask_let_through [OF _ Suc.prems(3,4), of others rest "servers ! nat leader"] plan a Again by auto
    with Suc.prems(5) plan turn_frame(3) [OF a [unfolded Again] w2] Suc.hyps(2)
    have "Answered \<in> snd ` set (w_plan w2)" "n = length (w_plan w2)" by auto
    moreover have "0 \<le> (leader + 1) mod ?m" "(leader + 1) mod ?m < ?m" using next_leader [OF Suc.prems(1,2)] by simp_all
    ultimately obtain x where "ask_forever (rpc do_op nil handler q) err final (pause cap base) servers (k + 1)
        ((leader + 1) mod ?m) w2 = Some (Returned x)"
      using Suc.hyps(1) [OF _ _ _ t, of "(leader + 1) mod ?m" "k + 1"] by blast
    then show ?thesis using a Again srv w2 by (subst ask_forever.simps) (cases x, simp)
  next
    case (Final r)
    then show ?thesis using a srv by (subst ask_forever.simps) simp
  qed (use ask_defined [OF a Suc.prems(3,4)] in simp)
qed simp

end

section \<open>Properties\<close>

text \<open>
  C37. The backoff is exponential, jittered and bounded: after \<open>retry\<close> failures a clerk with base
  time \<open>base\<close> and limit \<open>cap\<close> sleeps at least half and less than all of the smaller of \<open>cap\<close> and
  \<open>base * 2 ^ retry\<close>, and never panics, whatever the random generator gives.
\<close>

theorem backoff_in_range:
  assumes "2 \<le> base" "base \<le> cap" "cap \<le> 2 * Second"
  shows "\<exists>t. backoffWithJitter cap base retry r = Some t \<and>
    min cap (base * 2 ^ nat retry) div 2 \<le> t \<and> t < 2 * (min cap (base * 2 ^ nat retry) div 2)"
proof -
  let ?h = "min cap (base * 2 ^ nat retry) div 2"
  note b = backoff_value [OF assms, of retry]
  have "0 \<le> r mod ?h" "r mod ?h < ?h" using b(1) by simp_all
  then show ?thesis unfolding b(2) by auto
qed

theorem backoff_in_range_witness:
  "\<exists>t. backoffWithJitter (2 * Second) (100 * Millisecond) 3 12345 = Some t \<and> 400 * Millisecond \<le> t \<and> t < 800 * Millisecond"
  using backoff_in_range [of "100 * Millisecond" "2 * Second" 3 12345] by simp

end
