(* ===== verification/Kvraft_Clerk.thy ===== *)
theory Kvraft_Clerk
  imports Clerk_Loop Kvraft_Server
begin

text \<open>
  The clerk of the replicated key/value service, \<open>kvraft/client.go\<close>, running against the service of
  \<open>Kvraft_Server\<close> behind an unreliable network. Its Get and Put ask one server after the other until
  one answers; Put carries a request number, so that the service executes it once.
\<close>

section \<open>The clerk\<close>

text \<open>\<open>nrand\<close> reads eight random bytes; \<open>None\<close> is a failed read, which panics.\<close>

definition nrand :: "bytes option \<Rightarrow> u64 option" where
  "nrand b = map_option (\<lambda>bs. word_of_int (horner_sum uint 256 bs)) b"

record KvraftClerk =
  kc_servers :: "string list"
  kc_leader :: int
  kc_clientId :: u64
  kc_requestId :: u64
  kc_backoffTime :: int

definition kvraft_MakeClerk :: "string list \<Rightarrow> bytes option \<Rightarrow> KvraftClerk option" where
  "kvraft_MakeClerk servers b = do {
     id \<leftarrow> nrand b;
     Some \<lparr>kc_servers = servers, kc_leader = 0, kc_clientId = id, kc_requestId = 0,
           kc_backoffTime = 100 * Millisecond\<rparr> }"

definition kvraft_nextReqId :: "KvraftClerk \<Rightarrow> KvraftClerk \<times> u64" where
  "kvraft_nextReqId ck = (ck\<lparr>kc_requestId := kc_requestId ck + 1\<rparr>, kc_requestId ck + 1)"

definition kvraft_Leader :: "KvraftClerk \<Rightarrow> int" where
  "kvraft_Leader ck = kc_leader ck"

definition kvraft_backoffWithJitter :: "KvraftClerk \<Rightarrow> int \<Rightarrow> ('s, 'q) world \<Rightarrow> ('s, 'q) world option" where
  "kvraft_backoffWithJitter ck retry w = pause (2 * Second) (kc_backoffTime ck) retry w"

text \<open>The RPCs of the service.\<close>

type_synonym kv_world = "(KvraftServer, kv_req) world"

definition call_kvraft_Get :: "GetArgs \<Rightarrow> string \<Rightarrow> kv_world \<Rightarrow> GetReply option \<times> kv_world" where
  "call_kvraft_Get args = rpc kvraft_DoOp NilRep
     (\<lambda>submit. kvraft_Get submit args \<lparr>gr_Value = '''', gr_Version = 0, gr_Err = ErrZero\<rparr>) (GetReq args)"

definition call_kvraft_Put :: "PutArgs \<Rightarrow> string \<Rightarrow> kv_world \<Rightarrow> PutReply option \<times> kv_world" where
  "call_kvraft_Put args = rpc kvraft_DoOp NilRep
     (\<lambda>submit. kvraft_Put submit args \<lparr>pr_Err = ErrZero\<rparr>) (PutReq args)"

text \<open>\<open>None\<close>: the loop never ends. The result has the clerk, with the leader it found.\<close>

definition kvraft_Clerk_Get ::
    "KvraftClerk \<Rightarrow> string \<Rightarrow> kv_world \<Rightarrow> (KvraftClerk \<times> (string \<times> Tversion \<times> Err) \<times> kv_world) outcome option" where
  "kvraft_Clerk_Get ck key w = map_option (map_outcome
       (\<lambda>(reply, leader, w'). (ck\<lparr>kc_leader := leader\<rparr>, (gr_Value reply, gr_Version reply, gr_Err reply), w')))
     (ask_forever (call_kvraft_Get \<lparr>ga_Key = key\<rparr>) gr_Err {OK, ErrNoKey} (kvraft_backoffWithJitter ck)
        (kc_servers ck) 0 (kc_leader ck) w)"

definition kvraft_Clerk_Put ::
    "KvraftClerk \<Rightarrow> string \<Rightarrow> string \<Rightarrow> Tversion \<Rightarrow> kv_world \<Rightarrow> (KvraftClerk \<times> Err \<times> kv_world) outcome option" where
  "kvraft_Clerk_Put ck0 key val version w = (case kvraft_nextReqId ck0 of (ck, reqId) \<Rightarrow>
     let args = \<lparr>pa_ClientId = kc_clientId ck, pa_RequestId = reqId, pa_Key = key, pa_Value = val, pa_Version = version\<rparr>
     in map_option (map_outcome (\<lambda>(reply, leader, w'). (ck\<lparr>kc_leader := leader\<rparr>, pr_Err reply, w')))
       (ask_forever (call_kvraft_Put args) pr_Err {OK, ErrNoKey, ErrVersion} (kvraft_backoffWithJitter ck)
          (kc_servers ck) 0 (kc_leader ck) w))"

section \<open>The service answers what the clerk expects\<close>

text \<open>The table of last puts holds only replies that a put can have.\<close>

definition kvraft_answers :: "KvraftServer \<Rightarrow> bool" where
  "kvraft_answers kv \<longleftrightarrow> kvraft_ok kv \<and>
     (\<forall>c p. kvraft_last kv c = Some p \<longrightarrow> pr_Err (lp_Reply p) \<in> {OK, ErrVersion, ErrNoKey})"

lemma kvraft_put_answers:
  assumes "kvraft_answers kv"
  shows "kvraft_answers (fst (kvraft_put_err kv a)) \<and> snd (kvraft_put_err kv a) \<in> {OK, ErrVersion, ErrNoKey}"
proof (cases "fresh (kvraft_last kv) a")
  case True
  have ok: "kvraft_ok kv" using assms by (simp add: kvraft_answers_def)
  have "snd (kvraft_put_err kv a) \<in> {OK, ErrVersion, ErrNoKey}"
    using kvraft.put_refines [of kv a] ok True spec_put_Err by auto
  moreover have "kvraft_ok (fst (kvraft_put_err kv a))" using kvraft.put_serves ok by simp
  ultimately show ?thesis using kvraft.fresh_recorded [OF ok True] assms
    by (auto simp: kvraft_answers_def split: if_splits)
next
  case False
  then obtain p where p: "kvraft_last kv (pa_ClientId a) = Some p" "pa_RequestId a \<le> lp_RequestId p"
    unfolding kvraft.not_fresh by blast
  then have "kvraft_put_err kv a = (kv, pr_Err (lp_Reply p))" using kvraft.duplicate_answered assms
    by (simp add: kvraft_answers_def)
  with assms p(1) show ?thesis by (auto simp: kvraft_answers_def)
qed

lemma kvraft_answers_total:
  assumes "kvraft_answers kv"
  shows "\<exists>kv' p. kvraft_DoOp kv q = Some (kv', p) \<and> kvraft_answers kv'"
  using kvraft_put_answers [OF assms] kvraft_put_err_ok assms
  by (cases q) (auto simp: kvraft_answers_def [of kv])

interpretation kvraft_get: safe_call kvraft_DoOp NilRep
  "\<lambda>submit. kvraft_Get submit args \<lparr>gr_Value = '''', gr_Version = 0, gr_Err = ErrZero\<rparr>" "GetReq args" gr_Err
  "{OK, ErrNoKey}" kvraft_answers "\<lambda>q. True" for args
proof unfold_locales
  show "\<exists>kv' p. kvraft_DoOp kv q = Some (kv', p) \<and> kvraft_answers kv'" if "kvraft_answers kv" for kv q
    using that by (rule kvraft_answers_total)
qed (auto simp: kvraft_Get_def kvraft_DoOp_Get_def split: option.splits)

interpretation kvraft_put: safe_call kvraft_DoOp NilRep
  "\<lambda>submit. kvraft_Put submit args \<lparr>pr_Err = ErrZero\<rparr>" "PutReq args" pr_Err
  "{OK, ErrNoKey, ErrVersion}" kvraft_answers "\<lambda>q. True" for args
proof unfold_locales
  show "\<exists>kv' p. kvraft_DoOp kv q = Some (kv', p) \<and> kvraft_answers kv'" if "kvraft_answers kv" for kv q
    using that by (rule kvraft_answers_total)
next
  fix kv kv' p
  assume "kvraft_answers kv" "kvraft_DoOp kv (PutReq args) = Some (kv', p)"
  with kvraft_put_answers [of kv args] kvraft_put_err_ok [of kv args]
  show "\<exists>rep. kvraft_Put (\<lambda>_. (OK, p)) args \<lparr>pr_Err = ErrZero\<rparr> = Some rep \<and> pr_Err rep \<in> {OK, ErrNoKey, ErrVersion}"
    by (auto simp: kvraft_Put_def kvraft_answers_def)
qed (auto simp: kvraft_Put_def)

section \<open>Put\<close>

abbreviation kv_of :: "kv_world \<Rightarrow> kvmap" where
  "kv_of w \<equiv> go_copy (kr_kvm (w_sm w))"

lemma run_kvraft_state:
  assumes "kvraft_ok kv" "run_ops kvraft_DoOp kv qs = Some (kv', ps)"
  shows "kv' = fst (run_puts kvraft_put_err kv (puts_of qs))"
  using run_kvraft [OF assms(1), of qs] assms(2) by auto

lemma puts_of_set: "set (puts_of qs) = {a. PutReq a \<in> set qs}"
  by (induction qs rule: puts_of.induct) auto

text \<open>A put that has been answered was executed once, and the answer is that of the execution.\<close>

lemma kvraft_answered_once:
  assumes ok: "kvraft_ok (w_sm w)" and fr: "fresh (kvraft_last (w_sm w)) a"
    and others: "\<forall>b. PutReq b \<in> plan_reqs w \<longrightarrow> pa_ClientId b \<noteq> pa_ClientId a"
    and ans: "kvraft_put.answered a w reply w'"
  shows "\<exists>xs ys. (\<forall>b \<in> set (xs @ ys). PutReq b \<in> plan_reqs w) \<and>
    kv_of w' = fst (spec_puts (kv_of w) (xs @ a # ys)) \<and>
    pr_Err reply = snd (spec_put (fst (spec_puts (kv_of w) xs)) a)"
proof -
  obtain w1 p qs ps where w1: "set qs \<subseteq> insert (PutReq a) (plan_reqs w)"
    "run_ops kvraft_DoOp (w_sm w) qs = Some (w_sm w1, ps)" "execute kvraft_DoOp (PutReq a) w1 = (Some p, w')"
    "kvraft_Put (\<lambda>_. (OK, p)) a \<lparr>pr_Err = ErrZero\<rparr> = Some reply"
    using ans by (auto simp: kvraft_put.answered_def logged_def)
  let ?run = "\<lambda>as. fst (run_puts kvraft_put_err (w_sm w) as)"
  note s1 = run_kvraft_state [OF ok w1(2)]
  have ok1: "kvraft_ok (w_sm w1)" unfolding s1 by (rule run_kvraft_ok [OF ok])
  have last: "w_sm w' = fst (kvraft_put_err (w_sm w1) a)" "pr_Err reply = snd (kvraft_put_err (w_sm w1) a)"
    using w1(3,4) by (auto simp: execute_def kvraft_put_err_ok [OF ok1] kvraft_Put_def split: option.splits)
  have w': "w_sm w' = ?run (puts_of qs @ [a])" using last(1) s1 by (simp add: run_puts_append case_prod_beta Let_def)
  have mem: "a \<in> set (puts_of qs @ [a])" by simp
  from split_list_first [OF mem] obtain pre post where split: "puts_of qs @ [a] = pre @ a # post" "a \<notin> set pre" by blast
  have oth: "b = a \<or> PutReq b \<in> plan_reqs w" if "b \<in> set (pre @ a # post)" for b
    using that w1(1) unfolding split(1) [symmetric] by (auto simp: puts_of_set)
  have pre: "\<forall>b \<in> set pre. pa_ClientId b \<noteq> pa_ClientId a" using oth others split(2) by auto
  have post: "\<forall>b \<in> set post. b = a \<or> pa_ClientId b \<noteq> pa_ClientId a" using oth others by auto
  obtain xs ys where xy: "\<forall>b \<in> set (xs @ ys). pa_ClientId b \<noteq> pa_ClientId a" "set (xs @ ys) \<subseteq> set (pre @ post)"
    "go_copy (kr_kvm (?run (pre @ a # post))) = fst (spec_puts (kv_of w) (xs @ a # ys))"
    "snd (kvraft_put_err (?run pre) a) = snd (spec_put (fst (spec_puts (kv_of w) xs)) a)"
    using kvraft.once_among_others [OF _ fr pre post] ok by auto
  have "snd (kvraft_put_err (w_sm w1) a) = snd (kvraft_put_err (?run pre) a)"
  proof (cases post rule: rev_cases)
    case Nil
    then show ?thesis using split s1 by simp
  next
    case (snoc mid z)
    then have "puts_of qs = pre @ a # mid" using split(1) by simp
    then have "w_sm w1 = fst (run_puts kvraft_put_err (?run pre) (a # mid))" using s1 by (simp add: run_puts_append)
    moreover have "\<forall>b \<in> set mid. pa_ClientId b = pa_ClientId a \<longrightarrow> pa_RequestId b \<le> pa_RequestId a"
      using post snoc by auto
    ultimately show ?thesis using kvraft.retry_same_reply [of a mid a "?run pre"] run_kvraft_ok [OF ok] by simp
  qed
  with xy(4) last(2) have "pr_Err reply = snd (spec_put (fst (spec_puts (kv_of w) xs)) a)" by simp
  moreover have "\<forall>b \<in> set (xs @ ys). PutReq b \<in> plan_reqs w" using xy(1,2) oth by auto
  ultimately show ?thesis using xy(3) w' split(1) by auto
qed

section \<open>Properties\<close>

lemmas kvraft_clerk_defs = kvraft_Clerk_Put_def kvraft_Clerk_Get_def call_kvraft_Put_def call_kvraft_Get_def
  kvraft_nextReqId_def kvraft_backoffWithJitter_def [abs_def]

lemma kvraft_Clerk_Get_answered:
  assumes "kvraft_Clerk_Get ck key w = Some (Returned (ck', (val, version, e), w'))"
  shows "\<exists>reply. kvraft_get.answered \<lparr>ga_Key = key\<rparr> w reply w' \<and> (val, version, e) = (gr_Value reply, gr_Version reply, gr_Err reply)"
proof -
  obtain reply leader where "ask_forever (call_kvraft_Get \<lparr>ga_Key = key\<rparr>) gr_Err {OK, ErrNoKey} (kvraft_backoffWithJitter ck)
      (kc_servers ck) 0 (kc_leader ck) w = Some (Returned (reply, leader, w'))"
    "(val, version, e) = (gr_Value reply, gr_Version reply, gr_Err reply)"
    using assms by (auto simp: kvraft_Clerk_Get_def)
  moreover from kvraft_get.ask_forever_answered [OF this(1) [unfolded kvraft_clerk_defs]]
  have "kvraft_get.answered \<lparr>ga_Key = key\<rparr> w reply w'" .
  ultimately show ?thesis by blast
qed

lemma kvraft_Clerk_Put_answered:
  assumes "kvraft_Clerk_Put ck key val version w = Some (Returned (ck', e, w'))"
  defines "a \<equiv> \<lparr>pa_ClientId = kc_clientId ck, pa_RequestId = kc_requestId ck + 1, pa_Key = key, pa_Value = val, pa_Version = version\<rparr>"
  shows "\<exists>reply. kvraft_put.answered a w reply w' \<and> e = pr_Err reply"
proof -
  obtain reply leader where "ask_forever (call_kvraft_Put a) pr_Err {OK, ErrNoKey, ErrVersion} (kvraft_backoffWithJitter ck)
      (kc_servers ck) 0 (kc_leader ck) w = Some (Returned (reply, leader, w'))" "e = pr_Err reply"
    using assms(1) by (auto simp: kvraft_Clerk_Put_def kvraft_nextReqId_def kvraft_backoffWithJitter_def [abs_def] a_def Let_def)
  moreover from kvraft_put.ask_forever_answered [OF this(1) [unfolded kvraft_clerk_defs]]
  have "kvraft_put.answered a w reply w'" .
  ultimately show ?thesis by blast
qed


text \<open>Two servers; the first put is executed but its reply is lost, then another client overwrites the key.\<close>

definition clerk_world :: kv_world where
  "clerk_world = \<lparr>w_sm = \<lparr>kr_me = 0, kr_kvm = Some Map.empty, kr_lastPutByClientId = Some Map.empty\<rparr>, w_log = [],
     w_plan = [([], AnswerLost), ([PutReq \<lparr>pa_ClientId = 9, pa_RequestId = 1, pa_Key = ''k'', pa_Value = ''z'', pa_Version = 1\<rparr>], Answered)],
     w_calls = [], w_rand = [], w_slept = []\<rparr>"

definition clerk_7 :: KvraftClerk where
  "clerk_7 = \<lparr>kc_servers = [''s0'', ''s1''], kc_leader = 0, kc_clientId = 7, kc_requestId = 0, kc_backoffTime = 100 * Millisecond\<rparr>"


lemma clerk_world_facts:
  "kvraft_ok (w_sm clerk_world)" "kvraft_answers (w_sm clerk_world)" "fresh (kvraft_last (w_sm clerk_world)) a"
  "PutReq b \<in> plan_reqs clerk_world \<Longrightarrow> pa_ClientId b = 9"
  by (auto simp: clerk_world_def kvraft_ok_def kvraft_answers_def kvraft_last_def fresh_def plan_reqs_def)





end
