(* ===== verification/Shardgrp_Clerk.thy ===== *)
theory Shardgrp_Clerk
  imports Clerk_Loop Shardgrp_Server
begin

text \<open>
  The clerk of one shard group, \<open>shardkv/shardgrp/client.go\<close>: Get and Put for the clients, Freeze,
  Install and Delete for the controller. Each asks every server of the group twice at most and then
  gives up with ErrRetryExhausted. \<open>None\<close> is a panic.
\<close>

section \<open>The clerk\<close>

record ShardgrpClerk =
  gc_servers :: "string list"
  gc_leader :: int
  gc_clientId :: u64
  gc_maxAttempts :: int
  gc_backoffTime :: int

definition shardgrp_MakeClerk :: "string list \<Rightarrow> u64 \<Rightarrow> ShardgrpClerk" where
  "shardgrp_MakeClerk servers clientId =
     \<lparr>gc_servers = servers, gc_leader = 0, gc_clientId = clientId,
      gc_maxAttempts = int (length servers) * 2, gc_backoffTime = 100 * Millisecond\<rparr>"

definition shardgrp_Leader :: "ShardgrpClerk \<Rightarrow> int" where
  "shardgrp_Leader ck = gc_leader ck"

definition shardgrp_backoffWithJitter :: "ShardgrpClerk \<Rightarrow> int \<Rightarrow> ('s, 'q) world \<Rightarrow> ('s, 'q) world option" where
  "shardgrp_backoffWithJitter ck round w = pause Second (gc_backoffTime ck) round w"

text \<open>The RPCs of a group.\<close>

type_synonym sg_world = "(ShardgrpServer, sg_req) world"

definition call_Get :: "GetArgs \<Rightarrow> string \<Rightarrow> sg_world \<Rightarrow> GetReply option \<times> sg_world" where
  "call_Get args = rpc shardgrp_DoOp SNil
     (\<lambda>submit. shardgrp_Get submit args \<lparr>gr_Value = '''', gr_Version = 0, gr_Err = ErrZero\<rparr>) (SGet args)"

definition call_Put :: "PutArgs \<Rightarrow> string \<Rightarrow> sg_world \<Rightarrow> PutReply option \<times> sg_world" where
  "call_Put args = rpc shardgrp_DoOp SNil (\<lambda>submit. shardgrp_Put submit args \<lparr>pr_Err = ErrZero\<rparr>) (SPut args)"

definition call_FreezeShard :: "FreezeShardArgs \<Rightarrow> string \<Rightarrow> sg_world \<Rightarrow> FreezeShardReply option \<times> sg_world" where
  "call_FreezeShard args = rpc shardgrp_DoOp SNil
     (\<lambda>submit. shardgrp_FreezeShard submit args \<lparr>fr_State = None, fr_Num = 0, fr_Err = ErrZero\<rparr>) (SFreeze args)"

definition call_InstallShard :: "InstallShardArgs \<Rightarrow> string \<Rightarrow> sg_world \<Rightarrow> InstallShardReply option \<times> sg_world" where
  "call_InstallShard args = rpc shardgrp_DoOp SNil
     (\<lambda>submit. shardgrp_InstallShard submit args \<lparr>ir_Err = ErrZero\<rparr>) (SInstall args)"

definition call_DeleteShard :: "DeleteShardArgs \<Rightarrow> string \<Rightarrow> sg_world \<Rightarrow> DeleteShardReply option \<times> sg_world" where
  "call_DeleteShard args = rpc shardgrp_DoOp SNil
     (\<lambda>submit. shardgrp_DeleteShard submit args \<lparr>dr_Err = ErrZero\<rparr>) (SDelete args)"

text \<open>
  The five methods. Each starts at the leader of the last success and remembers the server that
  answered. Get and Put are given for any way to call a server and to sleep, so that they can run
  against one group and against the whole system.
\<close>

definition shardgrp_Get_with ::
    "(GetArgs \<Rightarrow> string \<Rightarrow> 'w \<Rightarrow> GetReply option \<times> 'w) \<Rightarrow> (ShardgrpClerk \<Rightarrow> int \<Rightarrow> 'w \<Rightarrow> 'w option) \<Rightarrow>
     ShardgrpClerk \<Rightarrow> string \<Rightarrow> 'w \<Rightarrow> (ShardgrpClerk \<times> (string \<times> Tversion \<times> Err) \<times> 'w) option" where
  "shardgrp_Get_with call sleep ck key w = do {
     (r, w') \<leftarrow> ask_rounds (call \<lparr>ga_Key = key\<rparr>) gr_Err {OK, ErrNoKey, ErrWrongGroup} (sleep ck)
       (gc_servers ck) (nat (gc_maxAttempts ck)) 0 (gc_leader ck) w;
     Some (case r of
         Some (reply, leader) \<Rightarrow> (ck\<lparr>gc_leader := leader\<rparr>, (gr_Value reply, gr_Version reply, gr_Err reply), w')
       | None \<Rightarrow> (ck, ('''', 0, ErrRetryExhausted), w')) }"

definition shardgrp_Put_with ::
    "(PutArgs \<Rightarrow> string \<Rightarrow> 'w \<Rightarrow> PutReply option \<times> 'w) \<Rightarrow> (ShardgrpClerk \<Rightarrow> int \<Rightarrow> 'w \<Rightarrow> 'w option) \<Rightarrow>
     ShardgrpClerk \<Rightarrow> u64 \<Rightarrow> string \<Rightarrow> string \<Rightarrow> Tversion \<Rightarrow> 'w \<Rightarrow> (ShardgrpClerk \<times> Err \<times> 'w) option" where
  "shardgrp_Put_with call sleep ck requestId key val version w = do {
     (r, w') \<leftarrow> ask_rounds
       (call \<lparr>pa_ClientId = gc_clientId ck, pa_RequestId = requestId, pa_Key = key, pa_Value = val, pa_Version = version\<rparr>)
       pr_Err {OK, ErrNoKey, ErrWrongGroup, ErrVersion} (sleep ck)
       (gc_servers ck) (nat (gc_maxAttempts ck)) 0 (gc_leader ck) w;
     Some (case r of
         Some (reply, leader) \<Rightarrow> (ck\<lparr>gc_leader := leader\<rparr>, pr_Err reply, w')
       | None \<Rightarrow> (ck, ErrRetryExhausted, w')) }"

definition shardgrp_Clerk_Get ::
    "ShardgrpClerk \<Rightarrow> string \<Rightarrow> sg_world \<Rightarrow> (ShardgrpClerk \<times> (string \<times> Tversion \<times> Err) \<times> sg_world) option" where
  "shardgrp_Clerk_Get = shardgrp_Get_with call_Get shardgrp_backoffWithJitter"

definition shardgrp_Clerk_Put ::
    "ShardgrpClerk \<Rightarrow> u64 \<Rightarrow> string \<Rightarrow> string \<Rightarrow> Tversion \<Rightarrow> sg_world \<Rightarrow> (ShardgrpClerk \<times> Err \<times> sg_world) option" where
  "shardgrp_Clerk_Put = shardgrp_Put_with call_Put shardgrp_backoffWithJitter"

definition shardgrp_Clerk_FreezeShard ::
    "ShardgrpClerk \<Rightarrow> Tshid \<Rightarrow> Tnum \<Rightarrow> sg_world \<Rightarrow> (ShardgrpClerk \<times> (ShardState option \<times> Err) \<times> sg_world) option" where
  "shardgrp_Clerk_FreezeShard ck s num w = do {
     (r, w') \<leftarrow> ask_rounds (call_FreezeShard \<lparr>fa_Shard = s, fa_Num = num\<rparr>) fr_Err {OK, ErrWrongGroup}
       (shardgrp_backoffWithJitter ck) (gc_servers ck) (nat (gc_maxAttempts ck)) 0 (gc_leader ck) w;
     Some (case r of
         Some (reply, leader) \<Rightarrow> (ck\<lparr>gc_leader := leader\<rparr>, (fr_State reply, fr_Err reply), w')
       | None \<Rightarrow> (ck, (None, ErrRetryExhausted), w')) }"

definition shardgrp_Clerk_InstallShard ::
    "ShardgrpClerk \<Rightarrow> Tshid \<Rightarrow> ShardState option \<Rightarrow> Tnum \<Rightarrow> sg_world \<Rightarrow> (ShardgrpClerk \<times> Err \<times> sg_world) option" where
  "shardgrp_Clerk_InstallShard ck s state num w = do {
     (r, w') \<leftarrow> ask_rounds (call_InstallShard \<lparr>ia_Shard = s, ia_State = state, ia_Num = num\<rparr>) ir_Err {OK, ErrWrongGroup}
       (shardgrp_backoffWithJitter ck) (gc_servers ck) (nat (gc_maxAttempts ck)) 0 (gc_leader ck) w;
     Some (case r of
         Some (reply, leader) \<Rightarrow> (ck\<lparr>gc_leader := leader\<rparr>, ir_Err reply, w')
       | None \<Rightarrow> (ck, ErrRetryExhausted, w')) }"

definition shardgrp_Clerk_DeleteShard ::
    "ShardgrpClerk \<Rightarrow> Tshid \<Rightarrow> Tnum \<Rightarrow> sg_world \<Rightarrow> (ShardgrpClerk \<times> Err \<times> sg_world) option" where
  "shardgrp_Clerk_DeleteShard ck s num w = do {
     (r, w') \<leftarrow> ask_rounds (call_DeleteShard \<lparr>da_Shard = s, da_Num = num\<rparr>) dr_Err {OK, ErrWrongGroup}
       (shardgrp_backoffWithJitter ck) (gc_servers ck) (nat (gc_maxAttempts ck)) 0 (gc_leader ck) w;
     Some (case r of
         Some (reply, leader) \<Rightarrow> (ck\<lparr>gc_leader := leader\<rparr>, dr_Err reply, w')
       | None \<Rightarrow> (ck, ErrRetryExhausted, w')) }"

section \<open>What a group answers\<close>

definition put_reply_ok :: "LastPut \<Rightarrow> bool" where
  "put_reply_ok p \<longleftrightarrow> pr_Err (lp_Reply p) \<in> {OK, ErrVersion, ErrNoKey}"

definition sg_answers :: "ShardgrpServer \<Rightarrow> bool" where
  "sg_answers kv \<longleftrightarrow> sg_ok kv \<and> (\<forall>c p. sg_last kv c = Some p \<longrightarrow> put_reply_ok p)"

text \<open>Valid requests: moreover an installed state carries only such replies.\<close>

definition sg_sound :: "sg_req \<Rightarrow> bool" where
  "sg_sound q \<longleftrightarrow> sg_valid q \<and> (case q of
       SInstall a \<Rightarrow> (case ia_State a of None \<Rightarrow> False | Some st \<Rightarrow> \<forall>(c, p) \<in> set (ss_LastPutByClientId st). put_reply_ok p)
     | _ \<Rightarrow> True)"

lemma last_Freeze: "DoOp_Freeze kv a = Some (kv', r) \<Longrightarrow> sg_last kv' = sg_last kv"
  by (auto simp: DoOp_Freeze_def set_status_def bind_eq_Some_conv sg_last_def split: if_splits)

lemma last_Delete: "DoOp_Delete kv a = Some (kv', r) \<Longrightarrow> sg_last kv' = sg_last kv"
  by (auto simp: DoOp_Delete_def set_status_def bind_eq_Some_conv sg_last_def split: if_splits ShardStatus.splits) (meson ShardStatus.exhaust)

lemma last_Install:
  assumes "DoOp_Install kv a = Some (kv', r)" and "sg_last kv' c = Some p"
  shows "sg_last kv c = Some p \<or> (\<exists>st. ia_State a = Some st \<and> (c, p) \<in> set (ss_LastPutByClientId st))"
proof (cases "sg_last kv' = sg_last kv")
  case False
  then obtain kv1 kv2 where "installShardState kv (ia_Shard a) (ia_State a) = Some kv1" "sg_last kv' = sg_last kv1"
    using assms(1) by (auto simp: DoOp_Install_def set_status_def bind_eq_Some_conv sg_last_def split: if_splits)
  then show ?thesis using assms(2)
    by (auto simp: installShardState_def bind_eq_Some_conv sg_last_def dest!: foldl_merge_from split: if_splits)
qed (use assms(2) in simp)

lemma sg_answers_Put:
  assumes "sg_answers kv" and "shardgrp_DoOp_Put kv a = Some (kv', r)"
  shows "sg_answers kv' \<and> pr_Err r \<in> {OK, ErrNoKey, ErrWrongGroup, ErrVersion}"
proof -
  have ok: "sg_ok kv" using assms(1) by (simp add: sg_answers_def)
  have ok': "sg_ok kv'" using shardgrp_Put_ok [OF ok, of a] assms(2) by auto
  note form = assms(2) [unfolded shardgrp_Put_form [OF ok] Let_def]
  show ?thesis
  proof (cases "sg_shardStatuses kv ! nat (Key2Shard (pa_Key a)) = Serving \<and> fresh (sg_last kv) a")
    case True
    let ?r = "\<lparr>pr_Err = snd (spec_put (go_lookup (sg_kvm kv ! nat (Key2Shard (pa_Key a)))) a)\<rparr>"
    have "r = ?r" and last: "sg_last kv' = (sg_last kv)(pa_ClientId a \<mapsto> \<lparr>lp_RequestId = pa_RequestId a, lp_Reply = ?r\<rparr>)"
      using form True by (auto simp: sg_last_def)
    moreover have "pr_Err ?r \<in> {OK, ErrVersion, ErrNoKey}" using spec_put_Err by simp
    moreover from this have "put_reply_ok p" if "sg_last kv' c = Some p" for c p
      using that assms(1) by (cases "c = pa_ClientId a") (auto simp: last sg_answers_def put_reply_ok_def)
    ultimately show ?thesis using ok' by (auto simp: sg_answers_def)
  next
    case False
    then have "kv' = kv" and r: "r = \<lparr>pr_Err = ErrWrongGroup\<rparr> \<or>
        \<not> fresh (sg_last kv) a \<and> r = lp_Reply (the (sg_last kv (pa_ClientId a)))"
      using form by (auto split: if_splits)
    moreover have "put_reply_ok (the (sg_last kv (pa_ClientId a)))" if "\<not> fresh (sg_last kv) a"
      using that assms(1) unfolding sg_answers_def shardgrp.not_fresh by auto
    ultimately show ?thesis using assms(1) r by (auto simp: put_reply_ok_def)
  qed
qed

lemma sg_answers_total:
  assumes "sg_answers kv" and "sg_sound q"
  shows "\<exists>kv' p. shardgrp_DoOp kv q = Some (kv', p) \<and> sg_answers kv'"
proof -
  have ok: "sg_ok kv" and val: "sg_valid q" using assms by (simp_all add: sg_answers_def sg_sound_def)
  from shardgrp_DoOp_ok [OF this] obtain kv' p where r: "shardgrp_DoOp kv q = Some (kv', p)" "sg_ok kv'" by blast
  have "sg_answers kv'"
  proof (cases q)
    case (SPut a)
    then show ?thesis using r(1) sg_answers_Put [OF assms(1)] by auto
  next
    case (SFreeze a)
    with r assms(1) show ?thesis by (auto simp: sg_answers_def dest: last_Freeze)
  next
    case (SDelete a)
    with r assms(1) show ?thesis by (auto simp: sg_answers_def dest: last_Delete)
  next
    case (SInstall a)
    then have "sg_last kv' c = Some x \<Longrightarrow> put_reply_ok x" for c x
      using r(1) last_Install [of kv a kv' _ c x] assms by (auto simp: sg_answers_def sg_sound_def)
    with r(2) show ?thesis by (simp add: sg_answers_def)
  qed (use r assms(1) in \<open>auto simp: sg_answers_def\<close>)
  with r(1) show ?thesis by blast
qed

interpretation sg_get: safe_call shardgrp_DoOp SNil
  "\<lambda>submit. shardgrp_Get submit args \<lparr>gr_Value = '''', gr_Version = 0, gr_Err = ErrZero\<rparr>" "SGet args" gr_Err
  "{OK, ErrNoKey, ErrWrongGroup}" sg_answers sg_sound for args
proof unfold_locales
  show "\<exists>kv' p. shardgrp_DoOp kv q = Some (kv', p) \<and> sg_answers kv'" if "sg_answers kv" "sg_sound q" for kv q
    using that by (rule sg_answers_total)
next
  fix kv kv' p
  assume "shardgrp_DoOp kv (SGet args) = Some (kv', p)"
  then show "\<exists>rep. shardgrp_Get (\<lambda>_. (OK, p)) args \<lparr>gr_Value = '''', gr_Version = 0, gr_Err = ErrZero\<rparr> = Some rep \<and>
      gr_Err rep \<in> {OK, ErrNoKey, ErrWrongGroup}"
    by (auto simp: shardgrp_Get_def shardgrp_DoOp_Get_def bind_eq_Some_conv split: if_splits option.splits)
qed (auto simp: shardgrp_Get_def sg_sound_def)

interpretation sg_put: safe_call shardgrp_DoOp SNil
  "\<lambda>submit. shardgrp_Put submit args \<lparr>pr_Err = ErrZero\<rparr>" "SPut args" pr_Err
  "{OK, ErrNoKey, ErrWrongGroup, ErrVersion}" sg_answers sg_sound for args
proof unfold_locales
  show "\<exists>kv' p. shardgrp_DoOp kv q = Some (kv', p) \<and> sg_answers kv'" if "sg_answers kv" "sg_sound q" for kv q
    using that by (rule sg_answers_total)
next
  fix kv kv' p
  assume "sg_answers kv" "shardgrp_DoOp kv (SPut args) = Some (kv', p)"
  then show "\<exists>rep. shardgrp_Put (\<lambda>_. (OK, p)) args \<lparr>pr_Err = ErrZero\<rparr> = Some rep \<and> pr_Err rep \<in> {OK, ErrNoKey, ErrWrongGroup, ErrVersion}"
    using sg_answers_Put [of kv args] by (auto simp: shardgrp_Put_def)
qed (auto simp: shardgrp_Put_def sg_sound_def)

interpretation sg_freeze: service_call shardgrp_DoOp SNil
  "\<lambda>submit. shardgrp_FreezeShard submit args \<lparr>fr_State = None, fr_Num = 0, fr_Err = ErrZero\<rparr>" "SFreeze args" fr_Err
  "{OK, ErrWrongGroup}" for args
  by unfold_locales (auto simp: shardgrp_FreezeShard_def)

interpretation sg_install: service_call shardgrp_DoOp SNil
  "\<lambda>submit. shardgrp_InstallShard submit args \<lparr>ir_Err = ErrZero\<rparr>" "SInstall args" ir_Err "{OK, ErrWrongGroup}" for args
  by unfold_locales (auto simp: shardgrp_InstallShard_def)

interpretation sg_delete: service_call shardgrp_DoOp SNil
  "\<lambda>submit. shardgrp_DeleteShard submit args \<lparr>dr_Err = ErrZero\<rparr>" "SDelete args" dr_Err "{OK, ErrWrongGroup}" for args
  by unfold_locales (auto simp: shardgrp_DeleteShard_def)

section \<open>Properties\<close>

definition clerk_ok :: "ShardgrpClerk \<Rightarrow> bool" where
  "clerk_ok ck \<longleftrightarrow> 0 \<le> gc_leader ck \<and> gc_leader ck < int (length (gc_servers ck)) \<and>
     gc_maxAttempts ck = int (length (gc_servers ck)) * 2 \<and> gc_backoffTime ck = 100 * Millisecond"

lemma two_rounds:
  assumes "0 \<le> l" "l < int (length xs)"
  shows "map (\<lambda>i. xs ! nat ((l + int i) mod int (length xs))) [0..<2 * length xs] = rotate (nat l) xs @ rotate (nat l) xs"
proof (rule nth_equalityI)
  fix i assume "i < length (map (\<lambda>i. xs ! nat ((l + int i) mod int (length xs))) [0..<2 * length xs])"
  then have i: "i < 2 * length xs" by simp
  have "nat ((l + int i) mod int (length xs)) = (nat l + i) mod length xs"
    using assms by (simp add: nat_mod_distrib nat_add_distrib)
  moreover have "(nat l + i) mod length xs = (nat l + (i - length xs)) mod length xs" if "length xs \<le> i"
    using that by (metis add_diff_inverse_nat group_cancel.add2 mod_add_self1 not_le)
  ultimately show "map (\<lambda>i. xs ! nat ((l + int i) mod int (length xs))) [0..<2 * length xs] ! i =
      (rotate (nat l) xs @ rotate (nat l) xs) ! i"
    using i by (cases "i < length xs") (simp_all add: nth_append nth_rotate)
qed simp

lemmas sg_call_defs = call_Get_def call_Put_def call_FreezeShard_def call_InstallShard_def call_DeleteShard_def
  shardgrp_backoffWithJitter_def [abs_def]

lemma clerk_okD:
  assumes "clerk_ok ck"
  shows "0 \<le> gc_leader ck" "gc_leader ck < int (length (gc_servers ck))" "nat (gc_maxAttempts ck) = 2 * length (gc_servers ck)"
    "2 \<le> gc_backoffTime ck" "gc_backoffTime ck \<le> Second" "Second \<le> 2 * Second"
  using assms by (simp_all add: clerk_ok_def)

lemma rounds_keep:
  assumes "clerk_ok ck" and "\<And>rep l w'. rounds = Some (Some (rep, l), w') \<Longrightarrow> 0 \<le> l \<and> l < int (length (gc_servers ck))"
    and "do { (r, w') \<leftarrow> rounds; Some (case r of Some (reply, leader) \<Rightarrow> (ck\<lparr>gc_leader := leader\<rparr>, f reply, w') | None \<Rightarrow> (ck, e, w')) } =
      Some (ck', v, w'')"
  shows "clerk_ok ck'"
  using assms(1,3) assms(2) by (auto simp: bind_eq_Some_conv clerk_ok_def split: option.splits)



text \<open>Group 1 at its start behind a network that loses the first reply; no call comes through afterwards.\<close>

definition group_world :: sg_world where
  "group_world = \<lparr>w_sm = shardgrp_init 1 0, w_log = [], w_plan = [([], AnswerLost)], w_calls = [], w_rand = [5], w_slept = []\<rparr>"

lemma group_world_facts: "sg_answers (w_sm group_world)" "\<forall>r \<in> plan_reqs group_world. sg_sound r"
  by (simp_all add: group_world_def sg_answers_def sg_ok_init plan_reqs_def) (simp add: shardgrp_init_def sg_last_def)



end
