(* ===== verification/Shardctrler.thy ===== *)
theory Shardctrler
  imports Shardgrp_Clerk Kvsrv
begin

text \<open>
  The shard controller, \<open>shardkv/shardctrler/shardctrler.go\<close>. Each method is cut into the pieces
  between its calls of the config store and of the group clerks; a controller is the piece it is
  at. A JSON text is represented by the configuration it encodes, so the config store maps a key to
  a configuration and a version. \<open>Fatal\<close> is \<open>log.Fatalf\<close> or the panic of a group clerk.
\<close>

section \<open>The config store\<close>

type_synonym ConfigStore = "string \<rightharpoonup> ShardConfig \<times> Tversion"

text \<open>Get and Put of \<open>kvsrv/server.go\<close> on configurations.\<close>

definition store_Put :: "ConfigStore \<Rightarrow> string \<Rightarrow> ShardConfig \<Rightarrow> Tversion \<Rightarrow> ConfigStore \<times> Err" where
  "store_Put st key cfg ver = (case st key of
       Some (_, v) \<Rightarrow> if v = ver then (st(key \<mapsto> (cfg, v + 1)), OK) else (st, ErrVersion)
     | None \<Rightarrow> if ver = 0 then (st(key \<mapsto> (cfg, 1)), OK) else (st, ErrNoKey))"

text \<open>\<open>None\<close>: the key is missing, which ends the controller.\<close>

definition queryCurrentConfig :: "ConfigStore \<Rightarrow> (ShardConfig \<times> Tversion) option" where
  "queryCurrentConfig st = st ''currentConfig''"

definition queryNextConfig :: "ConfigStore \<Rightarrow> (ShardConfig \<times> Tversion) option" where
  "queryNextConfig st = st ''nextConfig''"

definition Query :: "ConfigStore \<Rightarrow> ShardConfig option" where
  "Query st = map_option fst (st ''currentConfig'')"

definition QueryNext :: "ConfigStore \<Rightarrow> ShardConfig option" where
  "QueryNext st = map_option fst (st ''nextConfig'')"

definition HasPendingMigration :: "ConfigStore \<Rightarrow> bool option" where
  "HasPendingMigration st = do { cur \<leftarrow> Query st; next \<leftarrow> QueryNext st; Some (Num cur < Num next) }"

definition InitConfig :: "ShardConfig \<Rightarrow> ConfigStore \<Rightarrow> ConfigStore" where
  "InitConfig cfg st = fst (store_Put (fst (store_Put st ''currentConfig'' cfg 0)) ''nextConfig'' cfg 0)"

section \<open>The controller\<close>

record ShardCtrler =
  sck_controllerId :: u64
  sck_clerkByGid :: "(Tgid \<times> ShardgrpClerk) list"
  sck_backoffTime :: int

definition MakeShardCtrler :: "u64 \<Rightarrow> ShardCtrler" where
  "MakeShardCtrler rand = \<lparr>sck_controllerId = rand, sck_clerkByGid = [], sck_backoffTime = 100 * Millisecond\<rparr>"

definition sck_backoffWithJitter :: "ShardCtrler \<Rightarrow> int \<Rightarrow> int option" where
  "sck_backoffWithJitter sck r = (let h = sck_backoffTime sck div 2 in if h \<le> 0 then None else Some (h + r mod h))"

text \<open>The cached clerk of a group; a group the configuration does not have has no servers.\<close>

definition sck_clerk :: "ShardConfig \<Rightarrow> Tgid \<Rightarrow> ShardCtrler \<Rightarrow> ShardCtrler \<times> ShardgrpClerk" where
  "sck_clerk cfg gid sck = (case map_of (sck_clerkByGid sck) gid of
       Some ck \<Rightarrow> (sck, ck)
     | None \<Rightarrow>
         let servers = (case map_of (Groups cfg) gid of None \<Rightarrow> [] | Some srvs \<Rightarrow> srvs);
             ck = shardgrp_MakeClerk servers (sck_controllerId sck)
         in (sck\<lparr>sck_clerkByGid := AList.update gid ck (sck_clerkByGid sck)\<rparr>, ck))"

section \<open>Migration\<close>

text \<open>The goroutine that moves one shard: what it is about to ask for, or how it ended.\<close>

datatype mover_pc = Freezing | Installing "ShardState option" | Deleting | Moved | Superseded

record mover =
  mv_shid :: Tshid
  mv_old :: Tgid
  mv_new :: Tgid
  mv_pc :: mover_pc

datatype ctl =
    ReadCur ShardConfig                                      \<comment> \<open>\<open>ChangeConfigTo\<close>: reads the current configuration\<close>
  | ReadNext ShardConfig ShardConfig Tversion                \<comment> \<open>\<open>saveNextConfig\<close>: reads the next one\<close>
  | SaveNext ShardConfig ShardConfig Tversion Tversion       \<comment> \<open>writes the next one\<close>
  | CheckNext ShardConfig ShardConfig Tversion               \<comment> \<open>reads it back after ErrMaybe\<close>
  | InitCur                                                  \<comment> \<open>\<open>InitController\<close>: reads the current configuration\<close>
  | InitNext ShardConfig Tversion                            \<comment> \<open>and the next one\<close>
  | Moving ShardConfig Tversion ShardConfig "mover list"     \<comment> \<open>\<open>migrateShards\<close>: the goroutines run\<close>
  | SaveCur ShardConfig Tversion                             \<comment> \<open>writes the current configuration\<close>
  | Finished bool
  | Fatal

text \<open>The goroutines started: one for each shard whose group changes.\<close>

definition start_movers :: "ShardConfig \<Rightarrow> ShardConfig \<Rightarrow> mover list" where
  "start_movers old new = map (\<lambda>i. \<lparr>mv_shid = int i, mv_old = Shards old ! i, mv_new = Shards new ! i, mv_pc = Freezing\<rparr>)
     (filter (\<lambda>i. Shards new ! i \<noteq> Shards old ! i) [0..<length (Shards old)])"

definition migrateShards :: "ShardConfig \<Rightarrow> Tversion \<Rightarrow> ShardConfig \<Rightarrow> ctl" where
  "migrateShards old ver new = Moving old ver new (start_movers old new)"

text \<open>The request a goroutine has its clerk send, and to which group.\<close>

fun mover_req :: "ShardConfig \<Rightarrow> mover \<Rightarrow> (Tgid \<times> sg_req) option" where
  "mover_req new mv = (case mv_pc mv of
       Freezing \<Rightarrow> Some (mv_old mv, SFreeze \<lparr>fa_Shard = mv_shid mv, fa_Num = Num new\<rparr>)
     | Installing data \<Rightarrow> Some (mv_new mv, SInstall \<lparr>ia_Shard = mv_shid mv, ia_State = data, ia_Num = Num new\<rparr>)
     | Deleting \<Rightarrow> Some (mv_old mv, SDelete \<lparr>da_Shard = mv_shid mv, da_Num = Num new\<rparr>)
     | _ \<Rightarrow> None)"

text \<open>
  The clerk returns an answer: OK and ErrWrongGroup end the loop of the stage, any other error
  panics in the clerk (\<open>None\<close>).
\<close>

fun mover_reply :: "sg_rep \<Rightarrow> mover_pc \<Rightarrow> mover_pc option" where
  "mover_reply (SFreezeRep r) Freezing = (if fr_Err r \<in> {OK, ErrWrongGroup} then Some (Installing (fr_State r)) else None)"
| "mover_reply (SInstallRep r) (Installing d) = (if ir_Err r \<in> {OK, ErrWrongGroup} then Some Deleting else None)"
| "mover_reply (SDeleteRep r) Deleting = (if dr_Err r \<in> {OK, ErrWrongGroup} then Some Moved else None)"
| "mover_reply _ pc = None"

definition isSuperseded :: "ShardConfig \<Rightarrow> ShardConfig \<Rightarrow> bool" where
  "isSuperseded cur new \<longleftrightarrow> Num new \<le> Num cur"

text \<open>The clerk returns ErrRetryExhausted; \<open>cur\<close> is the current configuration then read.\<close>

definition mover_exhausted :: "ShardConfig \<Rightarrow> ShardConfig \<Rightarrow> mover_pc \<Rightarrow> mover_pc" where
  "mover_exhausted cur new pc = (if isSuperseded cur new then Superseded else pc)"

text \<open>After \<open>wg.Wait\<close>.\<close>

definition mover_ended :: "mover \<Rightarrow> bool" where
  "mover_ended mv \<longleftrightarrow> (case mv_pc mv of Moved \<Rightarrow> True | Superseded \<Rightarrow> True | _ \<Rightarrow> False)"

definition migrate_wait :: "Tversion \<Rightarrow> ShardConfig \<Rightarrow> mover list \<Rightarrow> ctl" where
  "migrate_wait ver new mvs =
     (if list_ex (\<lambda>mv. case mv_pc mv of Superseded \<Rightarrow> True | _ \<Rightarrow> False) mvs then Finished False else SaveCur new ver)"

section \<open>Reads and writes of the config store\<close>

text \<open>\<open>ChangeConfigTo\<close> with the current configuration it reads.\<close>

definition ChangeConfigTo :: "ConfigStore \<Rightarrow> ShardConfig \<Rightarrow> ctl" where
  "ChangeConfigTo st new = (case queryCurrentConfig st of
       None \<Rightarrow> Fatal
     | Some (old, ver) \<Rightarrow> if Num new \<le> Num old then Finished False else ReadNext new old ver)"

text \<open>\<open>saveNextConfig\<close>: the read before the put, the put's error, the read after ErrMaybe.\<close>

definition saveNextConfig :: "ConfigStore \<Rightarrow> ShardConfig \<Rightarrow> ShardConfig \<Rightarrow> Tversion \<Rightarrow> ctl" where
  "saveNextConfig st new old ver = (case queryNextConfig st of
       None \<Rightarrow> Fatal
     | Some (nxt, nver) \<Rightarrow> if Num new \<le> Num nxt then Finished False else SaveNext new old ver nver)"

definition saveNextConfig_err :: "Err \<Rightarrow> ShardConfig \<Rightarrow> ShardConfig \<Rightarrow> Tversion \<Rightarrow> ctl" where
  "saveNextConfig_err err new old ver = (case err of
       OK \<Rightarrow> migrateShards old ver new
     | ErrVersion \<Rightarrow> Finished False
     | ErrMaybe \<Rightarrow> CheckNext new old ver
     | _ \<Rightarrow> Fatal)"

definition saveNextConfig_check :: "ConfigStore \<Rightarrow> ShardConfig \<Rightarrow> ShardConfig \<Rightarrow> Tversion \<Rightarrow> ctl" where
  "saveNextConfig_check st new old ver = (case queryNextConfig st of
       None \<Rightarrow> Fatal
     | Some (written, _) \<Rightarrow> if EqualTo written new then migrateShards old ver new else Finished False)"

text \<open>\<open>InitController\<close>: its two reads.\<close>

definition InitController :: "ConfigStore \<Rightarrow> ctl" where
  "InitController st = (case queryCurrentConfig st of None \<Rightarrow> Fatal | Some (cur, ver) \<Rightarrow> InitNext cur ver)"

definition InitController_next :: "ConfigStore \<Rightarrow> ShardConfig \<Rightarrow> Tversion \<Rightarrow> ctl" where
  "InitController_next st cur ver = (case queryNextConfig st of
       None \<Rightarrow> Fatal
     | Some (nxt, _) \<Rightarrow> if Num cur < Num nxt then migrateShards cur ver nxt else Finished True)"

text \<open>A controller reads the store and goes on.\<close>

fun ctl_read :: "ConfigStore \<Rightarrow> ctl \<Rightarrow> ctl" where
  "ctl_read st (ReadCur new) = ChangeConfigTo st new"
| "ctl_read st (ReadNext new old ver) = saveNextConfig st new old ver"
| "ctl_read st (CheckNext new old ver) = saveNextConfig_check st new old ver"
| "ctl_read st InitCur = InitController st"
| "ctl_read st (InitNext cur ver) = InitController_next st cur ver"
| "ctl_read st c = c"

text \<open>The put a controller makes, and how it goes on with the error.\<close>

fun ctl_put :: "ctl \<Rightarrow> (string \<times> ShardConfig \<times> Tversion) option" where
  "ctl_put (SaveNext new old ver nver) = Some (''nextConfig'', new, nver)"
| "ctl_put (SaveCur new ver) = Some (''currentConfig'', new, ver)"
| "ctl_put c = None"

fun ctl_put_returns :: "Err \<Rightarrow> ctl \<Rightarrow> ctl" where
  "ctl_put_returns err (SaveNext new old ver nver) = saveNextConfig_err err new old ver"
| "ctl_put_returns err (SaveCur new ver) = Finished True"
| "ctl_put_returns err c = c"

section \<open>The system\<close>

text \<open>
  Controllers, the config store and the groups, each a replicated state machine. A request that a
  clerk has sent may be executed at any later time and any number of times; a clerk returns with a
  recorded answer to the request it made, or gives up. \<open>s_hist\<close>, the configurations that have been
  current, and \<open>s_done\<close>, the puts executed, are kept for the statements only.
\<close>

record sys =
  s_store :: ConfigStore
  s_groups :: "Tgid \<Rightarrow> ShardgrpServer"
  s_ctls :: "ctl list"
  s_sent :: "(Tgid \<times> sg_req) list"
  s_replies :: "(Tgid \<times> sg_req \<times> sg_rep) list"
  s_puts :: "(string \<times> ShardConfig \<times> Tversion) list"
  s_acks :: "((string \<times> ShardConfig \<times> Tversion) \<times> Err) list"
  s_hist :: "ShardConfig list"
  s_done :: "PutArgs list"

datatype sys_event =
    Propose ShardConfig       \<comment> \<open>\<open>ChangeConfigTo\<close> is called\<close>
  | Recover                   \<comment> \<open>\<open>InitController\<close> is called\<close>
  | ReadStore nat
  | SendPut nat
  | ExecPut nat
  | PutReturns nat nat bool   \<comment> \<open>controller, answer, and whether the clerk had to retry\<close>
  | SendMove nat nat          \<comment> \<open>controller and goroutine\<close>
  | ExecMove nat
  | MoveReturns nat nat nat
  | MoveExhausted nat nat
  | Wait nat
  | Client Tgid sg_req

definition set_ctl :: "nat \<Rightarrow> ctl \<Rightarrow> sys \<Rightarrow> sys" where
  "set_ctl c x s = s\<lparr>s_ctls := (s_ctls s)[c := x]\<rparr>"

definition exec_put :: "string \<times> ShardConfig \<times> Tversion \<Rightarrow> sys \<Rightarrow> sys" where
  "exec_put p s = (case p of (key, cfg, ver) \<Rightarrow> (case store_Put (s_store s) key cfg ver of (st, err) \<Rightarrow>
     s\<lparr>s_store := st, s_acks := s_acks s @ [(p, err)],
       s_hist := (if err = OK \<and> key = ''currentConfig'' then s_hist s @ [cfg] else s_hist s)\<rparr>))"

text \<open>
  A recorded answer is one to the request a goroutine waits for. The state that an InstallShard
  carries is not compared: its answer does not depend on it.
\<close>

fun same_request :: "sg_req \<Rightarrow> sg_req \<Rightarrow> bool" where
  "same_request (SFreeze a) (SFreeze b) \<longleftrightarrow> fa_Shard a = fa_Shard b \<and> fa_Num a = fa_Num b"
| "same_request (SInstall a) (SInstall b) \<longleftrightarrow> ia_Shard a = ia_Shard b \<and> ia_Num a = ia_Num b"
| "same_request (SDelete a) (SDelete b) \<longleftrightarrow> da_Shard a = da_Shard b \<and> da_Num a = da_Num b"
| "same_request _ _ \<longleftrightarrow> False"

definition answers_req :: "(Tgid \<times> sg_req) option \<Rightarrow> Tgid \<times> sg_req \<times> sg_rep \<Rightarrow> bool" where
  "answers_req m r = (case m of None \<Rightarrow> False | Some (g, q) \<Rightarrow> g = fst r \<and> same_request q (fst (snd r)))"

text \<open>\<open>None\<close>: the request crashes the servers of the group.\<close>

definition exec_move :: "Tgid \<times> sg_req \<Rightarrow> sys \<Rightarrow> sys option" where
  "exec_move m s = (case m of (gid, q) \<Rightarrow> do {
     (kv, rep) \<leftarrow> shardgrp_DoOp (s_groups s gid) q;
     Some (s\<lparr>s_groups := (s_groups s)(gid := kv), s_replies := s_replies s @ [(gid, q, rep)]\<rparr>) })"

definition executes_put :: "ShardgrpServer \<Rightarrow> PutArgs \<Rightarrow> bool" where
  "executes_put kv a \<longleftrightarrow> sg_shardStatuses kv ! nat (Key2Shard (pa_Key a)) = Serving \<and> fresh (sg_last kv) a"

definition exec_client :: "Tgid \<Rightarrow> sg_req \<Rightarrow> sys \<Rightarrow> sys option" where
  "exec_client gid q s = do {
     (kv, rep) \<leftarrow> shardgrp_DoOp (s_groups s gid) q;
     Some (s\<lparr>s_groups := (s_groups s)(gid := kv),
       s_done := (case q of SPut a \<Rightarrow> if executes_put (s_groups s gid) a then s_done s @ [a] else s_done s | _ \<Rightarrow> s_done s)\<rparr>) }"

text \<open>An event that is not possible in a state changes nothing.\<close>

fun sys_exec :: "sys_event \<Rightarrow> sys \<Rightarrow> sys option" where
  "sys_exec (Propose cfg) s = Some (s\<lparr>s_ctls := s_ctls s @ [ReadCur cfg]\<rparr>)"
| "sys_exec Recover s = Some (s\<lparr>s_ctls := s_ctls s @ [InitCur]\<rparr>)"
| "sys_exec (ReadStore c) s = Some (if c < length (s_ctls s) then set_ctl c (ctl_read (s_store s) (s_ctls s ! c)) s else s)"
| "sys_exec (SendPut c) s = Some (if c < length (s_ctls s) then
       (case ctl_put (s_ctls s ! c) of Some p \<Rightarrow> s\<lparr>s_puts := s_puts s @ [p]\<rparr> | None \<Rightarrow> s) else s)"
| "sys_exec (ExecPut j) s = Some (if j < length (s_puts s) then exec_put (s_puts s ! j) s else s)"
| "sys_exec (PutReturns c j retried) s = Some (
     if c < length (s_ctls s) \<and> j < length (s_acks s) \<and> ctl_put (s_ctls s ! c) = Some (fst (s_acks s ! j))
     then set_ctl c (ctl_put_returns (if retried then ErrMaybe else snd (s_acks s ! j)) (s_ctls s ! c)) s else s)"
| "sys_exec (SendMove c k) s = Some (if c < length (s_ctls s) then (case s_ctls s ! c of
       Moving old ver new mvs \<Rightarrow> if k < length mvs then
         (case mover_req new (mvs ! k) of Some m \<Rightarrow> s\<lparr>s_sent := s_sent s @ [m]\<rparr> | None \<Rightarrow> s) else s
     | _ \<Rightarrow> s) else s)"
| "sys_exec (ExecMove j) s = (if j < length (s_sent s) then exec_move (s_sent s ! j) s else Some s)"
| "sys_exec (MoveReturns c k j) s = Some (if c < length (s_ctls s) \<and> j < length (s_replies s) then (case s_ctls s ! c of
       Moving old ver new mvs \<Rightarrow>
         if k < length mvs \<and> answers_req (mover_req new (mvs ! k)) (s_replies s ! j)
         then (case mover_reply (snd (snd (s_replies s ! j))) (mv_pc (mvs ! k)) of
                 None \<Rightarrow> set_ctl c Fatal s
               | Some pc \<Rightarrow> set_ctl c (Moving old ver new (mvs[k := (mvs ! k)\<lparr>mv_pc := pc\<rparr>])) s)
         else s
     | _ \<Rightarrow> s) else s)"
| "sys_exec (MoveExhausted c k) s = Some (if c < length (s_ctls s) then (case s_ctls s ! c of
       Moving old ver new mvs \<Rightarrow> if k < length mvs \<and> \<not> mover_ended (mvs ! k) then
         (case queryCurrentConfig (s_store s) of
            None \<Rightarrow> set_ctl c Fatal s
          | Some (cur, _) \<Rightarrow> set_ctl c (Moving old ver new
              (mvs[k := (mvs ! k)\<lparr>mv_pc := mover_exhausted cur new (mv_pc (mvs ! k))\<rparr>])) s) else s
     | _ \<Rightarrow> s) else s)"
| "sys_exec (Wait c) s = Some (if c < length (s_ctls s) then (case s_ctls s ! c of
       Moving old ver new mvs \<Rightarrow> if list_all mover_ended mvs then set_ctl c (migrate_wait ver new mvs) s else s
     | _ \<Rightarrow> s) else s)"
| "sys_exec (Client gid q) s = (case q of SGet a \<Rightarrow> exec_client gid q s | SPut a \<Rightarrow> exec_client gid q s | _ \<Rightarrow> Some s)"

fun sys_run :: "sys_event list \<Rightarrow> sys \<Rightarrow> sys option" where
  "sys_run [] s = Some s"
| "sys_run (e # es) s = do { s' \<leftarrow> sys_exec e s; sys_run es s' }"

text \<open>
  The system when \<open>InitConfig\<close> has stored the first configuration, number 1 with all shards at
  group 1, and every group has been started without a snapshot.
\<close>

definition first_cfg :: "(Tgid \<times> string list) list \<Rightarrow> ShardConfig" where
  "first_cfg gs = \<lparr>Num = NumFirst, Shards = replicate NShards Gid1, Groups = gs\<rparr>"

definition sys_init :: "(Tgid \<times> string list) list \<Rightarrow> sys" where
  "sys_init gs = \<lparr>s_store = InitConfig (first_cfg gs) Map.empty, s_groups = (\<lambda>gid. shardgrp_init gid 0),
     s_ctls = [], s_sent = [], s_replies = [], s_puts = [], s_acks = [], s_hist = [first_cfg gs], s_done = []\<rparr>"

end
