(* ===== verification/Reconfig.thy ===== *)
theory Reconfig
  imports Shardctrler
begin

text \<open>
  Reconfiguration is safe: whatever controllers run at the same time, crash, or are restarted, and
  however requests are delayed and repeated, each shard is served by one group at most, no group
  crashes, and the groups together are one versioned store that executes each put once.
\<close>

section \<open>The effect of the requests of a controller on a group\<close>

abbreviation status :: "ShardgrpServer \<Rightarrow> Tshid \<Rightarrow> ShardStatus" where
  "status kv i \<equiv> sg_shardStatuses kv ! nat i"

text \<open>What a group holds of a shard.\<close>

definition content :: "ShardgrpServer \<Rightarrow> Tshid \<Rightarrow> kvmap option \<times> u64 list option" where
  "content kv i = (sg_kvm kv ! nat i, sg_shardClients kv ! nat i)"

lemma nth_other: "shard_range i \<Longrightarrow> shard_range j \<Longrightarrow> j \<noteq> i \<Longrightarrow> xs[nat i := v] ! nat j = xs ! nat j"
  by (auto simp: shard_range_def)

lemma Freeze_effect:
  assumes "sg_ok kv" "shard_range i" "DoOp_Freeze kv \<lparr>fa_Shard = i, fa_Num = n\<rparr> = Some (kv', r)"
  obtains (accepted) "local_num kv i < n" "status kv i = Serving" "fr_Err r = OK" "fr_State r = marshallShardState kv i"
      "shard_of kv' i = (Frozen, n)" "\<And>j. shard_range j \<Longrightarrow> j \<noteq> i \<Longrightarrow> shard_of kv' j = shard_of kv j"
      "\<And>j. content kv' j = content kv j" "sg_last kv' = sg_last kv" "sg_ok kv'"
  | (refused) "kv' = kv" "\<not> (local_num kv i < n \<and> status kv i = Serving)" "fr_Err r \<in> {OK, ErrWrongGroup} \<longrightarrow> n \<le> local_num kv i"
      "n = local_num kv i \<longrightarrow> fr_Err r \<in> {OK, ErrWrongGroup} \<longrightarrow> status kv i \<noteq> Serving \<and> fr_State r = marshallShardState kv i"
proof (cases "local_num kv i < n \<and> status kv i = Serving")
  case True
  note eq = Freeze_accepted [OF assms(1,2)]
  have "sg_ok kv'" using DoOp_Freeze_ok [OF assms(1), of "\<lparr>fa_Shard = i, fa_Num = n\<rparr>"] assms(2,3) by auto
  with True eq assms show ?thesis
    using sg_okD(2) [OF assms(1)] nat_shard_less [OF assms(2)] 
    by (intro accepted) (auto simp: nth_other [OF assms(2)] content_def sg_last_def local_num_def)
next
  case False
  then show ?thesis using assms sg_okD(2) [OF assms(1)]
    by (intro refused) (auto simp: DoOp_Freeze_def slice_range bind_eq_Some_conv split: if_splits)
qed

lemma Delete_effect:
  assumes "sg_ok kv" "shard_range i" "DoOp_Delete kv \<lparr>da_Shard = i, da_Num = n\<rparr> = Some (kv', r)"
  obtains (accepted) "shard_of kv i = (Frozen, n)" "dr_Err r = OK" "shard_of kv' i = (Absent, n)"
      "\<And>j. shard_range j \<Longrightarrow> j \<noteq> i \<Longrightarrow> shard_of kv' j = shard_of kv j \<and> content kv' j = content kv j"
      "sg_last kv' = sg_last kv" "sg_ok kv'"
  | (refused) "kv' = kv" "shard_of kv i \<noteq> (Frozen, n)" "dr_Err r \<in> {OK, ErrWrongGroup} \<longrightarrow> n < local_num kv i \<or> shard_of kv i = (Absent, n)"
proof (cases "shard_of kv i = (Frozen, n)")
  case True
  have "sg_ok kv'" using DoOp_Delete_ok [OF assms(1), of "\<lparr>da_Shard = i, da_Num = n\<rparr>"] assms(2,3) by auto
  moreover from True assms(2,3) sg_okD(1-3,5) [OF assms(1)] obtain l where "sg_cfgNumByShid kv = Some l"
    "kv' = kv\<lparr>sg_kvm := (sg_kvm kv)[nat i := None], sg_shardClients := (sg_shardClients kv)[nat i := None],
      sg_shardStatuses := (sg_shardStatuses kv)[nat i := Absent], sg_cfgNumByShid := Some (l(i \<mapsto> n))\<rparr>" "dr_Err r = OK"
    by (auto simp: DoOp_Delete_def slice_range set_status_def bind_eq_Some_conv)
  ultimately show ?thesis using True sg_okD(1-3) [OF assms(1)] nat_shard_less [OF assms(2)] 
    by (intro accepted) (auto simp: nth_other [OF assms(2)] content_def sg_last_def local_num_def)
next
  case False
  then show ?thesis using assms sg_okD(2) [OF assms(1)]
    by (intro refused) (auto simp: DoOp_Delete_def slice_range bind_eq_Some_conv split: if_splits ShardStatus.splits)
qed

lemma Install_effect:
  assumes "sg_ok kv" "shard_range i" "DoOp_Install kv \<lparr>ia_Shard = i, ia_State = st, ia_Num = n\<rparr> = Some (kv', r)"
  obtains (accepted) d cs where "local_num kv i < n" "status kv i = Absent" "st = Some d" "ir_Err r = OK" "shard_of kv' i = (Serving, n)"
      "content kv' i = (Some (ss_Kv d), Some cs)" "set cs = fst ` set (ss_LastPutByClientId d)"
      "\<And>j. shard_range j \<Longrightarrow> j \<noteq> i \<Longrightarrow> shard_of kv' j = shard_of kv j \<and> content kv' j = content kv j"
      "sg_last kv' = foldl merge_lastPut (sg_last kv) (ss_LastPutByClientId d)" "sg_ok kv'"
  | (refused) "kv' = kv" "\<not> (local_num kv i < n \<and> status kv i = Absent)"
      "ir_Err r \<in> {OK, ErrWrongGroup} \<longrightarrow> n < local_num kv i \<or> shard_of kv i = (Serving, n)"
proof (cases "local_num kv i < n \<and> status kv i = Absent")
  case True
  note ok = sg_okD(1-5) [OF assms(1)]
  from True assms(2,3) ok obtain d where d: "st = Some d"
    by (auto simp: DoOp_Install_def slice_range bind_eq_Some_conv installShardState_def)
  from Install_accepted [OF assms(1,2), of n d] True assms(3) d have ok': "sg_ok kv'" "ir_Err r = OK" "shard_of kv' i = (Serving, n)" by auto
  from install_ok [OF assms(1,2), of d] obtain l where l: "sg_lastPutByClientId kv = Some l"
    "installShardState kv i (Some d) = Some (kv\<lparr>sg_kvm := (sg_kvm kv)[nat i := Some (ss_Kv d)],
      sg_shardClients := (sg_shardClients kv)[nat i := Some (fold (\<lambda>e. List.insert (fst e)) (ss_LastPutByClientId d) [])],
      sg_lastPutByClientId := Some (foldl merge_lastPut l (ss_LastPutByClientId d))\<rparr>)" by blast
  obtain f where f: "sg_cfgNumByShid kv = Some f" using ok(5) by blast
  have kv': "kv' = kv\<lparr>sg_kvm := (sg_kvm kv)[nat i := Some (ss_Kv d)],
      sg_shardClients := (sg_shardClients kv)[nat i := Some (fold (\<lambda>e. List.insert (fst e)) (ss_LastPutByClientId d) [])],
      sg_lastPutByClientId := Some (foldl merge_lastPut l (ss_LastPutByClientId d)),
      sg_shardStatuses := (sg_shardStatuses kv)[nat i := Serving], sg_cfgNumByShid := Some (f(i \<mapsto> n))\<rparr>"
    using True assms(2,3) ok l(2) f by (auto simp: d DoOp_Install_def slice_range bind_eq_Some_conv set_status_def)
  show ?thesis
    by (rule accepted [of d "fold (\<lambda>e. List.insert (fst e)) (ss_LastPutByClientId d) []"])
      (use True d ok' ok(1-3) nat_shard_less [OF assms(2)] kv' l(1) f in
        \<open>simp_all add: set_fold_insert nth_other [OF assms(2)] content_def sg_last_def local_num_def\<close>)
next
  case False
  then show ?thesis using assms sg_okD(2) [OF assms(1)]
    by (intro refused) (auto simp: DoOp_Install_def slice_range bind_eq_Some_conv split: if_splits)
qed

lemma Put_effect:
  assumes "sg_ok kv" "shardgrp_DoOp_Put kv a = Some (kv', r)"
  defines "i \<equiv> Key2Shard (pa_Key a)"
  shows "sg_ok kv'" "shard_of kv' j = shard_of kv j"
    "\<not> executes_put kv a \<Longrightarrow> kv' = kv"
    "executes_put kv a \<Longrightarrow> shard_range j \<Longrightarrow> j \<noteq> i \<Longrightarrow> content kv' j = content kv j"
    "executes_put kv a \<Longrightarrow> content kv' i = (Some (fst (spec_put (go_lookup (fst (content kv i))) a)),
      Some (List.insert (pa_ClientId a) (client_list (snd (content kv i)))))"
    "executes_put kv a \<Longrightarrow> sg_last kv' = (sg_last kv)(pa_ClientId a \<mapsto> \<lparr>lp_RequestId = pa_RequestId a, lp_Reply = r\<rparr>)"
    "executes_put kv a \<Longrightarrow> pr_Err r = snd (spec_put (go_lookup (fst (content kv i))) a)"
proof -
  show "sg_ok kv'" "shard_of kv' j = shard_of kv j"
    using shardgrp_Put_ok [OF assms(1), of a] assms(2) by (auto simp: local_num_def)
  note form = assms(2) [unfolded shardgrp_Put_form [OF assms(1)] Let_def, folded i_def]
  have i: "nat i < 12" unfolding i_def by (rule nat_shard_less) simp
  show "kv' = kv" if "\<not> executes_put kv a"
    using form that by (auto simp: executes_put_def i_def split: if_splits)
  assume e: "executes_put kv a"
  then show "content kv' j = content kv j" if "shard_range j" "j \<noteq> i"
    using form that by (auto simp: executes_put_def i_def content_def nth_other)
  show "content kv' i = (Some (fst (spec_put (go_lookup (fst (content kv i))) a)),
      Some (List.insert (pa_ClientId a) (client_list (snd (content kv i)))))"
    "sg_last kv' = (sg_last kv)(pa_ClientId a \<mapsto> \<lparr>lp_RequestId = pa_RequestId a, lp_Reply = r\<rparr>)"
    "pr_Err r = snd (spec_put (go_lookup (fst (content kv i))) a)"
    using form e i sg_okD(1,3) [OF assms(1)] by (auto simp: executes_put_def i_def [symmetric] content_def sg_last_def)
qed

section \<open>Configurations\<close>

text \<open>
  The number of the current and of the next configuration, and the assignment of shards that
  configuration \<open>m\<close> has: those that have been current are in the history, the one after them is the
  next configuration.
\<close>

definition cnum :: "sys \<Rightarrow> int" where
  "cnum s = int (length (s_hist s))"

definition next_cfg :: "sys \<Rightarrow> ShardConfig" where
  "next_cfg s = fst (the (s_store s ''nextConfig''))"

abbreviation nnum :: "sys \<Rightarrow> int" where
  "nnum s \<equiv> Num (next_cfg s)"

definition assigned :: "sys \<Rightarrow> int \<Rightarrow> Tgid list" where
  "assigned s m = (if m \<le> cnum s then Shards (s_hist s ! nat (m - 1)) else Shards (next_cfg s))"

definition owner :: "sys \<Rightarrow> Tshid \<Rightarrow> int \<Rightarrow> Tgid" where
  "owner s i m = assigned s m ! nat i"

definition cfg_inv :: "sys \<Rightarrow> bool" where
  "cfg_inv s \<longleftrightarrow> s_hist s \<noteq> [] \<and>
     (\<forall>j < length (s_hist s). Num (s_hist s ! j) = int j + 1 \<and> length (Shards (s_hist s ! j)) = NShards) \<and>
     s_store s ''currentConfig'' = Some (last (s_hist s), word_of_int (cnum s)) \<and>
     s_store s ''nextConfig'' = Some (next_cfg s, word_of_int (nnum s)) \<and> length (Shards (next_cfg s)) = NShards \<and>
     (nnum s = cnum s \<and> Shards (next_cfg s) = Shards (last (s_hist s)) \<or> nnum s = cnum s + 1) \<and> nnum s < 2 ^ 64"

section \<open>Shards\<close>

abbreviation at :: "sys \<Rightarrow> Tgid \<Rightarrow> Tshid \<Rightarrow> ShardStatus \<times> Tnum" where
  "at s g i \<equiv> shard_of (s_groups s g) i"

text \<open>The stages of the pending move of a shard: frozen, installed, deleted.\<close>

definition installed :: "sys \<Rightarrow> Tshid \<Rightarrow> bool" where
  "installed s i \<longleftrightarrow> at s (owner s i (nnum s)) i = (Serving, nnum s)"

definition frozen :: "sys \<Rightarrow> Tshid \<Rightarrow> bool" where
  "frozen s i \<longleftrightarrow> installed s i \<or> at s (owner s i (cnum s)) i = (Frozen, nnum s)"

definition deleted :: "sys \<Rightarrow> Tshid \<Rightarrow> bool" where
  "deleted s i \<longleftrightarrow> installed s i \<and> at s (owner s i (cnum s)) i = (Absent, nnum s)"

text \<open>
  Where a shard is: with its owner, and nowhere else; while it moves from its owner to the next one
  it is served by the old owner, then frozen there, then served by the new owner.
\<close>

definition placed :: "sys \<Rightarrow> Tshid \<Rightarrow> bool" where
  "placed s i \<longleftrightarrow> (let a = owner s i (cnum s); b = owner s i (nnum s) in
     (\<forall>g. g \<noteq> a \<longrightarrow> g \<noteq> b \<longrightarrow> status (s_groups s g) i = Absent \<and> local_num (s_groups s g) i \<le> cnum s) \<and>
     (if a = b then status (s_groups s a) i = Serving \<and> local_num (s_groups s a) i \<le> cnum s
      else (status (s_groups s a) i = Serving \<and> local_num (s_groups s a) i \<le> cnum s \<or> at s a i = (Frozen, nnum s)) \<and>
             status (s_groups s b) i = Absent \<and> local_num (s_groups s b) i \<le> cnum s \<or>
           at s b i = (Serving, nnum s) \<and> (at s a i = (Frozen, nnum s) \<or> at s a i = (Absent, nnum s))))"

text \<open>
  A group that has served a shard since configuration \<open>j\<close> has been its owner since; one that has
  given it away since it was the owner at \<open>m\<close> has a number above \<open>m\<close>.
\<close>

definition since_owner :: "sys \<Rightarrow> Tshid \<Rightarrow> bool" where
  "since_owner s i \<longleftrightarrow> (\<forall>g m. 1 \<le> m \<longrightarrow> m \<le> cnum s \<longrightarrow>
     (status (s_groups s g) i = Serving \<longrightarrow> local_num (s_groups s g) i \<le> m \<longrightarrow> owner s i m = g) \<and>
     (status (s_groups s g) i = Absent \<longrightarrow> owner s i m = g \<longrightarrow> m < local_num (s_groups s g) i))"

text \<open>The group that answers for a shard, and the store that the groups are together.\<close>

definition holder :: "sys \<Rightarrow> Tshid \<Rightarrow> Tgid" where
  "holder s i = (if status (s_groups s (owner s i (nnum s))) i = Serving then owner s i (nnum s) else owner s i (cnum s))"

definition sys_kv :: "sys \<Rightarrow> kvmap" where
  "sys_kv s k = sg_map (s_groups s (holder s (Key2Shard k))) k"

text \<open>The holder of a shard remembers every put executed on it.\<close>

definition remembers :: "sys \<Rightarrow> bool" where
  "remembers s \<longleftrightarrow> (\<forall>a \<in> set (s_done s). let i = Key2Shard (pa_Key a); kv = s_groups s (holder s i) in
     pa_ClientId a \<in> set (client_list (snd (content kv i))) \<and>
     (\<exists>p. sg_last kv (pa_ClientId a) = Some p \<and> pa_RequestId a \<le> lp_RequestId p))"

text \<open>A state that carries what the frozen shard holds.\<close>

definition carried :: "sys \<Rightarrow> Tshid \<Rightarrow> ShardState option \<Rightarrow> bool" where
  "carried s i d \<longleftrightarrow> (\<exists>st. d = Some st \<and>
     ss_Kv st = go_lookup (fst (content (s_groups s (owner s i (cnum s))) i)) \<and>
     (\<forall>a \<in> set (s_done s). Key2Shard (pa_Key a) = i \<longrightarrow>
       (\<exists>p. (pa_ClientId a, p) \<in> set (ss_LastPutByClientId st) \<and> pa_RequestId a \<le> lp_RequestId p)))"

definition groups_inv :: "sys \<Rightarrow> bool" where
  "groups_inv s \<longleftrightarrow> (\<forall>g. sg_ok (s_groups s g)) \<and> (\<forall>i. shard_range i \<longrightarrow> placed s i \<and> since_owner s i) \<and> remembers s"

section \<open>Controllers and their requests\<close>

text \<open>What a goroutine that moves shard \<open>i\<close> for configuration \<open>m\<close> knows, while \<open>m\<close> is pending.\<close>

definition stage_ok :: "sys \<Rightarrow> int \<Rightarrow> Tshid \<Rightarrow> mover_pc \<Rightarrow> bool" where
  "stage_ok s m i pc \<longleftrightarrow> (m = cnum s + 1 \<longrightarrow> (case pc of
       Freezing \<Rightarrow> True
     | Installing d \<Rightarrow> frozen s i \<and> (\<not> installed s i \<longrightarrow> carried s i d)
     | Deleting \<Rightarrow> installed s i
     | Moved \<Rightarrow> deleted s i
     | Superseded \<Rightarrow> True))"

definition adopted :: "sys \<Rightarrow> ShardConfig \<Rightarrow> bool" where
  "adopted s new \<longleftrightarrow> 1 \<le> Num new \<and> Num new \<le> nnum s \<and> Shards new = assigned s (Num new)"

definition based :: "sys \<Rightarrow> ShardConfig \<Rightarrow> Tversion \<Rightarrow> bool" where
  "based s old ver \<longleftrightarrow> 1 \<le> Num old \<and> Num old \<le> cnum s \<and> Shards old = assigned s (Num old) \<and> ver = word_of_int (Num old)"

text \<open>A proposal: the number follows that of a configuration that has been current.\<close>

definition wanted :: "sys \<Rightarrow> ShardConfig \<Rightarrow> bool" where
  "wanted s new \<longleftrightarrow> length (Shards new) = NShards \<and> 2 \<le> Num new \<and> Num new \<le> cnum s + 1 \<and> Num new < 2 ^ 64"

definition mover_ok :: "sys \<Rightarrow> ShardConfig \<Rightarrow> mover \<Rightarrow> bool" where
  "mover_ok s new mv \<longleftrightarrow> shard_range (mv_shid mv) \<and> mv_new mv = Shards new ! nat (mv_shid mv) \<and>
     mv_old mv \<noteq> mv_new mv \<and> stage_ok s (Num new) (mv_shid mv) (mv_pc mv)"

text \<open>All shards have moved, as far as configuration \<open>new\<close> follows the current one.\<close>

definition complete :: "sys \<Rightarrow> ShardConfig \<Rightarrow> Tversion \<Rightarrow> bool" where
  "complete s new ver \<longleftrightarrow> adopted s new \<and> (\<exists>j. 1 \<le> j \<and> j \<le> cnum s \<and> j < Num new \<and> ver = word_of_int j \<and>
     (j = cnum s \<longrightarrow> (\<forall>i. shard_range i \<longrightarrow> owner s i j \<noteq> Shards new ! nat i \<longrightarrow> stage_ok s (Num new) i Moved)))"

definition savable :: "sys \<Rightarrow> ShardConfig \<Rightarrow> Tversion \<Rightarrow> bool" where
  "savable s new nver \<longleftrightarrow> wanted s new \<and> (\<exists>m. 1 \<le> m \<and> m < Num new \<and> m \<le> nnum s \<and> nver = word_of_int m)"

fun ctl_ok :: "sys \<Rightarrow> ctl \<Rightarrow> bool" where
  "ctl_ok s (ReadCur new) = wanted s new"
| "ctl_ok s (ReadNext new old ver) = (wanted s new \<and> based s old ver \<and> Num old = Num new - 1)"
| "ctl_ok s (SaveNext new old ver nver) = (savable s new nver \<and> based s old ver \<and> Num old = Num new - 1)"
| "ctl_ok s (CheckNext new old ver) = (wanted s new \<and> based s old ver \<and> Num old = Num new - 1)"
| "ctl_ok s (InitNext cur ver) = based s cur ver"
| "ctl_ok s (Moving old ver new mvs) = (based s old ver \<and> adopted s new \<and> Num old < Num new \<and> (\<forall>mv \<in> set mvs. mover_ok s new mv) \<and>
     (\<forall>i. shard_range i \<longrightarrow> Shards old ! nat i \<noteq> Shards new ! nat i \<longrightarrow> (\<exists>mv \<in> set mvs. mv_shid mv = i)))"
| "ctl_ok s (SaveCur new ver) = complete s new ver"
| "ctl_ok s c = True"

fun sent_ok :: "sys \<Rightarrow> Tgid \<times> sg_req \<Rightarrow> bool" where
  "sent_ok s (g, SFreeze a) = (shard_range (fa_Shard a) \<and> 1 \<le> fa_Num a \<and> fa_Num a \<le> nnum s \<and> g \<noteq> owner s (fa_Shard a) (fa_Num a))"
| "sent_ok s (g, SInstall a) = (shard_range (ia_Shard a) \<and> 1 \<le> ia_Num a \<and> ia_Num a \<le> nnum s \<and> g = owner s (ia_Shard a) (ia_Num a) \<and>
     stage_ok s (ia_Num a) (ia_Shard a) (Installing (ia_State a)))"
| "sent_ok s (g, SDelete a) = (shard_range (da_Shard a) \<and> 1 \<le> da_Num a \<and> da_Num a \<le> nnum s \<and> g \<noteq> owner s (da_Shard a) (da_Num a) \<and>
     stage_ok s (da_Num a) (da_Shard a) Deleting)"
| "sent_ok s _ = False"

fun req_shard :: "sg_req \<Rightarrow> Tshid \<times> Tnum" where
  "req_shard (SFreeze a) = (fa_Shard a, fa_Num a)"
| "req_shard (SInstall a) = (ia_Shard a, ia_Num a)"
| "req_shard (SDelete a) = (da_Shard a, da_Num a)"
| "req_shard _ = (0, 0)"

text \<open>An answer that lets a goroutine go on justifies its next stage.\<close>

fun reply_ok :: "sys \<Rightarrow> Tgid \<times> sg_req \<times> sg_rep \<Rightarrow> bool" where
  "reply_ok s (g, q, rep) = (shard_range (fst (req_shard q)) \<and> snd (req_shard q) \<le> nnum s \<and>
     (\<forall>pc pc'. mover_reply rep pc = Some pc' \<longrightarrow> stage_ok s (snd (req_shard q)) (fst (req_shard q)) pc'))"

fun put_ok :: "sys \<Rightarrow> string \<times> ShardConfig \<times> Tversion \<Rightarrow> bool" where
  "put_ok s (key, cfg, ver) = (key = ''nextConfig'' \<and> savable s cfg ver \<or> key = ''currentConfig'' \<and> complete s cfg ver)"

fun ack_ok :: "sys \<Rightarrow> (string \<times> ShardConfig \<times> Tversion) \<times> Err \<Rightarrow> bool" where
  "ack_ok s ((key, cfg, ver), err) = (key = ''nextConfig'' \<longrightarrow> err = OK \<longrightarrow> adopted s cfg)"

definition ctls_inv :: "sys \<Rightarrow> bool" where
  "ctls_inv s \<longleftrightarrow> list_all (ctl_ok s) (s_ctls s) \<and> list_all (sent_ok s) (s_sent s) \<and> list_all (reply_ok s) (s_replies s) \<and>
     list_all (put_ok s) (s_puts s) \<and> list_all (ack_ok s) (s_acks s)"

section \<open>What an event keeps\<close>

text \<open>
  An event extends a state: numbers grow, known assignments stay, and what was known of a stage
  stays known.
\<close>

definition extends :: "sys \<Rightarrow> sys \<Rightarrow> bool" where
  "extends s s' \<longleftrightarrow> cnum s \<le> cnum s' \<and> nnum s \<le> nnum s' \<and>
     (\<forall>m. 1 \<le> m \<longrightarrow> m \<le> nnum s \<longrightarrow> assigned s' m = assigned s m) \<and>
     (\<forall>m i pc. m \<le> nnum s \<longrightarrow> shard_range i \<longrightarrow> stage_ok s m i pc \<longrightarrow> stage_ok s' m i pc)"

lemma extends_owner: "extends s s' \<Longrightarrow> 1 \<le> m \<Longrightarrow> m \<le> nnum s \<Longrightarrow> owner s' i m = owner s i m"
  by (simp add: extends_def owner_def)

lemma extends_adopted: "extends s s' \<Longrightarrow> adopted s c \<Longrightarrow> adopted s' c"
  by (auto simp: extends_def adopted_def)

lemma extends_wanted: "extends s s' \<Longrightarrow> wanted s c \<Longrightarrow> wanted s' c"
  by (auto simp: extends_def wanted_def)

lemma extends_savable: "extends s s' \<Longrightarrow> savable s c v \<Longrightarrow> savable s' c v"
  using extends_wanted [of s s' c] by (force simp: extends_def savable_def)

lemma extends_based: "extends s s' \<Longrightarrow> cfg_inv s \<Longrightarrow> based s c v \<Longrightarrow> based s' c v"
  by (auto simp: extends_def based_def cfg_inv_def)

lemma extends_complete:
  assumes "extends s s'" "cfg_inv s" "complete s c v"
  shows "complete s' c v"
proof -
  obtain j where j: "1 \<le> j" "j \<le> cnum s" "j < Num c" "v = word_of_int j"
    "j = cnum s \<longrightarrow> (\<forall>i. shard_range i \<longrightarrow> owner s i j \<noteq> Shards c ! nat i \<longrightarrow> stage_ok s (Num c) i Moved)"
    and ad: "adopted s c" using assms(3) by (auto simp: complete_def)
  have "stage_ok s' (Num c) i Moved" if "j = cnum s'" "shard_range i" "owner s' i j \<noteq> Shards c ! nat i" for i
  proof -
    have "j = cnum s" using that(1) j(2) assms(1) by (simp add: extends_def)
    moreover have "j \<le> nnum s" using j(2) assms(2) by (auto simp: cfg_inv_def)
    then have "owner s' i j = owner s i j" using extends_owner [OF assms(1) j(1)] by simp
    ultimately show ?thesis using j(5) that ad assms(1) by (auto simp: extends_def adopted_def)
  qed
  then show ?thesis using extends_adopted [OF assms(1) ad] j(1-4) assms(1) by (auto simp: complete_def extends_def)
qed

lemma extends_mover: "extends s s' \<Longrightarrow> adopted s new \<Longrightarrow> mover_ok s new mv \<Longrightarrow> mover_ok s' new mv"
  by (auto simp: mover_ok_def extends_def adopted_def)

lemma extends_ctl: "extends s s' \<Longrightarrow> cfg_inv s \<Longrightarrow> ctl_ok s c \<Longrightarrow> ctl_ok s' c"
  by (cases c)
    (auto intro: extends_adopted extends_wanted extends_savable extends_based extends_complete extends_mover)

lemma extends_sent: "extends s s' \<Longrightarrow> sent_ok s m \<Longrightarrow> sent_ok s' m"
  using extends_owner [of s s'] by (cases "(s, m)" rule: sent_ok.cases) (auto simp: extends_def)

lemma extends_reply: "extends s s' \<Longrightarrow> reply_ok s r \<Longrightarrow> reply_ok s' r"
  by (cases r) (auto simp: extends_def)

lemma extends_put: "extends s s' \<Longrightarrow> cfg_inv s \<Longrightarrow> put_ok s p \<Longrightarrow> put_ok s' p"
  by (cases p) (auto intro: extends_savable extends_complete)

lemma extends_ack: "extends s s' \<Longrightarrow> ack_ok s a \<Longrightarrow> ack_ok s' a"
  by (cases a rule: prod.exhaust; cases "fst a" rule: prod_cases3) (auto intro: extends_adopted)

lemma extends_ctls:
  assumes "extends s s'" "cfg_inv s" "ctls_inv s"
  shows "list_all (ctl_ok s') (s_ctls s)" "list_all (sent_ok s') (s_sent s)" "list_all (reply_ok s') (s_replies s)"
    "list_all (put_ok s') (s_puts s)" "list_all (ack_ok s') (s_acks s)"
  using assms(3) extends_ctl [OF assms(1,2)] extends_sent [OF assms(1)] extends_reply [OF assms(1)]
    extends_put [OF assms(1,2)] extends_ack [OF assms(1)]
  by (auto simp: ctls_inv_def list_all_iff)

text \<open>The parts of a state that the predicates look at.\<close>

lemma same_core:
  assumes "s_store s' = s_store s" "s_hist s' = s_hist s" "s_groups s' = s_groups s" "s_done s' = s_done s"
  shows "cnum s' = cnum s" "next_cfg s' = next_cfg s" "assigned s' = assigned s" "owner s' = owner s"
    "cfg_inv s' = cfg_inv s" "groups_inv s' = groups_inv s" "stage_ok s' = stage_ok s" "sys_kv s' = sys_kv s" "holder s' = holder s"
proof -
  show c: "cnum s' = cnum s" and n: "next_cfg s' = next_cfg s" using assms by (simp_all add: cnum_def next_cfg_def)
  then show a: "assigned s' = assigned s" using assms by (simp add: assigned_def fun_eq_iff)
  then show o: "owner s' = owner s" by (simp add: owner_def fun_eq_iff)
  from c n show "cfg_inv s' = cfg_inv s" using assms by (simp add: cfg_inv_def)
  show h: "holder s' = holder s" using o n c assms by (simp add: holder_def fun_eq_iff)
  then show "sys_kv s' = sys_kv s" using assms by (simp add: sys_kv_def fun_eq_iff)
  have "placed s' = placed s" "since_owner s' = since_owner s" "remembers s' = remembers s"
    using c n o h assms by (simp_all add: placed_def since_owner_def remembers_def fun_eq_iff)
  then show "groups_inv s' = groups_inv s" using assms by (simp add: groups_inv_def)
  have i: "installed s' = installed s" using o n assms by (simp add: installed_def fun_eq_iff)
  have "frozen s' = frozen s" "deleted s' = deleted s" "carried s' = carried s"
    using i o n c assms by (simp_all add: frozen_def deleted_def carried_def fun_eq_iff)
  with i c show "stage_ok s' = stage_ok s" by (simp add: stage_ok_def fun_eq_iff split: mover_pc.splits)
qed

lemma same_core_extends:
  assumes "s_store s' = s_store s" "s_hist s' = s_hist s" "s_groups s' = s_groups s" "s_done s' = s_done s"
  shows "extends s s'"
  using same_core [OF assms] by (simp add: extends_def)

text \<open>The whole invariant, and how an event of a controller that leaves store and groups alone keeps it.\<close>

definition sys_inv :: "sys \<Rightarrow> bool" where
  "sys_inv s \<longleftrightarrow> cfg_inv s \<and> groups_inv s \<and> ctls_inv s"

lemma set_ctl_inv:
  assumes "sys_inv s" "ctl_ok s x"
  shows "sys_inv (set_ctl c x s)"
proof -
  let ?s = "set_ctl c x s"
  have core: "s_store ?s = s_store s" "s_hist ?s = s_hist s" "s_groups ?s = s_groups s" "s_done ?s = s_done s"
    by (simp_all add: set_ctl_def)
  note e = same_core_extends [OF core] and x = extends_ctls [OF same_core_extends [OF core]]
  have cfg: "cfg_inv s" and ctls: "ctls_inv s" using assms(1) by (simp_all add: sys_inv_def)
  have "ctl_ok ?s x" using extends_ctl [OF e cfg assms(2)] .
  then have "list_all (ctl_ok ?s) (s_ctls ?s)" using x(1) [OF cfg ctls] set_update_subset_insert [of "s_ctls s" c x]
    by (auto simp: list_all_iff set_ctl_def)
  with x [OF cfg ctls] assms(1) same_core [OF core] show ?thesis by (auto simp: sys_inv_def ctls_inv_def set_ctl_def)
qed

section \<open>Events of the controllers\<close>

lemma cfg_invD:
  assumes "cfg_inv s"
  shows "1 \<le> cnum s" "cnum s \<le> nnum s" "nnum s \<le> cnum s + 1" "nnum s < 2 ^ 64"
    "s_store s ''currentConfig'' = Some (last (s_hist s), word_of_int (cnum s))"
    "s_store s ''nextConfig'' = Some (next_cfg s, word_of_int (nnum s))"
    "Num (last (s_hist s)) = cnum s" "assigned s (cnum s) = Shards (last (s_hist s))" "assigned s (nnum s) = Shards (next_cfg s)"
    "1 \<le> m \<Longrightarrow> m \<le> nnum s \<Longrightarrow> length (assigned s m) = NShards"
proof -
  show c: "1 \<le> cnum s" and n: "cnum s \<le> nnum s" "nnum s \<le> cnum s + 1" "nnum s < 2 ^ 64"
    "s_store s ''currentConfig'' = Some (last (s_hist s), word_of_int (cnum s))"
    "s_store s ''nextConfig'' = Some (next_cfg s, word_of_int (nnum s))"
    using assms by (cases "s_hist s"; auto simp: cfg_inv_def cnum_def)+
  have h: "s_hist s \<noteq> []" "length (s_hist s) - 1 < length (s_hist s)" using assms by (auto simp: cfg_inv_def)
  then show l: "Num (last (s_hist s)) = cnum s" using assms by (auto simp: cfg_inv_def cnum_def last_conv_nth of_nat_diff Suc_le_eq)
  have "nat (cnum s - 1) = length (s_hist s) - 1" by (simp add: cnum_def nat_diff_distrib)
  then show a: "assigned s (cnum s) = Shards (last (s_hist s))" using h(1) by (simp add: assigned_def last_conv_nth)
  show "assigned s (nnum s) = Shards (next_cfg s)"
    using a assms by (cases "nnum s \<le> cnum s") (auto simp: assigned_def cfg_inv_def)
  show "length (assigned s m) = NShards" if "1 \<le> m" "m \<le> nnum s"
    using assms that by (auto simp: assigned_def cfg_inv_def cnum_def)
qed

lemma adopted_next: "cfg_inv s \<Longrightarrow> adopted s (next_cfg s)"
  using cfg_invD(1,2,9) [of s] by (simp add: adopted_def)

lemma based_current: "cfg_inv s \<Longrightarrow> based s (last (s_hist s)) (word_of_int (cnum s))"
  using cfg_invD(1,7,8) [of s] by (simp add: based_def)

lemma migrateShards_ok:
  assumes "cfg_inv s" "based s old ver" "adopted s new" "Num old < Num new"
  shows "ctl_ok s (migrateShards old ver new)"
proof -
  have len: "length (Shards old) = NShards"
    using assms(1,2) cfg_invD(2) [OF assms(1)] cfg_invD(10) [OF assms(1), of "Num old"] by (auto simp: based_def)
  have "mover_ok s new mv" if "mv \<in> set (start_movers old new)" for mv
    using that len by (auto simp: start_movers_def mover_ok_def shard_range_def stage_ok_def)
  moreover have "\<exists>mv \<in> set (start_movers old new). mv_shid mv = i"
    if "shard_range i" "Shards old ! nat i \<noteq> Shards new ! nat i" for i
    using that len nat_shard_less [OF that(1)] by (auto simp: start_movers_def shard_range_def image_iff intro!: bexI [of _ "nat i"])
  ultimately show ?thesis using assms by (auto simp: migrateShards_def)
qed

lemma EqualTo_same:
  assumes "EqualTo a b" "length (Shards a) = NShards" "length (Shards b) = NShards"
  shows "Num a = Num b" "Shards a = Shards b"
  using assms by (auto simp: EqualTo_def list_all_iff intro!: nth_equalityI split: if_splits)

lemma ctl_read_ok:
  assumes "cfg_inv s" "ctl_ok s c"
  shows "ctl_ok s (ctl_read (s_store s) c)"
proof -
  note D = cfg_invD [OF assms(1)]
  show ?thesis
  proof (cases c)
    case (ReadCur new)
    then show ?thesis using assms(2) D(5,7) based_current [OF assms(1)]
      by (auto simp: ChangeConfigTo_def queryCurrentConfig_def wanted_def)
  next
    case (ReadNext new old ver)
    then show ?thesis using assms(2) D(1,2,6)
      by (auto simp: saveNextConfig_def queryNextConfig_def savable_def intro!: exI [of _ "nnum s"])
  next
    case (CheckNext new old ver)
    have "adopted s new" if "EqualTo (next_cfg s) new"
      using EqualTo_same [OF that] adopted_next [OF assms(1)] D(1,2) D(9) D(10) [of "nnum s"] assms(2) CheckNext
      by (auto simp: adopted_def wanted_def)
    then show ?thesis using assms(2) D(6) CheckNext migrateShards_ok [OF assms(1), of old ver new]
      by (auto simp: saveNextConfig_check_def queryNextConfig_def)
  next
    case InitCur
    then show ?thesis using D(5) based_current [OF assms(1)] by (simp add: InitController_def queryCurrentConfig_def)
  next
    case (InitNext cur ver)
    then show ?thesis using assms(2) D(6) migrateShards_ok [OF assms(1) _ adopted_next [OF assms(1)]]
      by (auto simp: InitController_next_def queryNextConfig_def)
  qed (use assms(2) in simp_all)
qed

lemma ctl_put_ok: "ctl_ok s c \<Longrightarrow> ctl_put c = Some p \<Longrightarrow> put_ok s p"
  by (cases c) auto

lemma ctl_put_returns_ok:
  assumes "cfg_inv s" "ctl_ok s c" "ctl_put c = Some p" "ack_ok s (p, e)" "e' = e \<or> e' = ErrMaybe"
  shows "ctl_ok s (ctl_put_returns e' c)"
proof (cases c)
  case (SaveNext new old ver nver)
  have "adopted s new" if "e' = OK" using assms(3-5) SaveNext that by auto
  then show ?thesis using assms(1,2) SaveNext migrateShards_ok [of s old ver new]
    by (auto simp: saveNextConfig_err_def savable_def split: Err.splits)
qed (use assms(2) in simp_all)

lemma mover_req_ok:
  assumes "adopted s new" "mover_ok s new mv" "mover_req new mv = Some m"
  shows "sent_ok s m"
proof -
  have "Shards new ! nat (mv_shid mv) = owner s (mv_shid mv) (Num new)" using assms(1) by (simp add: adopted_def owner_def)
  with assms show ?thesis by (auto simp: mover_ok_def adopted_def split: mover_pc.splits)
qed

lemma mover_req_shard: "mover_req new mv = Some (g, q) \<Longrightarrow> req_shard q = (mv_shid mv, Num new)"
  by (auto split: mover_pc.splits)

lemma Moving_update:
  assumes "ctl_ok s (Moving old ver new mvs)" "k < length mvs" "stage_ok s (Num new) (mv_shid (mvs ! k)) pc"
  shows "ctl_ok s (Moving old ver new (mvs[k := (mvs ! k)\<lparr>mv_pc := pc\<rparr>]))"
proof -
  let ?mvs = "mvs[k := (mvs ! k)\<lparr>mv_pc := pc\<rparr>]"
  have "mover_ok s new (mvs ! k)" using assms(1,2) by simp
  with assms(3) have "mover_ok s new ((mvs ! k)\<lparr>mv_pc := pc\<rparr>)" by (simp add: mover_ok_def)
  then have "\<forall>mv \<in> set ?mvs. mover_ok s new mv"
    using assms(1) set_update_subset_insert [of mvs k "(mvs ! k)\<lparr>mv_pc := pc\<rparr>"] by auto
  moreover have "map mv_shid ?mvs = map mv_shid mvs" using assms(2) by (simp add: map_update list_update_same_conv)
  then have same: "i \<in> mv_shid ` set ?mvs \<longleftrightarrow> i \<in> mv_shid ` set mvs" for i by (metis list.set_map)
  have "\<exists>mv \<in> set ?mvs. mv_shid mv = i" if "shard_range i" "Shards old ! nat i \<noteq> Shards new ! nat i" for i
  proof -
    from assms(1) that have "i \<in> mv_shid ` set mvs" by auto
    with same [of i] show ?thesis by auto
  qed
  ultimately show ?thesis using assms(1) by simp
qed

lemma same_request_shard: "same_request q q' \<Longrightarrow> req_shard q' = req_shard q"
  by (cases "(q, q')" rule: same_request.cases) auto

lemma Moving_returns:
  assumes "ctl_ok s (Moving old ver new mvs)" "k < length mvs" "answers_req (mover_req new (mvs ! k)) r"
    and "reply_ok s r" "mover_reply (snd (snd r)) (mv_pc (mvs ! k)) = Some pc"
  shows "ctl_ok s (Moving old ver new (mvs[k := (mvs ! k)\<lparr>mv_pc := pc\<rparr>]))"
proof -
  obtain g q where q: "mover_req new (mvs ! k) = Some (g, q)" "same_request q (fst (snd r))"
    using assms(3) unfolding answers_req_def by (cases "mover_req new (mvs ! k)") auto
  then have "req_shard (fst (snd r)) = (mv_shid (mvs ! k), Num new)"
    using mover_req_shard [OF q(1)] same_request_shard [OF q(2)] by simp
  then show ?thesis using Moving_update [OF assms(1,2)] assms(4,5) by (cases r) auto
qed

lemma Moving_exhausted:
  assumes "ctl_ok s (Moving old ver new mvs)" "k < length mvs"
  shows "ctl_ok s (Moving old ver new (mvs[k := (mvs ! k)\<lparr>mv_pc := mover_exhausted cur new (mv_pc (mvs ! k))\<rparr>]))"
proof (rule Moving_update [OF assms])
  have "mover_ok s new (mvs ! k)" using assms by simp
  then show "stage_ok s (Num new) (mv_shid (mvs ! k)) (mover_exhausted cur new (mv_pc (mvs ! k)))"
    by (simp add: mover_exhausted_def mover_ok_def stage_ok_def)
qed

lemma migrate_wait_ok:
  assumes "ctl_ok s (Moving old ver new mvs)" "list_all mover_ended mvs"
  shows "ctl_ok s (migrate_wait ver new mvs)"
proof (cases "list_ex (\<lambda>mv. case mv_pc mv of Superseded \<Rightarrow> True | _ \<Rightarrow> False) mvs")
  case False
  have "mv_pc mv = Moved" if "mv \<in> set mvs" for mv
  proof -
    have "mover_ended mv" "\<not> (case mv_pc mv of Superseded \<Rightarrow> True | _ \<Rightarrow> False)"
      using that False assms(2) by (auto simp: list_all_iff list_ex_iff)
    then show ?thesis by (cases "mv_pc mv") (simp_all add: mover_ended_def)
  qed
  then have "stage_ok s (Num new) i Moved" if "shard_range i" "Shards old ! nat i \<noteq> Shards new ! nat i" for i
    using that assms(1) by (fastforce simp: mover_ok_def)
  then have "complete s new ver"
    using assms(1) by (auto simp: complete_def based_def owner_def intro!: exI [of _ "Num old"])
  with False show ?thesis by (simp add: migrate_wait_def)
qed (simp add: migrate_wait_def)

section \<open>The config store\<close>

lemma u64_inj:
  assumes "(word_of_int a :: u64) = word_of_int b" "0 \<le> a" "a < 2 ^ 64" "0 \<le> b" "b < 2 ^ 64"
  shows "a = b"
  using assms by (simp add: word_of_int_eq_iff take_bit_int_eq_self)

lemma groups_invD:
  assumes "groups_inv s"
  shows "sg_ok (s_groups s g)" "shard_range i \<Longrightarrow> placed s i" "shard_range i \<Longrightarrow> since_owner s i" "remembers s"
  using assms by (auto simp: groups_inv_def)

text \<open>Groups that stay as they are, in a state with other configurations.\<close>

lemma groups_inv_transfer:
  assumes "groups_inv s" "s_groups s' = s_groups s" "s_done s' = s_done s"
    and "\<And>i. shard_range i \<Longrightarrow> placed s' i \<and> since_owner s' i \<and> holder s' i = holder s i"
  shows "groups_inv s'" "sys_kv s' = sys_kv s"
proof -
  have h: "holder s' (Key2Shard k) = holder s (Key2Shard k)" for k using assms(4) by simp
  then have "remembers s' = remembers s" using assms(2,3) by (simp add: remembers_def Let_def)
  then show "groups_inv s'" using assms by (simp add: groups_inv_def)
  show "sys_kv s' = sys_kv s" using h assms(2) by (simp add: sys_kv_def fun_eq_iff)
qed

definition put_next :: "ShardConfig \<Rightarrow> sys \<Rightarrow> sys" where
  "put_next cfg s = s\<lparr>s_store := (s_store s)(''nextConfig'' \<mapsto> (cfg, word_of_int (Num cfg)))\<rparr>"

lemma put_next_step:
  assumes "cfg_inv s" "groups_inv s" "nnum s = cnum s" "Num cfg = cnum s + 1" "length (Shards cfg) = NShards" "Num cfg < 2 ^ 64"
  defines "s' \<equiv> put_next cfg s"
  shows "cfg_inv s' \<and> groups_inv s' \<and> sys_kv s' = sys_kv s \<and> extends s s' \<and> adopted s' cfg"
proof -
  note D = cfg_invD [OF assms(1)]
  have s': "s_hist s' = s_hist s" "cnum s' = cnum s" "next_cfg s' = cfg" "s_groups s' = s_groups s" "s_done s' = s_done s"
    by (simp_all add: s'_def put_next_def cnum_def next_cfg_def)
  have a: "assigned s' m = assigned s m" if "m \<le> cnum s" for m using that s' by (simp add: assigned_def)
  then have o: "owner s' i m = owner s i m" if "m \<le> cnum s" for i m using that by (simp add: owner_def)
  have "cfg_inv s'" using assms(1,4-6) s' by (simp add: cfg_inv_def s'_def put_next_def)
  moreover have "extends s s'" using s' a assms(3,4) by (simp add: extends_def stage_ok_def)
  moreover have "adopted s' cfg" using s' assms(4) D(1) by (simp add: adopted_def assigned_def)
  moreover have "placed s' i \<and> since_owner s' i \<and> holder s' i = holder s i" if i: "shard_range i" for i
  proof (intro conjI)
    note g = groups_invD(2,3) [OF assms(2) i]
    have p: "status (s_groups s (owner s i (cnum s))) i = Serving" "local_num (s_groups s (owner s i (cnum s))) i \<le> cnum s"
      "g \<noteq> owner s i (cnum s) \<Longrightarrow> status (s_groups s g) i = Absent \<and> local_num (s_groups s g) i \<le> cnum s" for g
      using g(1) assms(3) by (auto simp: placed_def Let_def)
    show "placed s' i" using p o s' by (auto simp: placed_def Let_def)
    show "since_owner s' i" using g(2) o s' by (simp add: since_owner_def)
    have "holder s i = owner s i (cnum s)" using assms(3) p(1) by (simp add: holder_def)
    moreover have "holder s' i = owner s i (cnum s)" 
      using p(3) [of "owner s' i (nnum s')"] o s' by (cases "owner s' i (nnum s') = owner s i (cnum s)") (auto simp: holder_def)
    ultimately show "holder s' i = holder s i" by simp
  qed
  ultimately show ?thesis using groups_inv_transfer [OF assms(2) s'(4,5)] by blast
qed

lemma moved_placed:
  assumes "placed s i" "nnum s = cnum s + 1" and "owner s i (cnum s) \<noteq> owner s i (nnum s) \<Longrightarrow> deleted s i"
  shows "status (s_groups s (owner s i (nnum s))) i = Serving" "local_num (s_groups s (owner s i (nnum s))) i \<le> cnum s + 1"
    "g \<noteq> owner s i (nnum s) \<Longrightarrow> status (s_groups s g) i = Absent \<and> local_num (s_groups s g) i \<le> cnum s + 1"
proof -
  let ?a = "owner s i (cnum s)" and ?b = "owner s i (nnum s)"
  have oth: "status (s_groups s g) i = Absent \<and> local_num (s_groups s g) i \<le> cnum s" if "g \<noteq> ?a" "g \<noteq> ?b" for g
    using assms(1) that by (simp add: placed_def Let_def)
  have "status (s_groups s ?b) i = Serving \<and> local_num (s_groups s ?b) i \<le> cnum s + 1 \<and>
    (?a \<noteq> ?b \<longrightarrow> status (s_groups s ?a) i = Absent \<and> local_num (s_groups s ?a) i \<le> cnum s + 1)"
  proof (cases "?a = ?b")
    case True
    with assms(1) show ?thesis by (simp add: placed_def Let_def)
  next
    case False
    with assms(3) have "deleted s i" by simp
    with assms(2) show ?thesis by (simp add: deleted_def installed_def)
  qed
  then show "status (s_groups s ?b) i = Serving" "local_num (s_groups s ?b) i \<le> cnum s + 1"
    "g \<noteq> ?b \<Longrightarrow> status (s_groups s g) i = Absent \<and> local_num (s_groups s g) i \<le> cnum s + 1"
    using oth [of g] by (cases "g = ?a"; force)+
qed

definition put_cur :: "ShardConfig \<Rightarrow> sys \<Rightarrow> sys" where
  "put_cur cfg s = s\<lparr>s_store := (s_store s)(''currentConfig'' \<mapsto> (cfg, word_of_int (Num cfg))), s_hist := s_hist s @ [cfg]\<rparr>"

lemma put_cur_step:
  assumes "cfg_inv s" "groups_inv s" "Num cfg = cnum s + 1" "nnum s = cnum s + 1" "Shards cfg = assigned s (nnum s)"
    and moved: "\<And>i. shard_range i \<Longrightarrow> owner s i (cnum s) \<noteq> owner s i (nnum s) \<Longrightarrow> deleted s i"
  defines "s' \<equiv> put_cur cfg s"
  shows "cfg_inv s' \<and> groups_inv s' \<and> sys_kv s' = sys_kv s \<and> extends s s'"
proof -
  note D = cfg_invD [OF assms(1)]
  have s': "cnum s' = cnum s + 1" "next_cfg s' = next_cfg s" "s_groups s' = s_groups s" "s_done s' = s_done s"
    by (simp_all add: s'_def put_cur_def cnum_def next_cfg_def)
  have a: "assigned s' m = assigned s m" if "1 \<le> m" "m \<le> nnum s" for m
  proof (cases "m \<le> cnum s")
    case True
    then show ?thesis using that s' by (auto simp: assigned_def s'_def put_cur_def nth_append cnum_def)
  next
    case False
    then have "m = cnum s + 1" using that(2) assms(4) by simp
    then show ?thesis using s' assms(4,5) by (simp add: assigned_def s'_def put_cur_def cnum_def nth_append)
  qed
  then have o: "owner s' i m = owner s i m" if "1 \<le> m" "m \<le> nnum s" for i m using that by (simp add: owner_def)
  have "length (Shards cfg) = NShards" using D(1,2,10) assms(5) by simp
  then have "cfg_inv s'" using assms(1,3,4,5) s' D(9)
    by (auto simp: cfg_inv_def s'_def put_cur_def nth_append cnum_def less_Suc_eq)
  moreover have "extends s s'" using s' a assms(4) by (simp add: extends_def stage_ok_def)
  moreover have "placed s' i \<and> since_owner s' i \<and> holder s' i = holder s i" if i: "shard_range i" for i
  proof (intro conjI)
    note g = groups_invD(2,3) [OF assms(2) i]
    let ?b = "owner s i (nnum s)"
    have b: "owner s' i (cnum s') = ?b" "owner s' i (nnum s') = ?b" using o [of "nnum s"] D(1,2) s' assms(4) by simp_all
    note p = moved_placed [OF g(1) assms(4) moved [OF i]]
    show "placed s' i" unfolding placed_def Let_def b using p s' by simp
    show "since_owner s' i" unfolding since_owner_def
    proof (intro allI impI)
      fix g m assume m: "1 \<le> m" "m \<le> cnum s'"
      have om: "owner s' i m = owner s i m" using o m s' assms(4) by simp
      show "(status (s_groups s' g) i = Serving \<longrightarrow> local_num (s_groups s' g) i \<le> m \<longrightarrow> owner s' i m = g) \<and>
          (status (s_groups s' g) i = Absent \<longrightarrow> owner s' i m = g \<longrightarrow> m < local_num (s_groups s' g) i)"
      proof (cases "m \<le> cnum s")
        case True
        with g(2) m(1) om s'(3) show ?thesis by (simp add: since_owner_def)
      next
        case False
        then have "m = nnum s" using m s' assms(4) by simp
        then show ?thesis using p(1) p(3) [of g] om s'(3) by (cases "g = owner s i (nnum s)") auto
      qed
    qed
    show "holder s' i = holder s i" using p(1) b s' by (simp add: holder_def)
  qed
  ultimately show ?thesis using groups_inv_transfer [OF assms(2) s'(3,4)] by blast
qed

text \<open>A put on the store: refused, or the next, or the current configuration is replaced by its successor.\<close>

lemma store_put_cases:
  assumes "cfg_inv s" "put_ok s (key, cfg, ver)"
  obtains (refused) err where "store_Put (s_store s) key cfg ver = (s_store s, err)" "err \<noteq> OK"
  | (nextp) "key = ''nextConfig''" "store_Put (s_store s) key cfg ver = (s_store (put_next cfg s), OK)"
      "nnum s = cnum s" "Num cfg = cnum s + 1" "length (Shards cfg) = NShards" "Num cfg < 2 ^ 64"
  | (curp) "key = ''currentConfig''" "store_Put (s_store s) key cfg ver = (s_store (put_cur cfg s), OK)"
      "Num cfg = cnum s + 1" "nnum s = cnum s + 1" "Shards cfg = assigned s (nnum s)"
      "\<And>i. shard_range i \<Longrightarrow> owner s i (cnum s) \<noteq> owner s i (nnum s) \<Longrightarrow> deleted s i"
proof -
  note D = cfg_invD [OF assms(1)]
  show ?thesis
  proof (cases "key = ''nextConfig''")
    case True
    with assms(2) obtain m where m: "wanted s cfg" "1 \<le> m" "m < Num cfg" "m \<le> nnum s" "ver = word_of_int m"
      by (auto simp: savable_def)
    show ?thesis
    proof (cases "ver = word_of_int (nnum s)")
      case eq: True
      have "m = nnum s" by (rule u64_inj) (use eq m D(1,2,4) in auto)
      then have n: "nnum s = cnum s" "Num cfg = cnum s + 1" using m(1,3) D(2) by (auto simp: wanted_def)
      moreover have "(word_of_int (cnum s) :: u64) + 1 = word_of_int (cnum s + 1)" by simp
      ultimately show ?thesis using True eq D(6) m(1)
        by (intro nextp) (auto simp: store_Put_def put_next_def wanted_def)
    next
      case False
      then show ?thesis using True D(6) by (intro refused [of ErrVersion]) (auto simp: store_Put_def)
    qed
  next
    case False
    with assms(2) obtain j where key: "key = ''currentConfig''" and ad: "adopted s cfg" and j: "1 \<le> j" "j \<le> cnum s" "j < Num cfg" "ver = word_of_int j"
      "j = cnum s \<longrightarrow> (\<forall>i. shard_range i \<longrightarrow> owner s i j \<noteq> Shards cfg ! nat i \<longrightarrow> stage_ok s (Num cfg) i Moved)"
      by (auto simp: complete_def)
    show ?thesis
    proof (cases "ver = word_of_int (cnum s)")
      case eq: True
      have jc: "j = cnum s" by (rule u64_inj) (use eq j D(1,2,4) in auto)
      then have n: "Num cfg = cnum s + 1" "nnum s = cnum s + 1" using ad j(3) D(3) by (auto simp: adopted_def)
      moreover have "(word_of_int (cnum s) :: u64) + 1 = word_of_int (cnum s + 1)" by simp
      moreover have "deleted s i" if "shard_range i" "owner s i (cnum s) \<noteq> owner s i (nnum s)" for i
        using that j(5) jc n ad by (auto simp: adopted_def owner_def stage_ok_def)
      ultimately show ?thesis using key eq D(5) ad by (intro curp) (auto simp: store_Put_def put_cur_def adopted_def)
    next
      case False
      then show ?thesis using key D(5) by (intro refused [of ErrVersion]) (auto simp: store_Put_def)
    qed
  qed
qed

lemma exec_put_inv:
  assumes "sys_inv s" "put_ok s p"
  shows "sys_inv (exec_put p s) \<and> sys_kv (exec_put p s) = sys_kv s"
proof -
  obtain key cfg ver where p: "p = (key, cfg, ver)" by (cases p)
  have inv: "cfg_inv s" "groups_inv s" "ctls_inv s" using assms(1) by (simp_all add: sys_inv_def)
  have go: "sys_inv (exec_put p s) \<and> sys_kv (exec_put p s) = sys_kv s"
    if c: "cfg_inv s1" "groups_inv s1" "sys_kv s1 = sys_kv s" "extends s s1" "ack_ok s1 (p, err)"
      and e: "exec_put p s = s1\<lparr>s_acks := s_acks s @ [(p, err)]\<rparr>"
        "s_ctls s1 = s_ctls s" "s_sent s1 = s_sent s" "s_replies s1 = s_replies s" "s_puts s1 = s_puts s" for s1 err
  proof -
    let ?s = "s1\<lparr>s_acks := s_acks s @ [(p, err)]\<rparr>"
    have core: "s_store ?s = s_store s1" "s_hist ?s = s_hist s1" "s_groups ?s = s_groups s1" "s_done ?s = s_done s1" by simp_all
    note S = same_core [OF core]
    have "extends s ?s" using c(4) S by (simp add: extends_def)
    note x = extends_ctls [OF this inv(1,3)]
    have "ack_ok ?s (p, err)" using c(5) extends_ack [OF same_core_extends [OF core]] by blast
    then show ?thesis using x S c(1-3) e by (simp add: sys_inv_def ctls_inv_def)
  qed
  from assms(2) p have "put_ok s (key, cfg, ver)" by simp
  with inv(1) show ?thesis
  proof (cases rule: store_put_cases)
    case (refused err)
    show ?thesis by (rule go [of s err]) (use inv refused p same_core_extends [of s s] in \<open>auto simp: exec_put_def\<close>)
  next
    case nextp
    show ?thesis by (rule go [of "put_next cfg s" OK])
      (use put_next_step [OF inv(1,2) nextp(3-6)] nextp(1,2) p in \<open>auto simp: exec_put_def put_next_def\<close>)
  next
    case curp
    show ?thesis by (rule go [of "put_cur cfg s" OK])
      (use put_cur_step [OF inv(1,2) curp(3-6)] curp(1,2) p in \<open>auto simp: exec_put_def put_cur_def\<close>)
  qed
qed

section \<open>The groups\<close>

lemma placedD:
  assumes "placed s i" "cfg_inv s"
  defines "a \<equiv> owner s i (cnum s)" and "b \<equiv> owner s i (nnum s)"
  shows "local_num (s_groups s g) i \<le> nnum s"
    "status (s_groups s g) i = Serving \<Longrightarrow> g = holder s i"
    "status (s_groups s g) i = Frozen \<Longrightarrow> g = a \<and> a \<noteq> b \<and> at s a i = (Frozen, nnum s)"
    "cnum s < local_num (s_groups s g) i \<Longrightarrow> g \<noteq> b \<Longrightarrow> g = a \<and> (at s a i = (Frozen, nnum s) \<or> at s a i = (Absent, nnum s) \<and> installed s i)"
    "\<not> installed s i \<Longrightarrow> holder s i = a"
    "installed s i \<Longrightarrow> holder s i = b"
proof -
  have cn: "cnum s \<le> nnum s" using cfg_invD(2) [OF assms(2)] .
  have oth: "status (s_groups s g) i = Absent \<and> local_num (s_groups s g) i \<le> cnum s" if "g \<noteq> a" "g \<noteq> b"
    using assms(1) that by (simp add: placed_def Let_def a_def b_def)
  have cases: "a = b \<and> status (s_groups s a) i = Serving \<and> local_num (s_groups s a) i \<le> cnum s \<or>
    a \<noteq> b \<and> (status (s_groups s a) i = Serving \<and> local_num (s_groups s a) i \<le> cnum s \<or> at s a i = (Frozen, nnum s)) \<and>
      status (s_groups s b) i = Absent \<and> local_num (s_groups s b) i \<le> cnum s \<or>
    a \<noteq> b \<and> at s b i = (Serving, nnum s) \<and> (at s a i = (Frozen, nnum s) \<or> at s a i = (Absent, nnum s))"
    using assms(1) unfolding placed_def Let_def a_def [symmetric] b_def [symmetric] by (auto split: if_splits)
  show "local_num (s_groups s g) i \<le> nnum s"
    using cases oth cn by (cases "g = a"; cases "g = b") auto
  show "g = holder s i" if "status (s_groups s g) i = Serving"
    using cases oth that by (cases "g = a"; cases "g = b") (auto simp: holder_def a_def [symmetric] b_def [symmetric])
  show "g = a \<and> a \<noteq> b \<and> at s a i = (Frozen, nnum s)" if "status (s_groups s g) i = Frozen"
    using cases oth that by (cases "g = a"; cases "g = b") auto
  show "g = a \<and> (at s a i = (Frozen, nnum s) \<or> at s a i = (Absent, nnum s) \<and> installed s i)"
    if "cnum s < local_num (s_groups s g) i" "g \<noteq> b"
    using cases oth that by (cases "g = a") (auto simp: installed_def b_def [symmetric])
  show "holder s i = a" if "\<not> installed s i"
    using cases that by (auto simp: holder_def installed_def a_def [symmetric] b_def [symmetric])
  show "holder s i = b" if "installed s i"
    using that by (auto simp: holder_def installed_def a_def [symmetric] b_def [symmetric])
qed

definition put_group :: "Tgid \<Rightarrow> ShardgrpServer \<Rightarrow> sys \<Rightarrow> sys" where
  "put_group g kv s = s\<lparr>s_groups := (s_groups s)(g := kv)\<rparr>"

lemma put_group_cfg [simp]:
  "cnum (put_group g kv s) = cnum s" "next_cfg (put_group g kv s) = next_cfg s" "assigned (put_group g kv s) = assigned s"
  "owner (put_group g kv s) = owner s" "cfg_inv (put_group g kv s) = cfg_inv s" "s_done (put_group g kv s) = s_done s"
  "s_groups (put_group g kv s) = (s_groups s)(g := kv)"
proof -
  show c: "cnum (put_group g kv s) = cnum s" and n: "next_cfg (put_group g kv s) = next_cfg s"
    by (simp_all add: put_group_def cnum_def next_cfg_def)
  then show a: "assigned (put_group g kv s) = assigned s" by (simp add: assigned_def fun_eq_iff) (simp add: put_group_def)
  then show "owner (put_group g kv s) = owner s" by (simp add: owner_def fun_eq_iff)
  show "cfg_inv (put_group g kv s) = cfg_inv s" using c n by (simp add: cfg_inv_def) (simp add: put_group_def)
qed (simp_all add: put_group_def)

text \<open>A group changes what it has of shard \<open>i\<close> only; the other shards are as they were.\<close>

lemma other_shards:
  assumes "shard_of kv j = shard_of (s_groups s g) j" "content kv j = content (s_groups s g) j"
  defines "s' \<equiv> put_group g kv s"
  shows "at s' h j = at s h j" "content (s_groups s' h) j = content (s_groups s h) j"
    "placed s' j = placed s j" "since_owner s' j = since_owner s j" "holder s' j = holder s j" "stage_ok s' m j pc = stage_ok s m j pc"
proof -
  have at: "at s' h j = at s h j" for h using assms(1) by (simp add: s'_def)
  then have st: "status (s_groups s' h) j = status (s_groups s h) j" "local_num (s_groups s' h) j = local_num (s_groups s h) j" for h by auto
  have ct: "content (s_groups s' h) j = content (s_groups s h) j" for h using assms(2) by (simp add: s'_def)
  have cfg: "cnum s' = cnum s" "next_cfg s' = next_cfg s" "owner s' = owner s" "s_done s' = s_done s" by (simp_all add: s'_def)
  show "at s' h j = at s h j" "content (s_groups s' h) j = content (s_groups s h) j" by (fact at ct)+
  show "placed s' j = placed s j" by (simp add: placed_def cfg at st)
  show "since_owner s' j = since_owner s j" by (simp add: since_owner_def cfg st)
  show "holder s' j = holder s j" by (simp add: holder_def cfg st)
  have "installed s' j = installed s j" by (simp add: installed_def cfg at st)
  moreover have "frozen s' j = frozen s j" "deleted s' j = deleted s j" using calculation by (simp_all add: frozen_def deleted_def cfg at st)
  moreover have "carried s' j d = carried s j d" for d by (simp add: carried_def cfg ct)
  ultimately show "stage_ok s' m j pc = stage_ok s m j pc" by (simp add: stage_ok_def cfg split: mover_pc.splits)
qed

text \<open>The holder of a shard remembers a put.\<close>

definition recalls :: "ShardgrpServer \<Rightarrow> Tshid \<Rightarrow> PutArgs \<Rightarrow> bool" where
  "recalls kv i a \<longleftrightarrow> pa_ClientId a \<in> set (client_list (snd (content kv i))) \<and>
     (\<exists>p. sg_last kv (pa_ClientId a) = Some p \<and> pa_RequestId a \<le> lp_RequestId p)"

lemma remembers_recalls:
  "remembers s \<longleftrightarrow> (\<forall>a \<in> set (s_done s). recalls (s_groups s (holder s (Key2Shard (pa_Key a)))) (Key2Shard (pa_Key a)) a)"
  by (simp add: remembers_def recalls_def Let_def)

definition last_grows :: "ShardgrpServer \<Rightarrow> ShardgrpServer \<Rightarrow> bool" where
  "last_grows kv kv' \<longleftrightarrow> (\<forall>c p. sg_last kv c = Some p \<longrightarrow> (\<exists>p'. sg_last kv' c = Some p' \<and> lp_RequestId p \<le> lp_RequestId p'))"

lemma recalls_grows: "recalls kv i a \<Longrightarrow> last_grows kv kv' \<Longrightarrow> content kv' i = content kv i \<Longrightarrow> recalls kv' i a"
  unfolding recalls_def last_grows_def by (metis order_trans)

lemma sg_map_content: "sg_ok kv \<Longrightarrow> sg_map kv k = go_lookup (fst (content kv (Key2Shard k))) k"
  by (simp add: sg_map_at content_def)

lemma group_step:
  assumes inv: "cfg_inv s" "groups_inv s" and ok: "sg_ok kv'" and grows: "last_grows (s_groups s g) kv'"
    and frame: "\<And>j. shard_range j \<Longrightarrow> j \<noteq> i \<Longrightarrow> shard_of kv' j = shard_of (s_groups s g) j \<and> content kv' j = content (s_groups s g) j"
  defines "s' \<equiv> put_group g kv' s"
  assumes i: "shard_range i" "placed s' i" "since_owner s' i"
    and kv: "go_lookup (fst (content (s_groups s' (holder s' i)) i)) = go_lookup (fst (content (s_groups s (holder s i)) i))"
    and recall: "\<And>a. a \<in> set (s_done s) \<Longrightarrow> Key2Shard (pa_Key a) = i \<Longrightarrow> recalls (s_groups s' (holder s' i)) i a"
    and stage: "\<And>m pc. m \<le> nnum s \<Longrightarrow> stage_ok s m i pc \<Longrightarrow> stage_ok s' m i pc"
  shows "groups_inv s' \<and> sys_kv s' = sys_kv s \<and> extends s s'"
proof -
  note G = groups_invD [OF inv(2)]
  have ok': "sg_ok (s_groups s' h)" for h using ok G(1) by (simp add: s'_def)
  have oth: "placed s' j \<and> since_owner s' j \<and> holder s' j = holder s j" "content (s_groups s' h) j = content (s_groups s h) j"
    "stage_ok s' m j pc = stage_ok s m j pc" if "shard_range j" "j \<noteq> i" for j h m pc
    using other_shards [of kv' j s g] frame [OF that] G(2,3) [OF that(1)] by (auto simp: s'_def)
  have "placed s' j \<and> since_owner s' j" if "shard_range j" for j using i oth(1) [OF that] by (cases "j = i") auto
  moreover have "remembers s'" unfolding remembers_recalls
  proof
    fix a assume a: "a \<in> set (s_done s')"
    let ?j = "Key2Shard (pa_Key a)"
    show "recalls (s_groups s' (holder s' ?j)) ?j a"
    proof (cases "?j = i")
      case False
      have "recalls (s_groups s (holder s ?j)) ?j a" using a G(4) by (simp add: remembers_recalls s'_def)
      moreover have "last_grows (s_groups s h) (s_groups s' h)" for h using grows by (auto simp: s'_def last_grows_def)
      ultimately show ?thesis using oth(1,2) [OF shard_range_Key2Shard False] recalls_grows by metis
    qed (use recall a in \<open>simp add: s'_def\<close>)
  qed
  moreover have "sys_kv s' k = sys_kv s k" for k
    using kv oth(1,2) [OF shard_range_Key2Shard, of k] by (cases "Key2Shard k = i") (auto simp: sys_kv_def sg_map_content ok' G(1))
  moreover have "stage_ok s' m j pc" if "m \<le> nnum s" "shard_range j" "stage_ok s m j pc" for m j pc
    using that oth(3) stage by (cases "j = i") auto
  ultimately show ?thesis using ok' by (auto simp: groups_inv_def extends_def s'_def)
qed

lemma put_group_same: "kv = s_groups s g \<Longrightarrow> put_group g kv s = s"
  by (simp add: put_group_def)

lemma last_grows_refl: "sg_last kv' = sg_last kv \<Longrightarrow> last_grows kv kv'"
  by (simp add: last_grows_def)

text \<open>The state that a frozen shard is sent as.\<close>

lemma marshall_carried:
  assumes "sg_ok (s_groups s a)" "shard_range i" "a = owner s i (cnum s)"
    and "\<And>p. p \<in> set (s_done s) \<Longrightarrow> Key2Shard (pa_Key p) = i \<Longrightarrow> recalls (s_groups s a) i p"
  shows "carried s i (marshallShardState (s_groups s a) i)"
proof -
  have "\<exists>q. (pa_ClientId p, q) \<in> set (map (\<lambda>c. (c, the (sg_last (s_groups s a) c))) (client_list (sg_shardClients (s_groups s a) ! nat i))) \<and>
      pa_RequestId p \<le> lp_RequestId q" if "p \<in> set (s_done s)" "Key2Shard (pa_Key p) = i" for p
    using assms(4) [OF that] by (force simp: recalls_def content_def)
  then show ?thesis unfolding marshall_ok [OF assms(1,2)] carried_def assms(3) [symmetric] by (simp add: content_def)
qed

lemma freeze_step:
  assumes inv: "cfg_inv s" "groups_inv s" and sent: "sent_ok s (g, SFreeze \<lparr>fa_Shard = i, fa_Num = m\<rparr>)"
    and run: "DoOp_Freeze (s_groups s g) \<lparr>fa_Shard = i, fa_Num = m\<rparr> = Some (kv', r)"
  defines "s' \<equiv> put_group g kv' s"
  shows "groups_inv s' \<and> sys_kv s' = sys_kv s \<and> extends s s' \<and>
    (fr_Err r \<in> {OK, ErrWrongGroup} \<longrightarrow> stage_ok s' m i (Installing (fr_State r)))"
proof -
  have i: "shard_range i" and m: "1 \<le> m" "m \<le> nnum s" "g \<noteq> owner s i m" using sent by auto
  note D = cfg_invD [OF inv(1)] and G = groups_invD [OF inv(2)]
  note P = placedD [OF G(2) [OF i] inv(1)] and so = G(3) [OF i, unfolded since_owner_def, rule_format]
  let ?a = "owner s i (cnum s)" and ?b = "owner s i (nnum s)"
  have recall: "recalls (s_groups s (holder s i)) i p" if "p \<in> set (s_done s)" "Key2Shard (pa_Key p) = i" for p
    using G(4) that by (auto simp: remembers_recalls)
  from G(1) i run show ?thesis
  proof (cases rule: Freeze_effect)
    case accepted
    have mc: "m = cnum s + 1" using so [of m g] m accepted(1,2) D(3) by (cases "m \<le> cnum s") auto
    then have n: "nnum s = m" using m(2) D(3) by simp
    have a: "g = ?a" using so [of "cnum s" g] D(1) accepted(1,2) mc by auto
    have b: "?b \<noteq> g" using m(3) n by simp
    have stb: "status (s_groups s ?b) i = Absent" "local_num (s_groups s ?b) i \<le> cnum s"
      using G(2) [OF i] a b accepted(2) unfolding placed_def Let_def by auto
    have ni: "\<not> installed s i" "\<not> frozen s i" using stb accepted(2) a by (auto simp: installed_def frozen_def)
    have at': "shard_of (s_groups s' g) i = (Frozen, m)" "s_groups s' h = (if h = g then kv' else s_groups s h)" for h
      using accepted(5) by (simp_all add: s'_def)
    have s': "cnum s' = cnum s" "next_cfg s' = next_cfg s" "owner s' = owner s" "s_done s' = s_done s" by (simp_all add: s'_def)
    have "placed s' i" using G(2) [OF i] a b stb at' n unfolding placed_def Let_def s' by auto
    moreover have "since_owner s' i" using so at' accepted(5) unfolding since_owner_def s' by auto
    moreover have h: "holder s' i = g" "holder s i = g" using stb a b at' s' by (auto simp: holder_def)
    moreover have "recalls kv' i p = recalls (s_groups s g) i p" for p using accepted(7,8) by (simp add: recalls_def)
    moreover have "stage_ok s' m' i pc" if "m' \<le> nnum s" "stage_ok s m' i pc" for m' pc
      using that ni s' by (cases pc) (auto simp: stage_ok_def deleted_def)
    ultimately have "groups_inv s' \<and> sys_kv s' = sys_kv s \<and> extends s s'"
      unfolding s'_def using recall accepted(6-9) last_grows_refl [OF accepted(8)] at'(2)
      by (intro group_step [OF inv, where i = i]) (auto simp: s'_def i)
    moreover have "frozen s' i" using at'(1) a n s' by (simp add: frozen_def)
    moreover have "carried s i (fr_State r)"
      unfolding accepted(4) using marshall_carried [OF G(1) i a] recall h(2) by auto
    then have "carried s' i (fr_State r)" using accepted(7) at'(2) s' by (auto simp: carried_def)
    ultimately show ?thesis by (simp add: stage_ok_def)
  next
    case refused
    have s': "s' = s" unfolding s'_def by (rule put_group_same [OF refused(1)])
    have "stage_ok s m i (Installing (fr_State r))" if e: "fr_Err r \<in> {OK, ErrWrongGroup}"
    proof (cases "m = cnum s + 1")
      case True
      have n: "nnum s = m" "local_num (s_groups s g) i = m" using True m(2) D(3) P(1) [of g] refused(3) e by auto
      have g: "g = ?a" "at s ?a i = (Frozen, nnum s) \<or> at s ?a i = (Absent, nnum s) \<and> installed s i"
        using P(4) [of g] n m(3) True by auto
      have "carried s i (fr_State r)" if "\<not> installed s i"
        using marshall_carried [OF G(1) i g(1)] recall P(5) [OF that] g(1) refused(4) n(2) e by auto
      with g show ?thesis by (auto simp: stage_ok_def frozen_def)
    qed (simp add: stage_ok_def)
    then show ?thesis using s' inv(2) same_core_extends [of s s] by simp
  qed
qed

lemma last_grows_merge: "sg_last kv' = foldl merge_lastPut (sg_last kv) es \<Longrightarrow> last_grows kv kv'"
  using foldl_merge_grows by (fastforce simp: last_grows_def)

text \<open>An install that is accepted is that of the pending move of its shard.\<close>

lemma install_pending:
  assumes inv: "cfg_inv s" "groups_inv s" and sent: "sent_ok s (g, SInstall \<lparr>ia_Shard = i, ia_State = st, ia_Num = m\<rparr>)"
    and acc: "local_num (s_groups s g) i < m" "status (s_groups s g) i = Absent"
  shows "m = cnum s + 1" "nnum s = m" "g = owner s i (nnum s)" "owner s i (cnum s) \<noteq> g" "\<not> installed s i"
    "at s (owner s i (cnum s)) i = (Frozen, nnum s)" "carried s i st"
proof -
  have i: "shard_range i" and m: "1 \<le> m" "m \<le> nnum s" "g = owner s i m" and st: "stage_ok s m i (Installing st)" using sent by auto
  note D = cfg_invD [OF inv(1)] and so = groups_invD(3) [OF inv(2) i, unfolded since_owner_def, rule_format]
  show mc: "m = cnum s + 1" using so [of m g] m acc D(3) by (cases "m \<le> cnum s") auto
  then show n: "nnum s = m" using m(2) D(3) by simp
  then show g: "g = owner s i (nnum s)" using m(3) by simp
  then show ni: "\<not> installed s i" using acc by (simp add: installed_def)
  then show f: "at s (owner s i (cnum s)) i = (Frozen, nnum s)" and "carried s i st"
    using st mc by (auto simp: stage_ok_def frozen_def)
  then show "owner s i (cnum s) \<noteq> g" using acc(2) by auto
qed

lemma install_step:
  assumes inv: "cfg_inv s" "groups_inv s" and sent: "sent_ok s (g, SInstall \<lparr>ia_Shard = i, ia_State = st, ia_Num = m\<rparr>)"
    and run: "DoOp_Install (s_groups s g) \<lparr>ia_Shard = i, ia_State = st, ia_Num = m\<rparr> = Some (kv', r)"
  defines "s' \<equiv> put_group g kv' s"
  shows "groups_inv s' \<and> sys_kv s' = sys_kv s \<and> extends s s' \<and> (ir_Err r \<in> {OK, ErrWrongGroup} \<longrightarrow> stage_ok s' m i Deleting)"
proof -
  have i: "shard_range i" and m: "m \<le> nnum s" "g = owner s i m" using sent by auto
  note D = cfg_invD [OF inv(1)] and G = groups_invD [OF inv(2)]
  note P = placedD [OF G(2) [OF i] inv(1)] and so = G(3) [OF i, unfolded since_owner_def, rule_format]
  let ?a = "owner s i (cnum s)"
  from G(1) i run show ?thesis
  proof (cases rule: Install_effect)
    case (accepted d cs)
    note p = install_pending [OF inv sent accepted(1,2)]
    have s': "cnum s' = cnum s" "next_cfg s' = next_cfg s" "owner s' = owner s" "s_done s' = s_done s"
      "s_groups s' h = (if h = g then kv' else s_groups s h)" for h by (simp_all add: s'_def)
    have inst: "installed s' i" using accepted(5) p(2,3) s' by (simp add: installed_def)
    have "placed s' i" using G(2) [OF i] p accepted(5) unfolding placed_def Let_def s' by auto
    moreover have "since_owner s' i" using so accepted(5) p(1) unfolding since_owner_def s' by auto
    moreover have h: "holder s' i = g" "holder s i = ?a" using accepted(5) p(3) P(5) [OF p(5)] s' by (simp_all add: holder_def)
    moreover have "ss_Kv d = go_lookup (fst (content (s_groups s ?a) i))" using p(7) accepted(3) by (auto simp: carried_def)
    then have "go_lookup (fst (content (s_groups s' (holder s' i)) i)) = go_lookup (fst (content (s_groups s (holder s i)) i))"
      using h accepted(6) s'(5) by simp
    moreover have "recalls (s_groups s' (holder s' i)) i x" if x: "x \<in> set (s_done s)" "Key2Shard (pa_Key x) = i" for x
    proof -
      obtain q where q: "(pa_ClientId x, q) \<in> set (ss_LastPutByClientId d)" "pa_RequestId x \<le> lp_RequestId q"
        using p(7) x accepted(3) by (auto simp: carried_def)
      have "pa_ClientId x \<in> set cs" unfolding accepted(7) using q(1) by (rule rev_image_eqI) simp
      with foldl_merge_contains [OF q(1), of "sg_last (s_groups s g)"] q(2) accepted(6,9) show ?thesis
        using h(1) s'(5) by (force simp: recalls_def)
    qed
    moreover have "stage_ok s' m' i pc" if "stage_ok s m' i pc" for m' pc
      using that p(5) inst s' by (cases pc) (auto simp: stage_ok_def frozen_def deleted_def)
    ultimately have "groups_inv s' \<and> sys_kv s' = sys_kv s \<and> extends s s'"
      unfolding s'_def using accepted(8,10) last_grows_merge [OF accepted(9)] i
      by (intro group_step [OF inv, where i = i]) auto
    with inst show ?thesis by (simp add: stage_ok_def)
  next
    case refused
    have s': "s' = s" unfolding s'_def by (rule put_group_same [OF refused(1)])
    have "stage_ok s m i Deleting" if e: "ir_Err r \<in> {OK, ErrWrongGroup}"
    proof (cases "m = cnum s + 1")
      case True
      then have "nnum s = m" using m(1) D(3) by simp
      then show ?thesis using refused(3) e P(1) [of g] m(2) by (auto simp: stage_ok_def installed_def)
    qed (simp add: stage_ok_def)
    then show ?thesis using s' inv(2) same_core_extends [of s s] by simp
  qed
qed

lemma delete_step:
  assumes inv: "cfg_inv s" "groups_inv s" and sent: "sent_ok s (g, SDelete \<lparr>da_Shard = i, da_Num = m\<rparr>)"
    and run: "DoOp_Delete (s_groups s g) \<lparr>da_Shard = i, da_Num = m\<rparr> = Some (kv', r)"
  defines "s' \<equiv> put_group g kv' s"
  shows "groups_inv s' \<and> sys_kv s' = sys_kv s \<and> extends s s' \<and> (dr_Err r \<in> {OK, ErrWrongGroup} \<longrightarrow> stage_ok s' m i Moved)"
proof -
  have i: "shard_range i" and m: "1 \<le> m" "m \<le> nnum s" "g \<noteq> owner s i m" and st: "stage_ok s m i Deleting" using sent by auto
  note D = cfg_invD [OF inv(1)] and G = groups_invD [OF inv(2)]
  note P = placedD [OF G(2) [OF i] inv(1)] and so = G(3) [OF i, unfolded since_owner_def, rule_format]
  let ?a = "owner s i (cnum s)" and ?b = "owner s i (nnum s)"
  from G(1) i run show ?thesis
  proof (cases rule: Delete_effect)
    case accepted
    have g: "g = ?a" "?a \<noteq> ?b" "nnum s = m" using P(3) [of g] accepted(1) by auto
    then have mc: "m = cnum s + 1" using D(2,3) by (cases "nnum s = cnum s") auto
    have inst: "installed s i" using st mc by (simp add: stage_ok_def)
    have s': "cnum s' = cnum s" "next_cfg s' = next_cfg s" "owner s' = owner s" "s_done s' = s_done s"
      "s_groups s' h = (if h = g then kv' else s_groups s h)" for h by (simp_all add: s'_def)
    have inst': "installed s' i" using inst g s' by (simp add: installed_def)
    have "placed s' i" using G(2) [OF i] g accepted(3) inst unfolding placed_def Let_def s' by (auto simp: installed_def)
    moreover have "since_owner s' i" using so accepted(3) mc unfolding since_owner_def s' by auto
    moreover have h: "holder s' i = ?b" "holder s i = ?b" using inst inst' P(6) g s' by (auto simp: holder_def installed_def)
    moreover have "recalls (s_groups s ?b) i x" if "x \<in> set (s_done s)" "Key2Shard (pa_Key x) = i" for x
      using G(4) that h(2) by (auto simp: remembers_recalls)
    moreover have "deleted s' i" using inst' accepted(3) g s' by (simp add: deleted_def)
    moreover have "stage_ok s' m' i pc" if "stage_ok s m' i pc" for m' pc
      using that inst' \<open>deleted s' i\<close> s' by (cases pc) (auto simp: stage_ok_def frozen_def)
    ultimately have "groups_inv s' \<and> sys_kv s' = sys_kv s \<and> extends s s'"
      using accepted(4,6) last_grows_refl [OF accepted(5)] i g s'(5) unfolding s'_def
      by (intro group_step [OF inv, where i = i]) auto
    with \<open>deleted s' i\<close> show ?thesis by (simp add: stage_ok_def)
  next
    case refused
    have s': "s' = s" unfolding s'_def by (rule put_group_same [OF refused(1)])
    have "stage_ok s m i Moved" if e: "dr_Err r \<in> {OK, ErrWrongGroup}"
    proof (cases "m = cnum s + 1")
      case True
      then have n: "nnum s = m" using m(2) D(3) by simp
      then have "at s g i = (Absent, m)" using refused(3) e P(1) [of g] by auto
      moreover from this have "g = ?a" using P(4) [of g] True m(3) n by auto
      ultimately show ?thesis using st True n by (auto simp: stage_ok_def deleted_def)
    qed (simp add: stage_ok_def)
    then show ?thesis using s' inv(2) same_core_extends [of s s] by simp
  qed
qed

lemma exec_move_inv:
  assumes "sys_inv s" "sent_ok s (g, q)"
  shows "\<exists>s'. exec_move (g, q) s = Some s' \<and> sys_inv s' \<and> sys_kv s' = sys_kv s"
proof -
  have inv: "cfg_inv s" "groups_inv s" "ctls_inv s" using assms(1) by (simp_all add: sys_inv_def)
  note ok = groups_invD(1) [OF inv(2)]
  have go: "\<exists>s'. exec_move (g, q) s = Some s' \<and> sys_inv s' \<and> sys_kv s' = sys_kv s"
    if run: "shardgrp_DoOp (s_groups s g) q = Some (kv', rep)"
      and c: "groups_inv s1" "sys_kv s1 = sys_kv s" "extends s s1" "reply_ok s1 (g, q, rep)" and s1: "s1 = put_group g kv' s" for kv' rep s1
  proof -
    let ?s = "s1\<lparr>s_replies := s_replies s @ [(g, q, rep)]\<rparr>"
    have core: "s_store ?s = s_store s1" "s_hist ?s = s_hist s1" "s_groups ?s = s_groups s1" "s_done ?s = s_done s1" by simp_all
    note S = same_core [OF core]
    have "extends s ?s" using c(3) S by (simp add: extends_def)
    note x = extends_ctls [OF this inv(1,3)]
    have "reply_ok ?s (g, q, rep)" using c(4) extends_reply [OF same_core_extends [OF core]] by blast
    moreover have "cfg_inv s1" using inv(1) s1 by simp
    moreover have "s_ctls s1 = s_ctls s" "s_sent s1 = s_sent s" "s_puts s1 = s_puts s" "s_acks s1 = s_acks s"
      by (simp_all add: s1 put_group_def)
    ultimately have "sys_inv ?s \<and> sys_kv ?s = sys_kv s" using x S c(1,2) by (simp add: sys_inv_def ctls_inv_def)
    moreover have "exec_move (g, q) s = Some ?s" using run by (simp add: exec_move_def s1 put_group_def)
    ultimately show ?thesis by blast
  qed
  show ?thesis
  proof (cases q)
    case (SFreeze a)
    obtain i m where a: "a = \<lparr>fa_Shard = i, fa_Num = m\<rparr>" by (cases a)
    then obtain kv' r where run: "DoOp_Freeze (s_groups s g) a = Some (kv', r)" using DoOp_Freeze_ok [OF ok, of a g] assms(2) SFreeze by auto
    note F = freeze_step [OF inv(1,2) assms(2) [unfolded SFreeze a] run [unfolded a]]
    have "reply_ok (put_group g kv' s) (g, q, SFreezeRep r)"
      using F assms(2) SFreeze a by (auto elim!: mover_reply.elims split: if_splits)
    then show ?thesis using F run SFreeze by (intro go [of kv' "SFreezeRep r" "put_group g kv' s"]) auto
  next
    case (SInstall a)
    obtain i st m where a: "a = \<lparr>ia_Shard = i, ia_State = st, ia_Num = m\<rparr>" by (cases a)
    have i: "shard_range i" using assms(2) SInstall a by simp
    obtain kv' r where run: "DoOp_Install (s_groups s g) a = Some (kv', r)"
    proof (cases "local_num (s_groups s g) i < m \<and> status (s_groups s g) i = Absent")
      case True
      then have "carried s i st" using install_pending(7) [OF inv(1,2) assms(2) [unfolded SInstall a]] by blast
      then show ?thesis using DoOp_Install_ok [OF ok, of a _ g] i a that by (auto simp: carried_def)
    next
      case False
      then have "\<exists>x. DoOp_Install (s_groups s g) a = Some x"
        using sg_okD(2) [OF ok, of g] i by (auto simp: a DoOp_Install_def slice_range)
      then show ?thesis using that by auto
    qed
    note F = install_step [OF inv(1,2) assms(2) [unfolded SInstall a] run [unfolded a]]
    have "reply_ok (put_group g kv' s) (g, q, SInstallRep r)"
      using F assms(2) SInstall a by (auto elim!: mover_reply.elims split: if_splits)
    then show ?thesis using F run SInstall by (intro go [of kv' "SInstallRep r" "put_group g kv' s"]) auto
  next
    case (SDelete a)
    obtain i m where a: "a = \<lparr>da_Shard = i, da_Num = m\<rparr>" by (cases a)
    then obtain kv' r where run: "DoOp_Delete (s_groups s g) a = Some (kv', r)" using DoOp_Delete_ok [OF ok, of a g] assms(2) SDelete by auto
    note F = delete_step [OF inv(1,2) assms(2) [unfolded SDelete a] run [unfolded a]]
    have "reply_ok (put_group g kv' s) (g, q, SDeleteRep r)"
      using F assms(2) SDelete a by (auto elim!: mover_reply.elims split: if_splits)
    then show ?thesis using F run SDelete by (intro go [of kv' "SDeleteRep r" "put_group g kv' s"]) auto
  qed (use assms(2) in auto)
qed

end
