(* ===== verification/Sharded_Store.thy ===== *)
theory Sharded_Store
  imports Reconfig
begin

text \<open>
  The sharded store as a whole: every reachable state of the controllers, the config store and the
  groups satisfies the invariant of \<open>Reconfig\<close>, so that the groups together are one versioned store.
\<close>

section \<open>Requests of clients\<close>

definition put_done :: "Tgid \<Rightarrow> ShardgrpServer \<Rightarrow> PutArgs \<Rightarrow> sys \<Rightarrow> sys" where
  "put_done g kv a s = (put_group g kv s)\<lparr>s_done := s_done s @ [a]\<rparr>"

lemma spec_put_at:
  assumes "m (pa_Key a) = m' (pa_Key a)"
  shows "snd (spec_put m a) = snd (spec_put m' a)" "fst (spec_put m a) (pa_Key a) = fst (spec_put m' a) (pa_Key a)"
  using assms by (auto simp: spec_put_def split: option.splits)

text \<open>A put that a group executes, in the state of the system.\<close>

lemma put_done_cfg:
  fixes a :: PutArgs
  assumes "\<And>j. shard_of kv j = shard_of (s_groups s g) j"
  defines "s' \<equiv> put_done g kv a s"
  shows "cnum s' = cnum s" "next_cfg s' = next_cfg s" "assigned s' = assigned s" "owner s' = owner s" "cfg_inv s' = cfg_inv s"
    "placed s' = placed s" "since_owner s' = since_owner s" "holder s' = holder s"
    "installed s' = installed s" "frozen s' = frozen s" "deleted s' = deleted s"
proof -
  have g: "s_groups s' = (s_groups s)(g := kv)" by (simp add: s'_def put_done_def)
  then have at: "at s' h j = at s h j" for h j using assms(1) by simp
  then have st: "status (s_groups s' h) j = status (s_groups s h) j" "local_num (s_groups s' h) j = local_num (s_groups s h) j" for h j by auto
  have store: "s_store s' = s_store s" "s_hist s' = s_hist s" by (simp_all add: s'_def put_done_def put_group_def)
  show c: "cnum s' = cnum s" and n: "next_cfg s' = next_cfg s" using store by (simp_all add: cnum_def next_cfg_def)
  then show a: "assigned s' = assigned s" using store by (simp add: assigned_def fun_eq_iff)
  then show o: "owner s' = owner s" by (simp add: owner_def fun_eq_iff)
  show "cfg_inv s' = cfg_inv s" using c n store by (simp add: cfg_inv_def)
  show "placed s' = placed s" by (simp add: placed_def fun_eq_iff c n o at st)
  show "since_owner s' = since_owner s" by (simp add: since_owner_def fun_eq_iff c o st)
  show "holder s' = holder s" by (simp add: holder_def fun_eq_iff c n o st)
  show i: "installed s' = installed s" by (simp add: installed_def fun_eq_iff c n o at st)
  show "frozen s' = frozen s" "deleted s' = deleted s" by (simp_all add: frozen_def deleted_def fun_eq_iff i c n o at st)
qed

lemma put_last_grows:
  assumes "fresh (sg_last kv) a" "sg_last kv' = (sg_last kv)(pa_ClientId a \<mapsto> \<lparr>lp_RequestId = pa_RequestId a, lp_Reply = r\<rparr>)"
  shows "last_grows kv kv'"
  using assms by (auto simp: last_grows_def fresh_def split: option.splits)

lemma put_step:
  assumes inv: "cfg_inv s" "groups_inv s" and run: "shardgrp_DoOp_Put (s_groups s g) a = Some (kv', r)"
    and ex: "executes_put (s_groups s g) a"
  defines "s' \<equiv> put_done g kv' a s"
  shows "groups_inv s'" "extends s s'" "sys_kv s' = fst (spec_put (sys_kv s) a)" "pr_Err r = snd (spec_put (sys_kv s) a)"
proof -
  let ?i = "Key2Shard (pa_Key a)"
  have i: "shard_range ?i" by simp
  note G = groups_invD [OF inv(2)]
  note E = Put_effect [OF G(1) run]
  note C = put_done_cfg [OF E(2), where a = a, folded s'_def]
  have h: "holder s ?i = g" using placedD(2) [OF G(2) [OF i] inv(1), of g] ex by (simp add: executes_put_def)
  have g': "s_groups s' h = (if h = g then kv' else s_groups s h)" "s_done s' = s_done s @ [a]" for h by (simp_all add: s'_def put_done_def)
  have ok': "sg_ok (s_groups s' h)" for h using E(1) G(1) g'(1) by simp
  have grows: "last_grows (s_groups s h) (s_groups s' h)" for h
    using put_last_grows [OF _ E(6) [OF ex]] ex g'(1) by (auto simp: executes_put_def last_grows_refl)
  have oth: "content (s_groups s' h) j = content (s_groups s h) j" if "shard_range j" "j \<noteq> ?i" for h j
    using E(4) [OF ex that] g'(1) by simp
  have "recalls (s_groups s' (holder s (Key2Shard (pa_Key p)))) (Key2Shard (pa_Key p)) p" if p: "p \<in> set (s_done s')" for p
  proof (cases "p \<in> set (s_done s)")
    case True
    then have old: "recalls (s_groups s (holder s (Key2Shard (pa_Key p)))) (Key2Shard (pa_Key p)) p" using G(4) by (simp add: remembers_recalls)
    show ?thesis
    proof (cases "Key2Shard (pa_Key p) = ?i")
      case True
      then show ?thesis using old E(5) [OF ex] grows [of g] h g'(1) by (auto simp: recalls_def last_grows_def) (meson order_trans)
    qed (use old recalls_grows [OF old grows] oth in simp)
  next
    case False
    with p have "p = a" using g'(2) by simp
    then show ?thesis using E(5,6) [OF ex] h g'(1) by (simp add: recalls_def)
  qed
  then show "groups_inv s'" using ok' G(2,3) C by (simp add: groups_inv_def remembers_recalls)
  have "carried s' j d" if "shard_range j" "carried s j d" "frozen s j" "\<not> installed s j" for j d
  proof -
    have "j \<noteq> ?i" using that(3,4) placedD(5) [OF G(2) [OF i] inv(1)] h ex by (auto simp: frozen_def executes_put_def)
    then show ?thesis using that(1,2) oth C g'(2) by (auto simp: carried_def)
  qed
  then show "extends s s'" using C by (auto simp: extends_def stage_ok_def split: mover_pc.splits)
  have kv: "sys_kv s' k = go_lookup (fst (content (s_groups s' (holder s (Key2Shard k))) (Key2Shard k))) k"
    "sys_kv s k = go_lookup (fst (content (s_groups s (holder s (Key2Shard k))) (Key2Shard k))) k" for k
    using ok' G(1) C by (simp_all add: sys_kv_def sg_map_content)
  have "sys_kv s (pa_Key a) = go_lookup (fst (content (s_groups s g) ?i)) (pa_Key a)" using kv(2) h by simp
  note at = spec_put_at [of "sys_kv s" a "go_lookup (fst (content (s_groups s g) ?i))", OF this]
  show "sys_kv s' = fst (spec_put (sys_kv s) a)"
  proof
    fix k show "sys_kv s' k = fst (spec_put (sys_kv s) a) k"
    proof (cases "k = pa_Key a")
      case True
      then show ?thesis using at(2) E(5) [OF ex] h g'(1) kv(1) [of k] by simp
    next
      case False
      then show ?thesis using E(5) [OF ex] h g'(1) kv [of k] oth [of "Key2Shard k"]
        by (cases "Key2Shard k = ?i") (simp_all add: spec_put_other_key)
    qed
  qed
  show "pr_Err r = snd (spec_put (sys_kv s) a)" using E(7) [OF ex] at(1) by simp
qed

lemma shardgrp_Get_form:
  assumes "sg_ok kv"
  shows "shardgrp_DoOp_Get kv a = Some (if status kv (Key2Shard (ga_Key a)) = Serving then spec_get (sg_map kv) (ga_Key a)
    else \<lparr>gr_Value = '''', gr_Version = 0, gr_Err = ErrWrongGroup\<rparr>)"
  using sg_okD(1,2) [OF assms] by (simp add: shardgrp_DoOp_Get_def slice_range spec_get_def sg_map_at [OF assms] split: option.splits)

text \<open>The effect of a request on the store that the groups are together.\<close>

fun client_effect :: "sys \<Rightarrow> sys_event \<Rightarrow> kvmap" where
  "client_effect s (Client g (SPut a)) = (if executes_put (s_groups s g) a then fst (spec_put (sys_kv s) a) else sys_kv s)"
| "client_effect s e = sys_kv s"

lemma exec_client_inv:
  assumes "sys_inv s" "q = SGet b \<or> q = SPut a"
  shows "\<exists>s'. exec_client g q s = Some s' \<and> sys_inv s' \<and> sys_kv s' = client_effect s (Client g q)"
proof -
  have inv: "cfg_inv s" "groups_inv s" "ctls_inv s" using assms(1) by (simp_all add: sys_inv_def)
  note ok = groups_invD(1) [OF inv(2)]
  show ?thesis
  proof (cases "\<exists>a. q = SPut a \<and> executes_put (s_groups s g) a")
    case True
    then obtain a where q: "q = SPut a" and ex: "executes_put (s_groups s g) a" by blast
    obtain kv' r where run: "shardgrp_DoOp_Put (s_groups s g) a = Some (kv', r)" using shardgrp_Put_ok [OF ok] by blast
    let ?s = "put_done g kv' a s"
    note P = put_step [OF inv(1,2) run ex]
    note C = put_done_cfg [OF Put_effect(2) [OF ok run], where a = a]
    have "sys_inv ?s" using P(1) C(5) inv(1) extends_ctls [OF P(2) inv(1,3)]
      by (simp add: sys_inv_def ctls_inv_def) (simp add: put_done_def put_group_def)
    moreover have "exec_client g q s = Some ?s" using run ex by (simp add: exec_client_def q put_done_def put_group_def)
    ultimately show ?thesis using P(3) ex q by simp
  next
    case False
    then have "client_effect s (Client g q) = sys_kv s" using assms(2) by auto
    moreover have "\<exists>rep. shardgrp_DoOp (s_groups s g) q = Some (s_groups s g, rep)"
    proof (cases "q = SGet b")
      case False
      then obtain kv' r where "shardgrp_DoOp_Put (s_groups s g) a = Some (kv', r)" using shardgrp_Put_ok [OF ok] by blast
      then show ?thesis using Put_effect(3) [OF ok] \<open>\<nexists>a. _ a\<close> False assms(2) by auto
    qed (simp add: shardgrp_Get_form [OF ok])
    then have "exec_client g q s = Some s" using False by (auto simp: exec_client_def split: sg_req.splits)
    ultimately show ?thesis using assms(1) by simp
  qed
qed

section \<open>Every event keeps the invariant\<close>

text \<open>
  What is asked of the users: a proposed configuration assigns every shard and has the number after
  that of a configuration that has been current, and the id of a put is not used for another one.
\<close>

fun proper :: "sys_event \<Rightarrow> sys \<Rightarrow> bool" where
  "proper (Propose cfg) s \<longleftrightarrow> length (Shards cfg) = NShards \<and> list_ex (\<lambda>c. Num cfg = Num c + 1) (s_hist s) \<and> Num cfg < 2 ^ 64"
| "proper (Client g (SPut a)) s \<longleftrightarrow> list_all (\<lambda>a'. request a' = request a \<longrightarrow> a' = a) (s_done s)"
| "proper _ s \<longleftrightarrow> True"

lemma proper_wanted:
  assumes "cfg_inv s" "proper (Propose cfg) s"
  shows "wanted s cfg"
proof -
  obtain j where j: "j < length (s_hist s)" "Num cfg = Num (s_hist s ! j) + 1" using assms(2) by (auto simp: list_ex_iff in_set_conv_nth)
  moreover have "Num (s_hist s ! j) = int j + 1" using assms(1) j(1) by (simp add: cfg_inv_def)
  ultimately show ?thesis using assms(2) by (simp add: wanted_def cnum_def)
qed

text \<open>An event that only adds controllers and requests.\<close>

lemma add_inv:
  assumes "sys_inv s" "list_all (ctl_ok s) cs" "list_all (sent_ok s) ms" "list_all (put_ok s) ps"
  defines "s' \<equiv> s\<lparr>s_ctls := s_ctls s @ cs, s_sent := s_sent s @ ms, s_puts := s_puts s @ ps\<rparr>"
  shows "sys_inv s' \<and> sys_kv s' = sys_kv s"
proof -
  have core: "s_store s' = s_store s" "s_hist s' = s_hist s" "s_groups s' = s_groups s" "s_done s' = s_done s" by (simp_all add: s'_def)
  note S = same_core [OF core] and e = same_core_extends [OF core]
  have inv: "cfg_inv s" "groups_inv s" "ctls_inv s" using assms(1) by (simp_all add: sys_inv_def)
  have "list_all (ctl_ok s') cs" "list_all (sent_ok s') ms" "list_all (put_ok s') ps"
    using assms(2-4) extends_ctl [OF e inv(1)] extends_sent [OF e] extends_put [OF e inv(1)] by (auto simp: list_all_iff)
  then show ?thesis using S inv extends_ctls [OF e inv(1,3)] by (simp add: sys_inv_def ctls_inv_def) (simp add: s'_def)
qed

lemmas add_ctl = add_inv [where ms = "[]" and ps = "[]", simplified]
lemmas add_sent = add_inv [where cs = "[]" and ps = "[]", simplified]
lemmas add_put = add_inv [where cs = "[]" and ms = "[]", simplified]

lemma set_ctl_keeps: "sys_kv (set_ctl c x s) = sys_kv s"
  by (rule same_core) (simp_all add: set_ctl_def)

lemma ctls_invD:
  assumes "sys_inv s"
  shows "c < length (s_ctls s) \<Longrightarrow> ctl_ok s (s_ctls s ! c)" "j < length (s_sent s) \<Longrightarrow> sent_ok s (s_sent s ! j)"
    "j < length (s_replies s) \<Longrightarrow> reply_ok s (s_replies s ! j)" "j < length (s_puts s) \<Longrightarrow> put_ok s (s_puts s ! j)"
    "j < length (s_acks s) \<Longrightarrow> ack_ok s (s_acks s ! j)"
  using assms by (auto simp: sys_inv_def ctls_inv_def list_all_length)

lemma move_event_inv:
  assumes "sys_inv s" "c < length (s_ctls s)" "s_ctls s ! c = Moving old ver new mvs" "k < length mvs"
  shows "mover_req new (mvs ! k) = Some m \<Longrightarrow> sent_ok s m"
    "j < length (s_replies s) \<Longrightarrow> answers_req (mover_req new (mvs ! k)) (s_replies s ! j) \<Longrightarrow>
     mover_reply (snd (snd (s_replies s ! j))) (mv_pc (mvs ! k)) = Some pc \<Longrightarrow>
     sys_inv (set_ctl c (Moving old ver new (mvs[k := (mvs ! k)\<lparr>mv_pc := pc\<rparr>])) s)"
    "sys_inv (set_ctl c (Moving old ver new (mvs[k := (mvs ! k)\<lparr>mv_pc := mover_exhausted cur new (mv_pc (mvs ! k))\<rparr>])) s)"
proof -
  have ok: "ctl_ok s (Moving old ver new mvs)" using ctls_invD(1) [OF assms(1,2)] assms(3) by simp
  then show "sent_ok s m" if "mover_req new (mvs ! k) = Some m"
    using that assms(4) by (intro mover_req_ok [of s new "mvs ! k"]) auto
  show "sys_inv (set_ctl c (Moving old ver new (mvs[k := (mvs ! k)\<lparr>mv_pc := pc\<rparr>])) s)"
    if "j < length (s_replies s)" "answers_req (mover_req new (mvs ! k)) (s_replies s ! j)"
      "mover_reply (snd (snd (s_replies s ! j))) (mv_pc (mvs ! k)) = Some pc"
    using set_ctl_inv [OF assms(1) Moving_returns [OF ok assms(4) that(2) ctls_invD(3) [OF assms(1) that(1)] that(3)]] .
  show "sys_inv (set_ctl c (Moving old ver new (mvs[k := (mvs ! k)\<lparr>mv_pc := mover_exhausted cur new (mv_pc (mvs ! k))\<rparr>])) s)"
    by (rule set_ctl_inv [OF assms(1) Moving_exhausted [OF ok assms(4)]])
qed

lemma sys_exec_inv:
  assumes "sys_inv s" "proper e s"
  shows "\<exists>s'. sys_exec e s = Some s' \<and> sys_inv s' \<and> sys_kv s' = client_effect s e"
proof -
  have inv: "cfg_inv s" "groups_inv s" "ctls_inv s" using assms(1) by (simp_all add: sys_inv_def)
  note D = ctls_invD [OF assms(1)] and fatal = set_ctl_inv [OF assms(1), of Fatal, simplified]
  show ?thesis
  proof (cases e)
    case (Propose cfg)
    then show ?thesis using add_ctl [OF assms(1), of "[ReadCur cfg]"] proper_wanted [OF inv(1)] assms(2) by simp
  next
    case Recover
    then show ?thesis using add_ctl [OF assms(1), of "[InitCur]"] by simp
  next
    case (ReadStore c)
    then show ?thesis using set_ctl_inv [OF assms(1) ctl_read_ok [OF inv(1) D(1)]] assms(1) by (simp add: set_ctl_keeps)
  next
    case (SendPut c)
    have "put_ok s p" if "c < length (s_ctls s)" "ctl_put (s_ctls s ! c) = Some p" for p using ctl_put_ok [OF D(1)] that by blast
    then show ?thesis using SendPut add_put [OF assms(1)] assms(1) by (auto split: option.splits)
  next
    case (ExecPut j)
    then show ?thesis using exec_put_inv [OF assms(1) D(4)] assms(1) by simp
  next
    case (PutReturns c j retried)
    let ?e = "if retried then ErrMaybe else snd (s_acks s ! j)"
    have "sys_inv (set_ctl c (ctl_put_returns ?e (s_ctls s ! c)) s)"
      if "c < length (s_ctls s)" "j < length (s_acks s)" "ctl_put (s_ctls s ! c) = Some (fst (s_acks s ! j))"
      by (rule set_ctl_inv [OF assms(1) ctl_put_returns_ok [OF inv(1) D(1) [OF that(1)] that(3), of "snd (s_acks s ! j)"]])
        (use D(5) [OF that(2)] in simp_all)
    then show ?thesis using PutReturns assms(1) by (auto simp: set_ctl_keeps)
  next
    case (SendMove c k)
    then show ?thesis using move_event_inv(1) [OF assms(1), of c _ _ _ _ k] add_sent [OF assms(1)] assms(1)
      by (auto split: ctl.splits option.splits simp del: mover_req.simps)
  next
    case (ExecMove j)
    then show ?thesis using exec_move_inv [OF assms(1), of "fst (s_sent s ! j)" "snd (s_sent s ! j)"] D(2) assms(1) by simp
  next
    case (MoveReturns c k j)
    then show ?thesis using move_event_inv(2) [OF assms(1), of c _ _ _ _ k j] fatal assms(1)
      by (auto simp: set_ctl_keeps simp del: mover_req.simps split: ctl.splits option.splits)
  next
    case (MoveExhausted c k)
    then show ?thesis using move_event_inv(3) [OF assms(1), of c _ _ _ _ k] fatal assms(1)
      by (auto simp: set_ctl_keeps split: ctl.splits option.splits)
  next
    case (Wait c)
    have "sys_inv (set_ctl c (migrate_wait ver new mvs) s)"
      if "c < length (s_ctls s)" "s_ctls s ! c = Moving old ver new mvs" "list_all mover_ended mvs" for old ver new mvs
      using set_ctl_inv [OF assms(1) migrate_wait_ok [of s old ver new mvs]] D(1) [of c] that by simp
    then show ?thesis using Wait assms(1) by (auto simp: set_ctl_keeps split: ctl.splits)
  next
    case (Client g q)
    then show ?thesis using exec_client_inv [OF assms(1), of q _ _ g] assms(1) by (cases q) auto
  qed
qed

section \<open>Reachable states\<close>

lemma map_of_upto: "0 \<le> i \<Longrightarrow> i < int n \<Longrightarrow> map_of (map (\<lambda>k. (int k, c)) [0..<n]) i = Some c"
  by (induction n) (auto simp: map_add_def dest: map_of_SomeD split: option.splits)

lemma shard_of_init: "shard_range i \<Longrightarrow> shard_of (shardgrp_init g me) i = (if g = Gid1 then (Serving, 1) else (Absent, 0))"
  using nat_shard_less [of i] by (auto simp: shardgrp_init_def local_num_def shard_range_def map_of_upto)

lemma sys_init_inv: "sys_inv (sys_init gs)" "sys_kv (sys_init gs) = Map.empty"
proof -
  let ?s = "sys_init gs"
  have s: "s_groups ?s = (\<lambda>g. shardgrp_init g 0)" "cnum ?s = 1" "next_cfg ?s = first_cfg gs" "s_done ?s = []"
    by (simp_all add: sys_init_def cnum_def next_cfg_def InitConfig_def store_Put_def)
  have cfg: "cfg_inv ?s" using s by (simp add: cfg_inv_def) (simp add: sys_init_def first_cfg_def InitConfig_def store_Put_def)
  have o: "owner ?s i m = Gid1" if "shard_range i" "m = 1" for i m
    using that nat_shard_less [OF that(1)] by (simp add: owner_def assigned_def s) (simp add: sys_init_def first_cfg_def)
  have n: "nnum ?s = 1" using s by (simp add: first_cfg_def)
  have "placed ?s i \<and> since_owner ?s i" if i: "shard_range i" for i
  proof -
    have st: "status (s_groups ?s g) i = (if g = Gid1 then Serving else Absent)" "local_num (s_groups ?s g) i = (if g = Gid1 then 1 else 0)" for g
      using shard_of_init [OF i, of g 0] s by (auto split: if_splits)
    show ?thesis using st o [OF i] n s(2) by (auto simp: placed_def since_owner_def)
  qed
  then show "sys_inv ?s" using cfg s sg_ok_init
    by (simp add: sys_inv_def groups_inv_def remembers_def) (simp add: sys_init_def ctls_inv_def)
  show "sys_kv ?s = Map.empty" using nat_shard_less [OF shard_range_Key2Shard]
    by (simp add: fun_eq_iff sys_kv_def sg_map_at sg_ok_init s(1)) (simp add: shardgrp_init_def)
qed

inductive sys_reachable :: "(Tgid \<times> string list) list \<Rightarrow> sys \<Rightarrow> bool" for gs where
  init: "sys_reachable gs (sys_init gs)"
| step: "sys_reachable gs s \<Longrightarrow> proper e s \<Longrightarrow> sys_exec e s = Some s' \<Longrightarrow> sys_reachable gs s'"

lemma sys_reachable_inv: "sys_reachable gs s \<Longrightarrow> sys_inv s"
proof (induction rule: sys_reachable.induct)
  case (step s e s')
  then show ?case using sys_exec_inv [of s e] by auto
qed (rule sys_init_inv)

text \<open>A schedule of proper events leads to a reachable state.\<close>

fun proper_run :: "sys_event list \<Rightarrow> sys \<Rightarrow> bool" where
  "proper_run [] s \<longleftrightarrow> True"
| "proper_run (e # es) s \<longleftrightarrow> proper e s \<and> (case sys_exec e s of None \<Rightarrow> True | Some s' \<Rightarrow> proper_run es s')"

lemma sys_reachable_run: "sys_reachable gs s \<Longrightarrow> proper_run es s \<Longrightarrow> sys_run es s = Some s' \<Longrightarrow> sys_reachable gs s'"
  by (induction es arbitrary: s) (auto simp: bind_eq_Some_conv dest: sys_reachable.step)

text \<open>The puts executed, each once, account for what the groups hold.\<close>

lemma done_step:
  assumes "sys_exec e s = Some s'"
  shows "s_done s' = (case e of Client g q \<Rightarrow> (case q of SPut a \<Rightarrow> if executes_put (s_groups s g) a then s_done s @ [a] else s_done s | _ \<Rightarrow> s_done s)
    | _ \<Rightarrow> s_done s)"
  using assms
  by (cases e) (auto simp: set_ctl_def exec_put_def exec_move_def exec_client_def bind_eq_Some_conv
    split: ctl.splits option.splits prod.splits if_splits sg_req.splits)

lemma executes_new:
  assumes "sys_inv s" "proper (Client g (SPut a)) s" "executes_put (s_groups s g) a"
  shows "request a \<notin> request ` set (s_done s)"
proof
  assume "request a \<in> request ` set (s_done s)"
  then have "a \<in> set (s_done s)" using assms(2) by (auto simp: list_all_iff)
  moreover have inv: "cfg_inv s" "groups_inv s" using assms(1) by (simp_all add: sys_inv_def)
  have "holder s (Key2Shard (pa_Key a)) = g"
    using placedD(2) [OF groups_invD(2) [OF inv(2) shard_range_Key2Shard, of "pa_Key a"] inv(1), of g] assms(3) by (simp add: executes_put_def)
  ultimately have "recalls (s_groups s g) (Key2Shard (pa_Key a)) a"
    using groups_invD(4) [OF inv(2)] by (auto simp: remembers_recalls)
  then show False using assms(3) by (auto simp: recalls_def executes_put_def fresh_def)
qed

lemma sys_reachable_done:
  "sys_reachable gs s \<Longrightarrow> distinct (map request (s_done s)) \<and> sys_kv s = fst (spec_puts Map.empty (s_done s))"
proof (induction rule: sys_reachable.induct)
  case init
  then show ?case using sys_init_inv(2) [of gs] by (simp add: sys_init_def)
next
  case (step s e s')
  note inv = sys_reachable_inv [OF step(1)]
  have kv: "sys_kv s' = client_effect s e" using sys_exec_inv [OF inv step(2)] step(3) by auto
  show ?case
  proof (cases "\<exists>g a. e = Client g (SPut a) \<and> executes_put (s_groups s g) a")
    case True
    then obtain g a where e: "e = Client g (SPut a)" "executes_put (s_groups s g) a" by blast
    then show ?thesis using step.IH kv executes_new [OF inv] step(2) done_step [OF step(3)]
      by (auto simp: spec_puts_append case_prod_beta Let_def)
  next
    case False
    then have "s_done s' = s_done s" "sys_kv s' = sys_kv s"
      using done_step [OF step(3)] kv by (auto split: sys_event.splits sg_req.splits if_splits)
    then show ?thesis using step.IH by simp
  qed
qed

lemma sys_reachable_one_holder:
  assumes "sys_reachable gs s" "shard_range i"
  shows "status (s_groups s (holder s i)) i \<noteq> Absent" "{g. status (s_groups s g) i = Serving} \<subseteq> {holder s i}"
proof -
  have inv: "cfg_inv s" "groups_inv s" using sys_reachable_inv [OF assms(1)] by (simp_all add: sys_inv_def)
  note P = groups_invD(2) [OF inv(2) assms(2)]
  show "{g. status (s_groups s g) i = Serving} \<subseteq> {holder s i}" using placedD(2) [OF P inv(1)] by auto
  show "status (s_groups s (holder s i)) i \<noteq> Absent" using P unfolding placed_def Let_def holder_def by (auto split: if_splits)
qed

section \<open>A reconfiguration\<close>

text \<open>
  A client writes a key to group 1; a controller moves its shard, shard 6, to group 2. A second
  controller, started while the next configuration is saved, repeats the move.
\<close>

definition two_groups :: "(Tgid \<times> string list) list" where
  "two_groups = [(1, [''a'']), (2, [''b''])]"

definition second_cfg :: ShardConfig where
  "second_cfg = \<lparr>Num = 2, Shards = (replicate 12 1)[6 := 2], Groups = two_groups\<rparr>"

definition sample_put :: "u64 \<Rightarrow> Tversion \<Rightarrow> PutArgs" where
  "sample_put r v = \<lparr>pa_ClientId = 7, pa_RequestId = r, pa_Key = ''k'', pa_Value = ''v'', pa_Version = v\<rparr>"

definition stage_events :: "nat \<Rightarrow> nat \<Rightarrow> nat \<Rightarrow> sys_event list" where
  "stage_events c m r = [SendMove c 0, ExecMove m, MoveReturns c 0 r]"

definition move_schedule :: "sys_event list" where
  "move_schedule = [Client 1 (SPut (sample_put 1 0)), Propose second_cfg, ReadStore 0, ReadStore 0, SendPut 0, ExecPut 0, PutReturns 0 0 False,
     Recover, ReadStore 1, ReadStore 1] @ stage_events 0 0 0 @ stage_events 1 1 1 @ stage_events 0 2 2 @ stage_events 1 3 3 @
     [Client 2 (SPut (sample_put 2 1)), Client 2 (SPut (sample_put 1 0))] @ stage_events 0 4 4 @ stage_events 1 5 5 @
     [Wait 0, Wait 1, SendPut 0, ExecPut 1, SendPut 1, ExecPut 2, PutReturns 0 1 False, PutReturns 1 2 True]"

lemma move_schedule_runs:
  "case sys_run move_schedule (sys_init two_groups) of None \<Rightarrow> False | Some s \<Rightarrow>
     proper_run move_schedule (sys_init two_groups) \<and> status (s_groups s 2) 6 = Serving \<and> status (s_groups s 1) 6 = Absent \<and>
     map pa_RequestId (s_done s) = [1, 2] \<and> map_option Num (Query (s_store s)) = Some 2"
  by code_simp

lemma sys_reachable_schedule:
  assumes "case sys_run es (sys_init gs) of None \<Rightarrow> False | Some s \<Rightarrow> proper_run es (sys_init gs) \<and> P s"
  obtains s where "sys_run es (sys_init gs) = Some s" "sys_reachable gs s" "P s"
proof -
  obtain s where s: "sys_run es (sys_init gs) = Some s" "proper_run es (sys_init gs)" "P s"
    using assms by (auto split: option.splits)
  then show thesis using that sys_reachable_run [OF sys_reachable.init s(2,1)] by blast
qed

lemma moved_state:
  obtains s where "sys_run move_schedule (sys_init two_groups) = Some s" "sys_reachable two_groups s" "status (s_groups s 2) 6 = Serving"
    "map pa_RequestId (s_done s) = [1, 2]"
  by (rule sys_reachable_schedule [OF move_schedule_runs]) (elim conjE, rule that)

text \<open>
  A controller that is restarted during a change, reads the current configuration, and reads the
  next one only after the change is over and another one has begun.
\<close>

definition third_cfg :: ShardConfig where
  "third_cfg = \<lparr>Num = 3, Shards = (replicate 12 1)[5 := 2, 6 := 2], Groups = two_groups\<rparr>"

definition race_schedule :: "sys_event list" where
  "race_schedule = [Recover, ReadStore 0, Propose second_cfg, ReadStore 1, ReadStore 1, SendPut 1, ExecPut 0, PutReturns 1 0 False] @
     stage_events 1 0 0 @ stage_events 1 1 1 @ stage_events 1 2 2 @ [Wait 1, SendPut 1, ExecPut 1, PutReturns 1 1 False,
     Propose third_cfg, ReadStore 2, ReadStore 2, SendPut 2, ExecPut 2, ReadStore 0, SendMove 0 1, ExecMove 3, MoveReturns 0 1 3]"

lemma race_schedule_runs:
  "case sys_run race_schedule (sys_init two_groups) of None \<Rightarrow> False | Some s \<Rightarrow>
     proper_run race_schedule (sys_init two_groups) \<and> (0 < length (s_ctls s) \<and> (case s_ctls s ! 0 of Fatal \<Rightarrow> True | _ \<Rightarrow> False))"
  by code_simp

section \<open>Properties\<close>

text \<open>C6. However controllers run, crash and are restarted, at most one group serves a shard, and
  the shard is never lost: the group that serves it, or else one group, still has it.\<close>

theorem one_group_serves:
  assumes "sys_reachable gs s" "shard_range i"
  shows "\<exists>g. status (s_groups s g) i \<noteq> Absent \<and> {h. status (s_groups s h) i = Serving} \<subseteq> {g}"
  using sys_reachable_one_holder [OF assms] by blast

theorem one_group_serves_witness:
  "\<exists>s g. sys_run move_schedule (sys_init two_groups) = Some s \<and> 2 \<in> {h. status (s_groups s h) 6 = Serving} \<and>
     status (s_groups s g) 6 \<noteq> Absent \<and> {h. status (s_groups s h) 6 = Serving} \<subseteq> {g}"
proof -
  obtain s where s: "sys_run move_schedule (sys_init two_groups) = Some s" "sys_reachable two_groups s" "status (s_groups s 2) 6 = Serving"
    "map pa_RequestId (s_done s) = [1, 2]" by (rule moved_state)
  have "shard_range 6" by (simp add: shard_range_def)
  from one_group_serves [OF s(2) this] obtain g where "status (s_groups s g) 6 \<noteq> Absent" "{h. status (s_groups s h) 6 = Serving} \<subseteq> {g}" by (elim exE conjE)
  with s(1,3) show ?thesis by (intro exI conjI CollectI)
qed

text \<open>C7. In every reachable state each event can be executed, no group crashes, and the store that
  the groups are together changes as the versioned store does on the put that a group executes, and
  not at all on any other event: sends, deliveries, answers, moves of shards, controllers.\<close>

theorem sharded_store_refines:
  assumes "sys_reachable gs s" "proper e s"
  shows "\<exists>s'. sys_exec e s = Some s' \<and> sys_kv s' = client_effect s e"
  using sys_exec_inv [OF sys_reachable_inv [OF assms(1)] assms(2)] by blast

theorem sharded_store_refines_witness:
  "\<exists>s s'. sys_run move_schedule (sys_init two_groups) = Some s \<and>
     sys_exec (Client 2 (SPut (sample_put 3 2))) s = Some s' \<and> sys_kv s' = client_effect s (Client 2 (SPut (sample_put 3 2)))"
proof -
  obtain s where s: "sys_run move_schedule (sys_init two_groups) = Some s" "sys_reachable two_groups s" "status (s_groups s 2) 6 = Serving"
    "map pa_RequestId (s_done s) = [1, 2]" by (rule moved_state)
  have "pa_RequestId a' \<noteq> 3" if "a' \<in> set (s_done s)" for a'
  proof -
    have "pa_RequestId a' \<in> set (map pa_RequestId (s_done s))" using that by simp
    then show ?thesis unfolding s(4) by auto
  qed
  then have "proper (Client 2 (SPut (sample_put 3 2))) s" by (simp add: list_all_iff sample_put_def)
  from sharded_store_refines [OF s(2) this] obtain s' where
    "sys_exec (Client 2 (SPut (sample_put 3 2))) s = Some s'" "sys_kv s' = client_effect s (Client 2 (SPut (sample_put 3 2)))" by (elim exE conjE)
  with s(1) show ?thesis by (intro exI conjI)
qed

text \<open>C3. Over any number of reconfigurations every put is executed once at most, and the store that
  the groups are together is what the versioned store is after the executed puts.\<close>

theorem sharded_exactly_once:
  assumes "sys_reachable gs s"
  shows "distinct (map request (s_done s)) \<and> sys_kv s = fst (spec_puts Map.empty (s_done s))"
  by (rule sys_reachable_done [OF assms])

theorem sharded_exactly_once_witness:
  "\<exists>s. sys_run move_schedule (sys_init two_groups) = Some s \<and> map pa_RequestId (s_done s) = [1, 2] \<and>
     distinct (map request (s_done s)) \<and> sys_kv s = fst (spec_puts Map.empty (s_done s))"
proof -
  obtain s where s: "sys_run move_schedule (sys_init two_groups) = Some s" "sys_reachable two_groups s" "status (s_groups s 2) 6 = Serving"
    "map pa_RequestId (s_done s) = [1, 2]" by (rule moved_state)
  show ?thesis using s(1,4) sharded_exactly_once [OF s(2)] by (intro exI conjI) (elim conjE, assumption)+
qed

text \<open>A group answers Get from the store that the groups are together or says that it does not
  serve the shard, and the answer of a put that it executes is that of the versioned store.\<close>

lemma client_answers:
  assumes "sys_reachable gs s"
  shows "shardgrp_DoOp_Get (s_groups s g) b = Some (if status (s_groups s g) (Key2Shard (ga_Key b)) = Serving
      then spec_get (sys_kv s) (ga_Key b) else \<lparr>gr_Value = '''', gr_Version = 0, gr_Err = ErrWrongGroup\<rparr>) \<and>
    (executes_put (s_groups s g) a \<longrightarrow>
      map_option (\<lambda>(_, r). pr_Err r) (shardgrp_DoOp_Put (s_groups s g) a) = Some (snd (spec_put (sys_kv s) a)))"
proof -
  have inv: "cfg_inv s" "groups_inv s" using sys_reachable_inv [OF assms] by (simp_all add: sys_inv_def)
  note ok = groups_invD(1) [OF inv(2)]
  let ?i = "Key2Shard (ga_Key b)"
  have "spec_get (sg_map (s_groups s g)) (ga_Key b) = spec_get (sys_kv s) (ga_Key b)" if "status (s_groups s g) ?i = Serving"
    using placedD(2) [OF groups_invD(2) [OF inv(2) shard_range_Key2Shard] inv(1) that] by (simp add: spec_get_def sys_kv_def)
  moreover obtain kv' r where run: "shardgrp_DoOp_Put (s_groups s g) a = Some (kv', r)" using shardgrp_Put_ok [OF ok] by blast
  ultimately show ?thesis using put_step(4) [OF inv run] by (simp add: shardgrp_Get_form [OF ok])
qed

text \<open>C21. A controller that is restarted can panic: \<open>InitController\<close> reads the current and the next
  configuration one after the other and may combine two that do not follow each other.\<close>

theorem InitController_race: "\<exists>s. sys_reachable two_groups s \<and> s_ctls s \<noteq> [] \<and> s_ctls s ! 0 = Fatal"
proof -
  obtain s where s: "sys_reachable two_groups s" "0 < length (s_ctls s) \<and> (case s_ctls s ! 0 of Fatal \<Rightarrow> True | _ \<Rightarrow> False)"
    using sys_reachable_schedule [OF race_schedule_runs] by blast
  then show ?thesis by (auto split: ctl.splits)
qed

end
