(* ===== verification/Put_Records.thy ===== *)
theory Put_Records
  imports Sharded_Store
begin

text \<open>
  The last puts that the groups remember, and that travel with the shards they move, are puts that
  have been executed, with the answers they got.
\<close>

section \<open>Answers\<close>

text \<open>The answer of a put that has been executed: that of the versioned store when its turn came.\<close>

definition answer_of :: "PutArgs list \<Rightarrow> PutArgs \<Rightarrow> Err" where
  "answer_of as a = snd (spec_put (fst (spec_puts Map.empty (takeWhile (\<lambda>b. b \<noteq> a) as))) a)"

lemma answer_of_append: "a \<in> set as \<Longrightarrow> answer_of (as @ bs) a = answer_of as a"
  by (simp add: answer_of_def)

lemma answer_of_new:
  assumes "a \<notin> set as"
  shows "answer_of (as @ [a]) a = snd (spec_put (fst (spec_puts Map.empty as)) a)"
proof -
  have "takeWhile (\<lambda>b. b \<noteq> a) as = as" using assms by (auto simp: takeWhile_eq_all_conv)
  then show ?thesis by (simp add: answer_of_def takeWhile_append2)
qed

definition record_ok :: "PutArgs list \<Rightarrow> u64 \<Rightarrow> LastPut \<Rightarrow> bool" where
  "record_ok as c p \<longleftrightarrow> (\<exists>a \<in> set as. request a = (c, lp_RequestId p) \<and> pr_Err (lp_Reply p) = answer_of as a)"

lemma record_ok_append: "record_ok as c p \<Longrightarrow> record_ok (as @ bs) c p"
  by (auto simp: record_ok_def answer_of_append)

definition group_records :: "PutArgs list \<Rightarrow> ShardgrpServer \<Rightarrow> bool" where
  "group_records as kv \<longleftrightarrow> (\<forall>c p. sg_last kv c = Some p \<longrightarrow> record_ok as c p)"

definition state_records :: "PutArgs list \<Rightarrow> ShardState option \<Rightarrow> bool" where
  "state_records as d \<longleftrightarrow> (\<forall>st c p. d = Some st \<longrightarrow> (c, p) \<in> set (ss_LastPutByClientId st) \<longrightarrow> record_ok as c p)"

fun pc_records :: "PutArgs list \<Rightarrow> mover_pc \<Rightarrow> bool" where
  "pc_records as (Installing d) \<longleftrightarrow> state_records as d"
| "pc_records as _ \<longleftrightarrow> True"

fun req_records :: "PutArgs list \<Rightarrow> sg_req \<Rightarrow> bool" where
  "req_records as (SInstall a) \<longleftrightarrow> state_records as (ia_State a)"
| "req_records as _ \<longleftrightarrow> True"

fun rep_records :: "PutArgs list \<Rightarrow> sg_rep \<Rightarrow> bool" where
  "rep_records as (SFreezeRep r) \<longleftrightarrow> state_records as (fr_State r)"
| "rep_records as _ \<longleftrightarrow> True"

fun ctl_records :: "PutArgs list \<Rightarrow> ctl \<Rightarrow> bool" where
  "ctl_records as (Moving old ver new mvs) \<longleftrightarrow> list_all (\<lambda>mv. pc_records as (mv_pc mv)) mvs"
| "ctl_records as _ \<longleftrightarrow> True"

definition records_inv :: "sys \<Rightarrow> bool" where
  "records_inv s \<longleftrightarrow> (\<forall>g. group_records (s_done s) (s_groups s g)) \<and> list_all (ctl_records (s_done s)) (s_ctls s) \<and>
     list_all (\<lambda>m. req_records (s_done s) (snd m)) (s_sent s) \<and> list_all (\<lambda>r. rep_records (s_done s) (snd (snd r))) (s_replies s)"

text \<open>Executing one more put keeps all records.\<close>

lemma records_append:
  "group_records as kv \<Longrightarrow> group_records (as @ bs) kv" "state_records as d \<Longrightarrow> state_records (as @ bs) d"
  "pc_records as pc \<Longrightarrow> pc_records (as @ bs) pc" "req_records as q \<Longrightarrow> req_records (as @ bs) q"
  "rep_records as r \<Longrightarrow> rep_records (as @ bs) r" "ctl_records as c \<Longrightarrow> ctl_records (as @ bs) c"
proof -
  show st: "state_records as d \<Longrightarrow> state_records (as @ bs) d" for d unfolding state_records_def using record_ok_append by blast
  show "group_records as kv \<Longrightarrow> group_records (as @ bs) kv" unfolding group_records_def using record_ok_append by blast
  show pc: "pc_records as pc \<Longrightarrow> pc_records (as @ bs) pc" for pc by (cases pc) (simp_all add: st)
  show "req_records as q \<Longrightarrow> req_records (as @ bs) q" by (cases q) (simp_all add: st)
  show "rep_records as r \<Longrightarrow> rep_records (as @ bs) r" by (cases r) (simp_all add: st)
  show "ctl_records as c \<Longrightarrow> ctl_records (as @ bs) c" by (cases c) (auto simp: pc list_all_iff)
qed

section \<open>Every event keeps the records\<close>

lemma those_from: "those (map f cs) = Some ys \<Longrightarrow> y \<in> set ys \<Longrightarrow> \<exists>c \<in> set cs. f c = Some y"
  by (induction cs arbitrary: ys) (auto split: option.splits)

lemma marshall_from: "marshallShardState kv i = Some st \<Longrightarrow> (c, p) \<in> set (ss_LastPutByClientId st) \<Longrightarrow> sg_last kv c = Some p"
  by (auto simp: marshallShardState_def bind_eq_Some_conv sg_last_def dest!: those_from)

lemma Freeze_state:
  assumes "DoOp_Freeze kv a = Some (kv', r)" "fr_State r = Some st"
  shows "marshallShardState kv (fa_Shard a) = Some st \<or> marshallShardState kv' (fa_Shard a) = Some st"
  using assms by (auto simp: DoOp_Freeze_def bind_eq_Some_conv split: if_splits)

lemma Freeze_records:
  assumes "DoOp_Freeze kv a = Some (kv', r)" "group_records as kv"
  shows "state_records as (fr_State r)"
  unfolding state_records_def
proof (intro allI impI)
  fix st c p assume st: "fr_State r = Some st" "(c, p) \<in> set (ss_LastPutByClientId st)"
  have "sg_last kv c = Some p"
    using Freeze_state [OF assms(1) st(1)] marshall_from [of kv _ st c p] marshall_from [of kv' _ st c p] st(2) last_Freeze [OF assms(1)] by auto
  then show "record_ok as c p" using assms(2) by (simp add: group_records_def)
qed

lemma exec_move_records:
  assumes "records_inv s" "req_records (s_done s) q" "shardgrp_DoOp (s_groups s g) q = Some (kv', rep)"
    and "\<nexists>a. q = SPut a"
  shows "group_records (s_done s) kv' \<and> rep_records (s_done s) rep"
proof -
  have G: "group_records (s_done s) (s_groups s g)" using assms(1) by (simp add: records_inv_def)
  show ?thesis
  proof (cases q)
    case (SFreeze a)
    then obtain r where r: "DoOp_Freeze (s_groups s g) a = Some (kv', r)" "rep = SFreezeRep r" using assms(3) by auto
    then show ?thesis using G Freeze_records [OF r(1) G] last_Freeze [OF r(1)] by (simp add: group_records_def)
  next
    case (SInstall a)
    then obtain r where r: "DoOp_Install (s_groups s g) a = Some (kv', r)" "rep = SInstallRep r" using assms(3) by auto
    have "record_ok (s_done s) c p" if "sg_last kv' c = Some p" for c p
      using last_Install [OF r(1) that] G assms(2) SInstall by (auto simp: group_records_def state_records_def)
    then show ?thesis using r(2) by (simp add: group_records_def)
  next
    case (SDelete a)
    then obtain r where r: "DoOp_Delete (s_groups s g) a = Some (kv', r)" "rep = SDeleteRep r" using assms(3) by auto
    then show ?thesis using G last_Delete [OF r(1)] by (simp add: group_records_def)
  qed (use assms(3,4) G in \<open>auto simp: bind_eq_Some_conv\<close>)
qed

lemma records_update:
  assumes "records_inv s" "ctl_records (s_done s) x"
  shows "records_inv (set_ctl c x s)"
  using assms set_update_subset_insert [of "s_ctls s" c x] by (auto simp: records_inv_def set_ctl_def list_all_iff)

lemma ctl_read_records: "ctl_records as c \<Longrightarrow> ctl_records as (ctl_read st c)"
  by (cases c) (auto simp: ChangeConfigTo_def saveNextConfig_def saveNextConfig_check_def InitController_def InitController_next_def
    migrateShards_def start_movers_def list_all_iff split: option.splits)

lemma ctl_put_returns_records: "ctl_records as c \<Longrightarrow> ctl_records as (ctl_put_returns e c)"
  by (cases c) (auto simp: saveNextConfig_err_def migrateShards_def start_movers_def list_all_iff split: Err.splits)

lemma mover_update_records:
  assumes "ctl_records as (Moving old ver new mvs)" "pc_records as pc"
  shows "ctl_records as (Moving old ver new (mvs[k := (mvs ! k)\<lparr>mv_pc := pc\<rparr>]))"
  using assms set_update_subset_insert [of mvs k "(mvs ! k)\<lparr>mv_pc := pc\<rparr>"] by (auto simp: list_all_iff)

lemma mover_reply_records: "rep_records as r \<Longrightarrow> mover_reply r pc = Some pc' \<Longrightarrow> pc_records as pc'"
  by (cases "(r, pc)" rule: mover_reply.cases) (auto split: if_splits)

lemma mover_req_records: "pc_records as (mv_pc mv) \<Longrightarrow> mover_req new mv = Some m \<Longrightarrow> req_records as (snd m)"
  by (auto split: mover_pc.splits)

lemma put_records:
  assumes "sys_reachable gs s" "proper (Client g (SPut a)) s" "exec_client g (SPut a) s = Some s'" "records_inv s"
  shows "records_inv s'"
proof -
  have inv: "cfg_inv s" "groups_inv s" using sys_reachable_inv [OF assms(1)] by (simp_all add: sys_inv_def)
  note ok = groups_invD(1) [OF inv(2), of g]
  obtain kv' r where run: "shardgrp_DoOp_Put (s_groups s g) a = Some (kv', r)" using shardgrp_Put_ok [OF ok] by blast
  note E = Put_effect [OF ok run] and s' = assms(3) [unfolded exec_client_def, simplified, unfolded run, simplified]
  show ?thesis
  proof (cases "executes_put (s_groups s g) a")
    case True
    have "request a \<notin> request ` set (s_done s)" using executes_new [OF sys_reachable_inv [OF assms(1)] assms(2) True] .
    then have "a \<notin> set (s_done s)" by auto
    then have "pr_Err r = answer_of (s_done s @ [a]) a"
      using put_step(4) [OF inv run True] sys_reachable_done [OF assms(1)] by (simp add: answer_of_new)
    then have "record_ok (s_done s @ [a]) (pa_ClientId a) \<lparr>lp_RequestId = pa_RequestId a, lp_Reply = r\<rparr>" by (simp add: record_ok_def)
    then have "group_records (s_done s @ [a]) kv'"
      using E(6) [OF True] assms(4) record_ok_append by (auto simp: group_records_def records_inv_def)
    then show ?thesis using assms(4) True s' [symmetric] by (simp add: records_inv_def list_all_iff records_append)
  next
    case False
    then show ?thesis using E(3) assms(4) s' by (simp add: fun_upd_idem_iff records_inv_def)
  qed
qed

lemma records_initial: "records_inv (sys_init gs)"
  by (simp add: records_inv_def sys_init_def group_records_def sg_last_def shardgrp_init_def)

lemma records_step:
  assumes "sys_reachable gs s" "proper e s" "sys_exec e s = Some s'" "records_inv s"
  shows "records_inv s'"
proof -
  have C: "ctl_records (s_done s) (s_ctls s ! c)" if "c < length (s_ctls s)" for c
    using assms(4) that by (simp add: records_inv_def list_all_length)
  show ?thesis
  proof (cases e)
    case (ReadStore c)
    then show ?thesis using assms(3,4) records_update [OF assms(4) ctl_read_records [OF C]] by (auto split: if_splits)
  next
    case (ExecPut j)
    then show ?thesis using assms(3,4) by (auto simp: exec_put_def records_inv_def split: if_splits prod.splits)
  next
    case (PutReturns c j retried)
    then show ?thesis using assms(3,4) records_update [OF assms(4) ctl_put_returns_records [OF C]] by (auto split: if_splits)
  next
    case (SendMove c k)
    have "req_records (s_done s) (snd m)"
      if "c < length (s_ctls s)" "s_ctls s ! c = Moving old ver new mvs" "k < length mvs" "mover_req new (mvs ! k) = Some m" for old ver new mvs m
      by (rule mover_req_records [OF _ that(4)]) (use C [OF that(1)] that(2,3) in \<open>simp add: list_all_length\<close>)
    then show ?thesis using SendMove assms(3,4)
      by (auto simp: records_inv_def simp del: mover_req.simps split: if_splits ctl.splits option.splits)
  next
    case (ExecMove j)
    show ?thesis
    proof (cases "j < length (s_sent s)")
      case True
      obtain g q where m: "s_sent s ! j = (g, q)" by force
      have "req_records (s_done s) q" "sent_ok s (g, q)"
        using assms(4) True m ctls_invD(2) [OF sys_reachable_inv [OF assms(1)] True] by (auto simp: records_inv_def list_all_length)
      moreover from this(2) have "\<nexists>a. q = SPut a" by auto
      ultimately show ?thesis using exec_move_records [OF assms(4), of q g] assms(3,4) ExecMove True m
        by (auto simp: exec_move_def bind_eq_Some_conv records_inv_def)
    qed (use assms ExecMove in simp)
  next
    case (MoveReturns c k j)
    have "records_inv (set_ctl c (Moving old ver new (mvs[k := (mvs ! k)\<lparr>mv_pc := pc\<rparr>])) s)"
      if "c < length (s_ctls s)" "j < length (s_replies s)" "s_ctls s ! c = Moving old ver new mvs"
        "mover_reply (snd (snd (s_replies s ! j))) (mv_pc (mvs ! k)) = Some pc" for old ver new mvs pc
      using records_update [OF assms(4) mover_update_records [OF C [OF that(1), unfolded that(3)] mover_reply_records [OF _ that(4)]]]
        assms(4) that(2) by (simp add: records_inv_def list_all_length)
    then show ?thesis using MoveReturns assms(3,4) records_update [OF assms(4), of Fatal c]
      by (auto simp del: mover_req.simps split: if_splits ctl.splits option.splits)
  next
    case (MoveExhausted c k)
    have "records_inv (set_ctl c (Moving old ver new (mvs[k := (mvs ! k)\<lparr>mv_pc := mover_exhausted cur new (mv_pc (mvs ! k))\<rparr>])) s)"
      if "c < length (s_ctls s)" "s_ctls s ! c = Moving old ver new mvs" "k < length mvs" for old ver new mvs cur
      by (rule records_update [OF assms(4) mover_update_records [OF C [OF that(1), unfolded that(2)]]])
        (use C [OF that(1)] that(2,3) in \<open>auto simp: mover_exhausted_def list_all_length\<close>)
    then show ?thesis using MoveExhausted assms(3,4) records_update [OF assms(4), of Fatal c]
      by (auto split: if_splits ctl.splits option.splits)
  next
    case (Wait c)
    have "ctl_records (s_done s) (migrate_wait ver new mvs)" for ver new mvs by (simp add: migrate_wait_def)
    then show ?thesis using Wait assms(3,4) records_update [OF assms(4)] by (auto split: if_splits ctl.splits)
  next
    case (Client g q)
    show ?thesis
    proof (cases "\<exists>a. q = SPut a")
      case True
      then show ?thesis using put_records [OF assms(1)] assms(2-4) Client by auto
    next
      case False
      then show ?thesis using assms(3,4) Client
        by (auto simp: exec_client_def bind_eq_Some_conv fun_upd_idem_iff records_inv_def split: sg_req.splits)
    qed
  qed (use assms(3,4) in \<open>auto simp: records_inv_def split: if_splits option.splits\<close>)
qed

lemma sys_reachable_records: "sys_reachable gs s \<Longrightarrow> records_inv s"
  by (induction rule: sys_reachable.induct) (auto intro: records_initial records_step)

text \<open>What a client is answered that sends its latest put again, or for the first time.\<close>

lemma put_answer:
  assumes "sys_reachable gs s" "\<forall>b \<in> set (s_done s). pa_ClientId b = pa_ClientId a \<longrightarrow> pa_RequestId b \<le> pa_RequestId a \<and> (request b = request a \<longrightarrow> b = a)"
    and "shardgrp_DoOp_Put (s_groups s g) a = Some (kv', r)" "exec_client g (SPut a) s = Some s'" "pr_Err r \<noteq> ErrWrongGroup"
  shows "a \<in> set (s_done s')" "pr_Err r = answer_of (s_done s') a"
proof -
  have inv: "cfg_inv s" "groups_inv s" using sys_reachable_inv [OF assms(1)] by (simp_all add: sys_inv_def)
  note ok = groups_invD(1) [OF inv(2), of g] and E = Put_effect [OF groups_invD(1) [OF inv(2)] assms(3)]
  have p: "proper (Client g (SPut a)) s" using assms(2) by (auto simp: list_all_iff)
  have "a \<in> set (s_done s') \<and> pr_Err r = answer_of (s_done s') a"
  proof (cases "executes_put (s_groups s g) a")
    case True
    then have d: "s_done s' = s_done s @ [a]" using assms(3,4) by (auto simp: exec_client_def)
    moreover have "a \<notin> set (s_done s)" using executes_new [OF sys_reachable_inv [OF assms(1)] p True] by auto
    ultimately show ?thesis using put_step(4) [OF inv assms(3) True] sys_reachable_done [OF assms(1)] by (simp add: answer_of_new)
  next
    case False
    then have d: "s_done s' = s_done s" using assms(3,4) by (auto simp: exec_client_def)
    have nf: "\<not> fresh (sg_last (s_groups s g)) a" and r: "r = lp_Reply (the (sg_last (s_groups s g) (pa_ClientId a)))"
      using assms(3,5) False unfolding shardgrp_Put_form [OF ok] Let_def executes_put_def by (auto split: if_splits)
    obtain q where q: "sg_last (s_groups s g) (pa_ClientId a) = Some q" "pa_RequestId a \<le> lp_RequestId q"
      using nf by (auto simp: fresh_def split: option.splits)
    have "record_ok (s_done s) (pa_ClientId a) q"
      using sys_reachable_records [OF assms(1)] q(1) by (simp add: records_inv_def group_records_def)
    then obtain b where b: "b \<in> set (s_done s)" "request b = (pa_ClientId a, lp_RequestId q)" "pr_Err (lp_Reply q) = answer_of (s_done s) b"
      by (auto simp: record_ok_def)
    then have "b = a" using assms(2) q(2) by auto
    then show ?thesis using b d q(1) r by simp
  qed
  then show "a \<in> set (s_done s')" "pr_Err r = answer_of (s_done s') a" by simp_all
qed

end
