(* ===== verification/Config_Cache.thy ===== *)
theory Config_Cache
  imports Shardctrler
begin

text \<open>
  The cached configuration of a client's clerk, \<open>getConfig\<close> and \<open>refreshConfig\<close> of
  \<open>shardkv/client.go\<close>, with any number of goroutines in them. Each is cut where it takes or releases
  \<open>ck.mu\<close>; a channel is a number, a closed one stays closed. \<open>c_panicked\<close> records a second
  \<open>close\<close> of a channel.
\<close>

section \<open>The cache\<close>

text \<open>A goroutine in \<open>refreshConfig\<close> knows the channel that \<open>getConfig\<close> will wait for, if that is its caller.\<close>

datatype cache_pc =
    Refresh "nat option"                \<comment> \<open>before the first lock of \<open>refreshConfig\<close>\<close>
  | Fetching "nat option"               \<comment> \<open>in \<open>ck.sck.Query()\<close>\<close>
  | Fetched ShardConfig "nat option"    \<comment> \<open>before the second lock\<close>
  | Waiting nat                         \<comment> \<open>at the receive in \<open>getConfig\<close>\<close>
  | Refreshed                           \<comment> \<open>\<open>refreshConfig\<close> has returned to Get or Put\<close>
  | Got "ShardConfig option"            \<comment> \<open>\<open>getConfig\<close> has returned, \<open>None\<close> is nil\<close>
  | QueryFatal                          \<comment> \<open>\<open>log.Fatal\<close> in Query\<close>

record cache =
  c_fetching :: bool
  c_fetchingDone :: nat
  c_cachedConfig :: "ShardConfig option"
  c_closed :: "nat list"
  c_chans :: nat
  c_threads :: "cache_pc list"
  c_panicked :: bool

definition cache_init :: cache where
  "cache_init = \<lparr>c_fetching = False, c_fetchingDone = 0, c_cachedConfig = None, c_closed = [], c_chans = 1, c_threads = [],
     c_panicked = False\<rparr>"

text \<open>\<open>getConfig\<close> up to the call of \<open>refreshConfig\<close>.\<close>

definition getConfig_start :: "cache \<Rightarrow> cache_pc" where
  "getConfig_start c = (if \<not> c_fetching c \<and> c_cachedConfig c \<noteq> None then Got (c_cachedConfig c) else Refresh (Some (c_fetchingDone c)))"

text \<open>What follows \<open>refreshConfig\<close>.\<close>

definition after_refresh :: "nat option \<Rightarrow> cache_pc" where
  "after_refresh w = (case w of None \<Rightarrow> Refreshed | Some ch \<Rightarrow> Waiting ch)"

definition set_thread :: "nat \<Rightarrow> cache_pc \<Rightarrow> cache \<Rightarrow> cache" where
  "set_thread i pc c = c\<lparr>c_threads := (c_threads c)[i := pc]\<rparr>"

definition refreshConfig_lock :: "nat \<Rightarrow> nat option \<Rightarrow> cache \<Rightarrow> cache" where
  "refreshConfig_lock i w c =
     (if c_fetching c then set_thread i (after_refresh w) c else set_thread i (Fetching w) (c\<lparr>c_fetching := True\<rparr>))"

definition refreshConfig_fetched :: "ConfigStore \<Rightarrow> nat option \<Rightarrow> cache_pc" where
  "refreshConfig_fetched st w = (case Query st of None \<Rightarrow> QueryFatal | Some cfg \<Rightarrow> Fetched cfg w)"

definition refreshConfig_publish :: "nat \<Rightarrow> ShardConfig \<Rightarrow> nat option \<Rightarrow> cache \<Rightarrow> cache" where
  "refreshConfig_publish i cfg w c =
     (let fetchingDone = c_fetchingDone c in
      set_thread i (after_refresh w) (c\<lparr>c_cachedConfig := Some cfg, c_fetching := False,
        c_fetchingDone := c_chans c, c_chans := c_chans c + 1,
        c_closed := fetchingDone # c_closed c, c_panicked := (c_panicked c \<or> fetchingDone \<in> set (c_closed c))\<rparr>))"

datatype cache_event =
    GetConfig            \<comment> \<open>a goroutine calls \<open>getConfig\<close>\<close>
  | RefreshConfig        \<comment> \<open>Get or Put calls \<open>refreshConfig\<close> after an error\<close>
  | Step nat ConfigStore \<comment> \<open>a goroutine goes on; the config store, for its Query\<close>

fun cache_exec :: "cache_event \<Rightarrow> cache \<Rightarrow> cache" where
  "cache_exec GetConfig c = c\<lparr>c_threads := c_threads c @ [getConfig_start c]\<rparr>"
| "cache_exec RefreshConfig c = c\<lparr>c_threads := c_threads c @ [Refresh None]\<rparr>"
| "cache_exec (Step i st) c = (if i < length (c_threads c) then (case c_threads c ! i of
       Refresh w \<Rightarrow> refreshConfig_lock i w c
     | Fetching w \<Rightarrow> set_thread i (refreshConfig_fetched st w) c
     | Fetched cfg w \<Rightarrow> refreshConfig_publish i cfg w c
     | Waiting ch \<Rightarrow> if ch \<in> set (c_closed c) then set_thread i (Got (c_cachedConfig c)) c else c
     | _ \<Rightarrow> c) else c)"

definition cache_run :: "cache_event list \<Rightarrow> cache \<Rightarrow> cache" where
  "cache_run es c = fold cache_exec es c"

section \<open>The invariant\<close>

definition in_flight :: "cache_pc \<Rightarrow> bool" where
  "in_flight pc \<longleftrightarrow> (case pc of Fetching w \<Rightarrow> True | Fetched cfg w \<Rightarrow> True | QueryFatal \<Rightarrow> True | _ \<Rightarrow> False)"

text \<open>The channel a goroutine has read is the present one or is closed; when it waits, a fetch is under way.\<close>

definition chan_ok :: "cache \<Rightarrow> nat option \<Rightarrow> bool" where
  "chan_ok c w \<longleftrightarrow> (case w of None \<Rightarrow> True | Some ch \<Rightarrow> ch = c_fetchingDone c \<or> ch \<in> set (c_closed c))"

fun thread_ok :: "cache \<Rightarrow> cache_pc \<Rightarrow> bool" where
  "thread_ok c (Refresh w) \<longleftrightarrow> chan_ok c w"
| "thread_ok c (Fetching w) \<longleftrightarrow> chan_ok c w"
| "thread_ok c (Fetched cfg w) \<longleftrightarrow> chan_ok c w"
| "thread_ok c (Waiting ch) \<longleftrightarrow> ch \<in> set (c_closed c) \<or> ch = c_fetchingDone c \<and> c_fetching c"
| "thread_ok c (Got r) \<longleftrightarrow> r \<noteq> None"
| "thread_ok c _ \<longleftrightarrow> True"

definition cache_inv :: "cache \<Rightarrow> bool" where
  "cache_inv c \<longleftrightarrow> list_all (thread_ok c) (c_threads c) \<and>
     length (filter in_flight (c_threads c)) = (if c_fetching c then 1 else 0) \<and>
     c_fetchingDone c < c_chans c \<and> c_fetchingDone c \<notin> set (c_closed c) \<and> (\<forall>ch \<in> set (c_closed c). ch < c_chans c) \<and>
     (c_closed c \<noteq> [] \<longrightarrow> c_cachedConfig c \<noteq> None) \<and> \<not> c_panicked c"

lemma filter_update:
  assumes "i < length xs"
  shows "length (filter P (xs[i := y])) + (if P (xs ! i) then 1 else 0) = length (filter P xs) + (if P y then 1 else 0)"
  using assms
proof (induction xs arbitrary: i)
  case (Cons x xs)
  then show ?case by (cases i) auto
qed simp

text \<open>What was known of a goroutine stays true when channels are only closed and replaced.\<close>

definition later :: "cache \<Rightarrow> cache \<Rightarrow> bool" where
  "later c c' \<longleftrightarrow> set (c_closed c) \<subseteq> set (c_closed c') \<and>
     (c_fetchingDone c' = c_fetchingDone c \<and> (c_fetching c \<longrightarrow> c_fetching c') \<or> c_fetchingDone c \<in> set (c_closed c'))"

lemma chan_later: "later c c' \<Longrightarrow> chan_ok c w \<Longrightarrow> chan_ok c' w"
  by (auto simp: later_def chan_ok_def split: option.splits)

lemma thread_later: "later c c' \<Longrightarrow> thread_ok c pc \<Longrightarrow> thread_ok c' pc"
  by (cases pc) (auto simp: chan_later later_def)

lemma threads_update:
  assumes "list_all (thread_ok c) (c_threads c)" "later c c'" "thread_ok c' pc" "c_threads c' = (c_threads c)[i := pc]"
  shows "list_all (thread_ok c') (c_threads c')"
  using assms thread_later [OF assms(2)] set_update_subset_insert [of "c_threads c" i pc] by (auto simp: list_all_iff)

lemma flight_update:
  assumes "i < length (c_threads c)" "c_threads c' = (c_threads c)[i := pc]"
    and "length (filter in_flight (c_threads c)) = (if c_fetching c then 1 else 0)"
    and "(c_fetching c, in_flight (c_threads c ! i), c_fetching c', in_flight pc) \<in>
      {(True, True, True, True), (True, True, False, False), (True, False, True, False), (False, False, False, False), (False, False, True, True)}"
  shows "length (filter in_flight (c_threads c')) = (if c_fetching c' then 1 else 0)"
  using filter_update [OF assms(1), of in_flight pc] assms(2-4) by auto

lemma in_flight_simps [simp]:
  "in_flight (Fetching w)" "in_flight (Fetched cfg w)" "in_flight QueryFatal" "\<not> in_flight (Refresh w)" "\<not> in_flight (Waiting ch)"
  "\<not> in_flight Refreshed" "\<not> in_flight (Got r)" "\<not> in_flight (after_refresh w)" "in_flight (refreshConfig_fetched st w)"
  by (auto simp: in_flight_def after_refresh_def refreshConfig_fetched_def split: option.splits)

lemma flight_fetching:
  assumes "cache_inv c" "i < length (c_threads c)" "in_flight (c_threads c ! i)"
  shows "c_fetching c"
proof (rule ccontr)
  assume "\<not> c_fetching c"
  then have "filter in_flight (c_threads c) = []" using assms(1) by (simp add: cache_inv_def)
  then show False using assms(2,3) by (auto simp: filter_empty_conv)
qed

lemma cache_step_inv:
  assumes "cache_inv c" "i < length (c_threads c)"
  shows "cache_inv (cache_exec (Step i st) c)"
proof -
  have T: "list_all (thread_ok c) (c_threads c)" and F: "length (filter in_flight (c_threads c)) = (if c_fetching c then 1 else 0)"
    and C: "c_fetchingDone c < c_chans c" "c_fetchingDone c \<notin> set (c_closed c)" "\<forall>ch \<in> set (c_closed c). ch < c_chans c"
    "c_closed c \<noteq> [] \<longrightarrow> c_cachedConfig c \<noteq> None" "\<not> c_panicked c" using assms(1) by (auto simp: cache_inv_def)
  have ok: "thread_ok c (c_threads c ! i)" using T assms(2) by (simp add: list_all_length)
  let ?c = "cache_exec (Step i st) c"
  have go: "cache_inv ?c" if "later c ?c" "thread_ok ?c pc" "c_threads ?c = (c_threads c)[i := pc]"
      "(c_fetching c, in_flight (c_threads c ! i), c_fetching ?c, in_flight pc) \<in>
      {(True, True, True, True), (True, True, False, False), (True, False, True, False), (False, False, False, False), (False, False, True, True)}"
      "c_fetchingDone ?c < c_chans ?c" "c_fetchingDone ?c \<notin> set (c_closed ?c)" "\<forall>ch \<in> set (c_closed ?c). ch < c_chans ?c"
      "c_closed ?c \<noteq> [] \<longrightarrow> c_cachedConfig ?c \<noteq> None" "\<not> c_panicked ?c" for pc
    unfolding cache_inv_def using threads_update [OF T that(1-3)] flight_update [OF assms(2) that(3) F that(4)] that(5-9) by blast
  show ?thesis
  proof (cases "c_threads c ! i")
    case (Refresh w)
    show ?thesis using Refresh C ok assms(2)
      by (intro go [of "if c_fetching c then after_refresh w else Fetching w"])
        (auto simp: refreshConfig_lock_def set_thread_def later_def chan_ok_def after_refresh_def split: option.splits)
  next
    case (Fetching w)
    have "c_fetching c" using flight_fetching [OF assms] Fetching by simp
    then show ?thesis using Fetching C ok assms(2)
      by (intro go [of "refreshConfig_fetched st w"])
        (auto simp: set_thread_def later_def chan_ok_def refreshConfig_fetched_def split: option.splits)
  next
    case (Fetched cfg w)
    have "c_fetching c" using flight_fetching [OF assms] Fetched by simp
    then show ?thesis using Fetched C ok assms(2)
      by (intro go [of "after_refresh w"])
        (auto simp: refreshConfig_publish_def Let_def set_thread_def later_def chan_ok_def after_refresh_def split: option.splits)
  next
    case (Waiting ch)
    then show ?thesis
    proof (cases "ch \<in> set (c_closed c)")
      case True
      then show ?thesis using Waiting C ok assms(2) by (intro go [of "Got (c_cachedConfig c)"]) (auto simp: set_thread_def later_def)
    qed (use assms in simp)
  qed (use assms in simp_all)
qed

lemma cache_add_inv:
  assumes "cache_inv c" "thread_ok c pc" "\<not> in_flight pc"
  shows "cache_inv (c\<lparr>c_threads := c_threads c @ [pc]\<rparr>)"
proof -
  let ?c = "c\<lparr>c_threads := c_threads c @ [pc]\<rparr>"
  have "later c ?c" by (simp add: later_def)
  then have "list_all (thread_ok ?c) (c_threads c @ [pc])"
    using assms(1,2) thread_later by (auto simp: cache_inv_def list_all_iff)
  then show ?thesis using assms by (simp add: cache_inv_def)
qed

lemma cache_exec_inv: "cache_inv c \<Longrightarrow> cache_inv (cache_exec e c)"
proof (cases e)
  case GetConfig
  assume "cache_inv c"
  then show ?thesis using GetConfig cache_add_inv [of c "getConfig_start c"] by (auto simp: getConfig_start_def chan_ok_def)
next
  case RefreshConfig
  assume "cache_inv c"
  then show ?thesis using RefreshConfig cache_add_inv [of c "Refresh None"] by (simp add: chan_ok_def)
next
  case (Step i st)
  assume "cache_inv c"
  then show ?thesis using Step cache_step_inv [of c i st] by (cases "i < length (c_threads c)") simp_all
qed

lemma cache_run_inv: "cache_inv (cache_run es cache_init)"
proof -
  have "cache_inv (fold cache_exec es c)" if "cache_inv c" for c using that by (induction es arbitrary: c) (simp_all add: cache_exec_inv)
  moreover have "cache_inv cache_init" by (simp add: cache_inv_def cache_init_def)
  ultimately show ?thesis by (simp add: cache_run_def)
qed

section \<open>Properties\<close>

text \<open>C33. However the goroutines interleave, at most one Query is under way, no channel is closed
  twice, and \<open>getConfig\<close> never returns nil.\<close>

theorem config_cache_single_flight:
  "length (filter in_flight (c_threads (cache_run es cache_init))) \<le> 1 \<and> \<not> c_panicked (cache_run es cache_init) \<and>
    Got None \<notin> set (c_threads (cache_run es cache_init))"
proof -
  have inv: "cache_inv (cache_run es cache_init)" by (rule cache_run_inv)
  have "Got None \<notin> set (c_threads (cache_run es cache_init))"
  proof
    assume "Got None \<in> set (c_threads (cache_run es cache_init))"
    with inv have "thread_ok (cache_run es cache_init) (Got None)" unfolding cache_inv_def list_all_iff by blast
    then show False by simp
  qed
  with inv show ?thesis by (simp add: cache_inv_def)
qed

text \<open>
  C32. No wake-up is lost: from every reachable state a goroutine that waits in \<open>getConfig\<close> gets a
  configuration after three more steps at most, when the config store has one and no Query has ended
  the process.
\<close>

theorem getConfig_wakes:
  assumes "i < length (c_threads (cache_run es cache_init))" "c_threads (cache_run es cache_init) ! i = Waiting ch"
    and "QueryFatal \<notin> set (c_threads (cache_run es cache_init))" "Query st = Some cfg"
  shows "\<exists>js cfg'. length js \<le> 3 \<and> c_threads (cache_run (es @ map (\<lambda>j. Step j st) js) cache_init) ! i = Got (Some cfg')"
proof -
  let ?c = "cache_run es cache_init"
  have run: "cache_run (es @ map (\<lambda>j. Step j st) js) cache_init = fold (\<lambda>j. cache_exec (Step j st)) js ?c" for js
    by (simp add: cache_run_def fold_map comp_def)
  have inv: "cache_inv ?c" by (rule cache_run_inv)
  then have ok: "thread_ok ?c (Waiting ch)" using assms(1,2) by (auto simp: cache_inv_def list_all_length)
  show ?thesis
  proof (cases "ch \<in> set (c_closed ?c)")
    case True
    moreover from this inv obtain cfg' where "c_cachedConfig ?c = Some cfg'" by (force simp: cache_inv_def)
    ultimately show ?thesis unfolding run using assms(1,2) by (intro exI [of _ "[i]"] exI [of _ cfg']) (simp add: set_thread_def)
  next
    case False
    with ok have ch: "ch = c_fetchingDone ?c" "c_fetching ?c" by auto
    with inv have "filter in_flight (c_threads ?c) \<noteq> []" by (auto simp: cache_inv_def)
    then obtain j where j: "j < length (c_threads ?c)" "in_flight (c_threads ?c ! j)" by (auto simp: filter_empty_conv in_set_conv_nth)
    then have "c_threads ?c ! j \<noteq> QueryFatal" using assms(3) by (metis nth_mem)
    with j(2) consider w where "c_threads ?c ! j = Fetching w" | d w where "c_threads ?c ! j = Fetched d w" by (cases "c_threads ?c ! j") auto
    moreover have "j \<noteq> i" using j(2) assms(2) by auto
    ultimately show ?thesis
    proof cases
      case 1
      then show ?thesis unfolding run using assms(1,2,4) j(1) ch(1) \<open>j \<noteq> i\<close>
        by (intro exI [of _ "[j, j, i]"] exI [of _ cfg]) (simp add: set_thread_def refreshConfig_fetched_def refreshConfig_publish_def Let_def)
    next
      case 2
      then show ?thesis unfolding run using assms(1,2) j(1) ch(1) \<open>j \<noteq> i\<close>
        by (intro exI [of _ "[j, i]"] exI [of _ d]) (simp add: set_thread_def refreshConfig_publish_def Let_def)
    qed
  qed
qed

text \<open>Two goroutines call \<open>getConfig\<close> before any configuration is cached; the first one fetches it.\<close>

definition two_waiters :: "cache_event list" where
  "two_waiters = [GetConfig, GetConfig, Step 0 Map.empty, Step 1 Map.empty]"

theorem getConfig_wakes_witness:
  "\<exists>js cfg'. length js \<le> 3 \<and>
     c_threads (cache_run (two_waiters @ map (\<lambda>j. Step j (InitConfig (first_cfg []) Map.empty)) js) cache_init) ! 1 = Got (Some cfg')"
proof -
  have c: "c_threads (cache_run two_waiters cache_init) = [Fetching (Some 0), Waiting 0]"
    by (simp add: two_waiters_def cache_run_def cache_init_def getConfig_start_def refreshConfig_lock_def set_thread_def after_refresh_def)
  have q: "Query (InitConfig (first_cfg []) Map.empty) = Some (first_cfg [])"
    by (simp add: Query_def InitConfig_def store_Put_def)
  show ?thesis by (rule getConfig_wakes [OF _ _ _ q, of 1 two_waiters 0]) (simp_all add: c)
qed

end
