(* ===== verification/Shardkv_Clerk.thy ===== *)
theory Shardkv_Clerk
  imports Put_Records Config_Cache
begin

text \<open>
  The clerk that clients use, \<open>shardkv/client.go\<close>, running against the whole system: it looks up the
  group of a key in its cached configuration, asks the clerk of that group, and on ErrWrongGroup or
  ErrRetryExhausted fetches the configuration anew and tries again, without a limit.
\<close>

section \<open>The system behind a network\<close>

text \<open>
  The plan gives for each RPC the events of the rest of the system before it and its fate; the
  events before each Query of the config store are given apart. Events that are not proper do not
  happen.
\<close>

record sk_world =
  k_sys :: sys
  k_plan :: "(sys_event list \<times> rpc_fate) list"
  k_queries :: "sys_event list list"
  k_rand :: "int list"
  k_slept :: "int list"

definition sys_try :: "sys_event \<Rightarrow> sys \<Rightarrow> sys" where
  "sys_try e s = (if proper e s then (case sys_exec e s of None \<Rightarrow> s | Some s' \<Rightarrow> s') else s)"

definition sys_others :: "sys_event list \<Rightarrow> sys \<Rightarrow> sys" where
  "sys_others es s = fold sys_try es s"

text \<open>An RPC to group \<open>gid\<close>; see \<open>rpc\<close> for the fates.\<close>

definition sys_rpc ::
    "((sg_req \<Rightarrow> Err \<times> sg_rep) \<Rightarrow> 'r option) \<Rightarrow> Tgid \<Rightarrow> sg_req \<Rightarrow> string \<Rightarrow> sk_world \<Rightarrow> 'r option \<times> sk_world" where
  "sys_rpc handler gid q srv w = (case k_plan w of
       [] \<Rightarrow> (None, w)
     | (others, fate) # rest \<Rightarrow>
         let s = sys_others others (k_sys w); w1 = w\<lparr>k_sys := s, k_plan := rest\<rparr>;
             refusal = handler (\<lambda>_. (ErrWrongLeader, SNil))
         in case fate of
              Dropped \<Rightarrow> (None, w1)
            | Refused \<Rightarrow> (refusal, w1)
            | _ \<Rightarrow> (case (shardgrp_DoOp (s_groups s gid) q, exec_client gid q s) of
                       (Some (_, p), Some s') \<Rightarrow>
                         ((case fate of Answered \<Rightarrow> handler (\<lambda>_. (OK, p)) | RefusedLate \<Rightarrow> refusal | _ \<Rightarrow> None), w1\<lparr>k_sys := s'\<rparr>)
                     | _ \<Rightarrow> (None, w1)))"

definition sys_call_Get :: "Tgid \<Rightarrow> GetArgs \<Rightarrow> string \<Rightarrow> sk_world \<Rightarrow> GetReply option \<times> sk_world" where
  "sys_call_Get gid args = sys_rpc
     (\<lambda>submit. shardgrp_Get submit args \<lparr>gr_Value = '''', gr_Version = 0, gr_Err = ErrZero\<rparr>) gid (SGet args)"

definition sys_call_Put :: "Tgid \<Rightarrow> PutArgs \<Rightarrow> string \<Rightarrow> sk_world \<Rightarrow> PutReply option \<times> sk_world" where
  "sys_call_Put gid args = sys_rpc (\<lambda>submit. shardgrp_Put submit args \<lparr>pr_Err = ErrZero\<rparr>) gid (SPut args)"

definition sk_pause :: "int \<Rightarrow> int \<Rightarrow> int \<Rightarrow> sk_world \<Rightarrow> sk_world option" where
  "sk_pause cap base retry w = do {
     t \<leftarrow> Clerk_Loop.backoffWithJitter cap base retry (case k_rand w of [] \<Rightarrow> 0 | r # rs \<Rightarrow> r);
     Some (w\<lparr>k_rand := tl (k_rand w), k_slept := k_slept w @ [t]\<rparr>) }"

definition sys_backoff :: "ShardgrpClerk \<Rightarrow> int \<Rightarrow> sk_world \<Rightarrow> sk_world option" where
  "sys_backoff gck round w = sk_pause Second (gc_backoffTime gck) round w"

section \<open>The clerk\<close>

text \<open>
  One goroutine uses the clerk: between its calls nothing is being fetched, and the cache is the
  configuration alone.
\<close>

record ShardkvClerk =
  kc_rcks :: "(Tgid \<times> ShardgrpClerk) list"
  kc_clerkId :: u64
  kc_requestId :: u64
  kc_cachedConfig :: "ShardConfig option"
  kc_backoffTime :: int

definition shardkv_MakeClerk :: "u64 \<Rightarrow> ShardkvClerk" where
  "shardkv_MakeClerk rand =
     \<lparr>kc_rcks = [], kc_clerkId = rand, kc_requestId = 0, kc_cachedConfig = None, kc_backoffTime = 50 * Millisecond\<rparr>"

definition shardkv_nextReqId :: "ShardkvClerk \<Rightarrow> u64 \<times> ShardkvClerk" where
  "shardkv_nextReqId ck = (kc_requestId ck + 1, ck\<lparr>kc_requestId := kc_requestId ck + 1\<rparr>)"

definition GetClerk :: "ShardkvClerk \<Rightarrow> Tgid \<Rightarrow> ShardgrpClerk option" where
  "GetClerk ck gid = map_of (kc_rcks ck) gid"

definition shardkv_backoffWithJitter :: "ShardkvClerk \<Rightarrow> int \<Rightarrow> sk_world \<Rightarrow> sk_world option" where
  "shardkv_backoffWithJitter ck retry w = sk_pause (2 * Second) (kc_backoffTime ck) retry w"

text \<open>\<open>None\<close>: Query ends the process.\<close>

definition shardkv_refreshConfig :: "ShardkvClerk \<Rightarrow> sk_world \<Rightarrow> (ShardkvClerk \<times> sk_world) option" where
  "shardkv_refreshConfig ck w =
     (let s = sys_others (case k_queries w of [] \<Rightarrow> [] | es # _ \<Rightarrow> es) (k_sys w) in do {
       cfg \<leftarrow> Query (s_store s);
       Some (ck\<lparr>kc_cachedConfig := Some cfg\<rparr>, w\<lparr>k_sys := s, k_queries := tl (k_queries w)\<rparr>) })"

definition shardkv_getConfig :: "ShardkvClerk \<Rightarrow> sk_world \<Rightarrow> (ShardConfig \<times> ShardkvClerk \<times> sk_world) option" where
  "shardkv_getConfig ck w = (case kc_cachedConfig ck of
       Some cfg \<Rightarrow> Some (cfg, ck, w)
     | None \<Rightarrow> do {
         (ck', w') \<leftarrow> shardkv_refreshConfig ck w;
         cfg \<leftarrow> kc_cachedConfig ck';
         Some (cfg, ck', w') })"

text \<open>The clerk of the group that the configuration has for a key, made when it is needed; \<open>None\<close> is \<open>log.Fatal\<close>.\<close>

definition group_clerk :: "ShardConfig \<Rightarrow> Tshid \<Rightarrow> ShardkvClerk \<Rightarrow> (Tgid \<times> ShardgrpClerk) option" where
  "group_clerk cfg shid ck = do {
     (gid, servers, ok) \<leftarrow> GidServers cfg shid;
     if \<not> ok then None
     else Some (gid, case map_of (kc_rcks ck) gid of Some gck \<Rightarrow> gck | None \<Rightarrow> shardgrp_MakeClerk servers (kc_clerkId ck)) }"

definition set_rck :: "Tgid \<Rightarrow> ShardgrpClerk \<Rightarrow> ShardkvClerk \<Rightarrow> ShardkvClerk" where
  "set_rck gid gck ck = ck\<lparr>kc_rcks := AList.update gid gck (kc_rcks ck)\<rparr>"

text \<open>One round of the loops of Get and Put: the configuration, the group, the call of its clerk.\<close>

definition shardkv_try ::
    "(Tgid \<Rightarrow> ShardgrpClerk \<Rightarrow> sk_world \<Rightarrow> (ShardgrpClerk \<times> 'r \<times> sk_world) option) \<Rightarrow> string \<Rightarrow> ShardkvClerk \<Rightarrow> sk_world \<Rightarrow>
     ('r \<times> ShardkvClerk \<times> sk_world) option" where
  "shardkv_try call key ck w = do {
     (cfg, ck1, w1) \<leftarrow> shardkv_getConfig ck w;
     (gid, gck) \<leftarrow> group_clerk cfg (Key2Shard key) ck1;
     (gck', r, w2) \<leftarrow> call gid gck w1;
     Some (r, set_rck gid gck' ck1, w2) }"

text \<open>The loop; \<open>err\<close> is the error of a result and \<open>final\<close> says which errors end it. \<open>None\<close> when it never ends.\<close>

partial_function (option) shardkv_loop ::
    "(Tgid \<Rightarrow> ShardgrpClerk \<Rightarrow> sk_world \<Rightarrow> (ShardgrpClerk \<times> 'r \<times> sk_world) option) \<Rightarrow> ('r \<Rightarrow> Err) \<Rightarrow> (Err \<Rightarrow> bool) \<Rightarrow> string \<Rightarrow>
     int \<Rightarrow> ShardkvClerk \<Rightarrow> sk_world \<Rightarrow> ('r \<times> ShardkvClerk \<times> sk_world) outcome option" where
  "shardkv_loop call err final key retry ck w = (case shardkv_try call key ck w of
       None \<Rightarrow> Some Panic
     | Some (r, ck1, w1) \<Rightarrow>
         if err r = ErrWrongGroup \<or> err r = ErrRetryExhausted then
           (case do { (ck2, w2) \<leftarrow> shardkv_refreshConfig ck1 w1; w3 \<leftarrow> shardkv_backoffWithJitter ck2 retry w2; Some (ck2, w3) } of
              None \<Rightarrow> Some Panic
            | Some (ck2, w3) \<Rightarrow> shardkv_loop call err final key (retry + 1) ck2 w3)
         else if final (err r) then Some (Returned (r, ck1, w1)) else Some Panic)"

declare shardkv_loop.simps [code]

text \<open>Get returns any other error; Put knows three.\<close>

definition shardkv_Get ::
    "ShardkvClerk \<Rightarrow> string \<Rightarrow> sk_world \<Rightarrow> ((string \<times> Tversion \<times> Err) \<times> ShardkvClerk \<times> sk_world) outcome option" where
  "shardkv_Get ck key w =
     shardkv_loop (\<lambda>gid gck. shardgrp_Get_with (sys_call_Get gid) sys_backoff gck key) (\<lambda>(_, _, e). e) (\<lambda>_. True) key 0 ck w"

definition shardkv_Put ::
    "ShardkvClerk \<Rightarrow> string \<Rightarrow> string \<Rightarrow> Tversion \<Rightarrow> sk_world \<Rightarrow> (Err \<times> ShardkvClerk \<times> sk_world) outcome option" where
  "shardkv_Put ck key value version w = (let (reqId, ck') = shardkv_nextReqId ck in
     shardkv_loop (\<lambda>gid gck. shardgrp_Put_with (sys_call_Put gid) sys_backoff gck reqId key value version) id
       (\<lambda>e. e \<in> {OK, ErrVersion, ErrNoKey}) key 0 ck' w)"

section \<open>What the loop keeps\<close>

definition rcks_ok :: "u64 \<Rightarrow> ShardkvClerk \<Rightarrow> bool" where
  "rcks_ok cid ck \<longleftrightarrow> kc_clerkId ck = cid \<and> list_all (\<lambda>e. gc_clientId (snd e) = cid) (kc_rcks ck)"

lemma rcks_ok_simps [simp]:
  "rcks_ok cid (ck\<lparr>kc_cachedConfig := c\<rparr>) = rcks_ok cid ck" "rcks_ok cid (ck\<lparr>kc_requestId := r\<rparr>) = rcks_ok cid ck"
  by (simp_all add: rcks_ok_def)

lemma group_clerk_id: "rcks_ok cid ck \<Longrightarrow> group_clerk cfg sh ck = Some (gid, gck) \<Longrightarrow> gc_clientId gck = cid"
  by (auto simp: group_clerk_def rcks_ok_def bind_eq_Some_conv shardgrp_MakeClerk_def list_all_iff dest!: map_of_SomeD
    split: if_splits option.splits)

lemma set_rck_ok: "rcks_ok cid ck \<Longrightarrow> gc_clientId gck = cid \<Longrightarrow> rcks_ok cid (set_rck gid gck ck)"
  using alist_update_subset [of gid gck "kc_rcks ck"] by (auto simp: rcks_ok_def set_rck_def list_all_iff)

text \<open>
  The contract of a call of a group clerk, as the loop uses it: it keeps \<open>I\<close> and the client's id, and
  a result that ends the loop is \<open>good\<close>. Fetching the configuration and sleeping keep \<open>I\<close>, too.
\<close>

locale shard_call =
  fixes call :: "Tgid \<Rightarrow> ShardgrpClerk \<Rightarrow> sk_world \<Rightarrow> (ShardgrpClerk \<times> 'r \<times> sk_world) option"
    and err :: "'r \<Rightarrow> Err" and I :: "sk_world \<Rightarrow> bool" and good :: "'r \<Rightarrow> sk_world \<Rightarrow> bool" and cid :: u64
  assumes call_keeps: "I w \<Longrightarrow> gc_clientId gck = cid \<Longrightarrow> call gid gck w = Some (gck', r, w') \<Longrightarrow>
      I w' \<and> gc_clientId gck' = cid \<and> (err r = ErrWrongGroup \<or> err r = ErrRetryExhausted \<or> good r w')"
    and refresh_keeps: "I w \<Longrightarrow> shardkv_refreshConfig ck w = Some (ck', w') \<Longrightarrow> I w'"
    and pause_keeps: "I w \<Longrightarrow> sk_pause cap base k w = Some w' \<Longrightarrow> I w'"
begin

lemma refresh_rcks: "shardkv_refreshConfig ck w = Some (ck', w') \<Longrightarrow> rcks_ok cid ck \<Longrightarrow> rcks_ok cid ck'"
  by (auto simp: shardkv_refreshConfig_def Let_def bind_eq_Some_conv)

lemma getConfig_keeps: "I w \<Longrightarrow> rcks_ok cid ck \<Longrightarrow> shardkv_getConfig ck w = Some (cfg, ck', w') \<Longrightarrow> I w' \<and> rcks_ok cid ck'"
  using refresh_keeps [of w ck] refresh_rcks [of ck w] by (auto simp: shardkv_getConfig_def bind_eq_Some_conv split: option.splits)

lemma try_keeps:
  assumes "I w" "rcks_ok cid ck" "shardkv_try call key ck w = Some (r, ck', w')"
  shows "I w' \<and> rcks_ok cid ck' \<and> (err r = ErrWrongGroup \<or> err r = ErrRetryExhausted \<or> good r w')"
proof -
  obtain cfg ck1 w1 gid gck gck' where s: "shardkv_getConfig ck w = Some (cfg, ck1, w1)"
    "group_clerk cfg (Key2Shard key) ck1 = Some (gid, gck)" "call gid gck w1 = Some (gck', r, w')" "ck' = set_rck gid gck' ck1"
    using assms(3) by (auto simp: shardkv_try_def bind_eq_Some_conv)
  note 1 = getConfig_keeps [OF assms(1,2) s(1)]
  have "gc_clientId gck = cid" using 1 group_clerk_id [OF _ s(2)] by blast
  with call_keeps [OF _ this s(3)] 1 set_rck_ok s(4) show ?thesis by blast
qed

lemma loop_returns:
  assumes "shardkv_loop call err final key retry ck w = Some (Returned (r, ck', w'))" "I w" "rcks_ok cid ck"
  shows "I w' \<and> rcks_ok cid ck' \<and> good r w' \<and> final (err r)"
proof -
  let ?P = "\<lambda>call' (err' :: 'r \<Rightarrow> Err) (final' :: Err \<Rightarrow> bool) (key :: string) (retry :: int) ck w x.
    call' = call \<longrightarrow> err' = err \<longrightarrow> final' = final \<longrightarrow> I w \<longrightarrow> rcks_ok cid ck \<longrightarrow>
    (\<forall>r ck' w'. x = Returned (r, ck', w') \<longrightarrow> I w' \<and> rcks_ok cid ck' \<and> good r w' \<and> final (err r))"
  have "?P call err final key retry ck w (Returned (r, ck', w'))"
  proof (rule shardkv_loop.raw_induct [where P = ?P, OF _ assms(1)], intro impI allI)
    fix f :: "(Tgid \<Rightarrow> ShardgrpClerk \<Rightarrow> sk_world \<Rightarrow> (ShardgrpClerk \<times> 'r \<times> sk_world) option) \<Rightarrow> _"
      and call' err' final' key retry ck w x r ck' w'
    assume IH: "\<And>call' err' final' key retry ck w x. f call' err' final' key retry ck w = Some x \<Longrightarrow> ?P call' err' final' key retry ck w x"
      and eqs: "call' = call" "err' = err" "final' = final" "x = Returned (r, ck', w')" and I: "I w" "rcks_ok cid ck"
      and body: "(case shardkv_try call' key ck w of None \<Rightarrow> Some Panic
        | Some (r, ck1, w1) \<Rightarrow>
         if err' r = ErrWrongGroup \<or> err' r = ErrRetryExhausted then
           (case do { (ck2, w2) \<leftarrow> shardkv_refreshConfig ck1 w1; w3 \<leftarrow> shardkv_backoffWithJitter ck2 retry w2; Some (ck2, w3) } of
              None \<Rightarrow> Some Panic
            | Some (ck2, w3) \<Rightarrow> f call' err' final' key (retry + 1) ck2 w3)
         else if final' (err' r) then Some (Returned (r, ck1, w1)) else Some Panic) = Some x"
    obtain r1 ck1 w1 where t: "shardkv_try call key ck w = Some (r1, ck1, w1)"
      using body unfolding eqs by (cases "shardkv_try call key ck w") auto
    note k = try_keeps [OF I t]
    show "I w' \<and> rcks_ok cid ck' \<and> good r w' \<and> final (err r)"
    proof (cases "err r1 = ErrWrongGroup \<or> err r1 = ErrRetryExhausted")
      case True
      then obtain ck2 w2 w3 where s: "shardkv_refreshConfig ck1 w1 = Some (ck2, w2)" "shardkv_backoffWithJitter ck2 retry w2 = Some w3"
        "f call' err' final' key (retry + 1) ck2 w3 = Some x"
        using body unfolding eqs t by (simp split: option.splits) (auto simp: bind_eq_Some_conv)
      have "I w3" "rcks_ok cid ck2"
        using k refresh_keeps [OF _ s(1)] refresh_rcks [OF s(1)] pause_keeps [OF _ s(2) [unfolded shardkv_backoffWithJitter_def]] by simp_all
      then show ?thesis using IH [OF s(3)] eqs by simp
    next
      case False
      then have "final (err r1) \<and> r = r1 \<and> ck' = ck1 \<and> w' = w1"
        using body unfolding eqs t by (cases "final (err r1)") simp_all
      with False k show ?thesis by simp
    qed
  qed
  then show ?thesis using assms(2,3) by simp
qed

end

section \<open>The rest of the system\<close>

text \<open>
  Nobody else uses the clerk's id with a later request id or with the same one for another put.
  Copies of the put itself, and late copies of earlier ones, may arrive at any time.
\<close>

definition not_mine :: "PutArgs \<Rightarrow> PutArgs \<Rightarrow> bool" where
  "not_mine a b \<longleftrightarrow> (pa_ClientId b = pa_ClientId a \<longrightarrow> pa_RequestId b \<le> pa_RequestId a \<and> (request b = request a \<longrightarrow> b = a))"

fun event_ok :: "PutArgs \<Rightarrow> sys_event \<Rightarrow> bool" where
  "event_ok a (Client g (SPut b)) \<longleftrightarrow> not_mine a b"
| "event_ok a _ \<longleftrightarrow> True"

definition plan_ok :: "PutArgs \<Rightarrow> sk_world \<Rightarrow> bool" where
  "plan_ok a w \<longleftrightarrow> list_all (\<lambda>p. list_all (event_ok a) (fst p)) (k_plan w) \<and> list_all (list_all (event_ok a)) (k_queries w)"

definition put_inv :: "(Tgid \<times> string list) list \<Rightarrow> PutArgs \<Rightarrow> sk_world \<Rightarrow> bool" where
  "put_inv gs a w \<longleftrightarrow> sys_reachable gs (k_sys w) \<and> list_all (not_mine a) (s_done (k_sys w)) \<and> plan_ok a w"

lemma done_grows:
  assumes "sys_exec e s = Some s'"
  shows "s_done s' = s_done s \<or> (\<exists>g b. e = Client g (SPut b) \<and> s_done s' = s_done s @ [b])"
  using done_step [OF assms] by (cases e) (simp_all split: sg_req.splits if_splits)

lemma sys_try_keeps:
  assumes "sys_reachable gs s"
  shows "sys_reachable gs (sys_try e s)"
    "list_all (not_mine a) (s_done s) \<Longrightarrow> event_ok a e \<Longrightarrow> list_all (not_mine a) (s_done (sys_try e s))"
proof -
  show "sys_reachable gs (sys_try e s)" using assms sys_reachable.step [OF assms] by (auto simp: sys_try_def split: option.splits)
  assume "list_all (not_mine a) (s_done s)" "event_ok a e"
  then show "list_all (not_mine a) (s_done (sys_try e s))"
    by (cases "sys_exec e s") (auto simp: sys_try_def dest!: done_grows)
qed

lemma sys_others_keeps:
  assumes "sys_reachable gs s"
  shows "sys_reachable gs (sys_others es s)"
    "list_all (not_mine a) (s_done s) \<Longrightarrow> list_all (event_ok a) es \<Longrightarrow> list_all (not_mine a) (s_done (sys_others es s))"
  using assms by (induction es arbitrary: s) (simp_all add: sys_others_def sys_try_keeps)

lemma put_inv_others:
  assumes "put_inv gs a w" "list_all (event_ok a) es" "set ps \<subseteq> set (k_plan w)" "set qs \<subseteq> set (k_queries w)"
  shows "put_inv gs a (w\<lparr>k_sys := sys_others es (k_sys w), k_plan := ps, k_queries := qs\<rparr>)"
  using assms sys_others_keeps(1) [of gs "k_sys w" es] sys_others_keeps(2) [of gs "k_sys w" a es] by (auto simp: put_inv_def plan_ok_def list_all_iff)

lemma pause_sys:
  assumes "sk_pause cap base k w = Some w'"
  shows "k_sys w' = k_sys w" "k_plan w' = k_plan w" "k_queries w' = k_queries w"
  using assms by (auto simp: sk_pause_def bind_eq_Some_conv)

lemma refresh_world:
  assumes "shardkv_refreshConfig ck w = Some (ck', w')"
  shows "w' = w\<lparr>k_sys := sys_others (case k_queries w of [] \<Rightarrow> [] | es # _ \<Rightarrow> es) (k_sys w), k_plan := k_plan w, k_queries := tl (k_queries w)\<rparr>"
  using assms by (auto simp: shardkv_refreshConfig_def Let_def bind_eq_Some_conv)

lemma put_inv_refresh: "put_inv gs a w \<Longrightarrow> shardkv_refreshConfig ck w = Some (ck', w') \<Longrightarrow> put_inv gs a w'"
  unfolding refresh_world [of ck w ck' w']
  by (rule put_inv_others) (cases "k_queries w"; auto simp: put_inv_def plan_ok_def)+

text \<open>An RPC: what the other events did, and then its own execution, if any.\<close>

lemma sys_rpc_cases:
  assumes "sys_rpc handler gid q srv w = (r, w')"
  obtains (none) "w' = w" "r = None"
  | (others) es fate rest where "k_plan w = (es, fate) # rest" "w' = w\<lparr>k_sys := sys_others es (k_sys w), k_plan := rest\<rparr>"
      "r = None \<or> r = handler (\<lambda>_. (ErrWrongLeader, SNil))"
  | (executed) es fate rest s kv p s' where "k_plan w = (es, fate) # rest" "s = sys_others es (k_sys w)"
      "shardgrp_DoOp (s_groups s gid) q = Some (kv, p)" "exec_client gid q s = Some s'" "w' = w\<lparr>k_sys := s', k_plan := rest\<rparr>"
      "r = None \<or> r = handler (\<lambda>_. (ErrWrongLeader, SNil)) \<or> r = handler (\<lambda>_. (OK, p))"
proof (cases "k_plan w")
  case Nil
  then show thesis using none assms by (simp add: sys_rpc_def)
next
  case (Cons x rest)
  obtain es fate where x: "x = (es, fate)" by force
  let ?s = "sys_others es (k_sys w)"
  let ?w = "w\<lparr>k_sys := ?s, k_plan := rest\<rparr>" and ?ref = "handler (\<lambda>_. (ErrWrongLeader, SNil))"
  have run: "(case fate of Dropped \<Rightarrow> (None, ?w) | Refused \<Rightarrow> (?ref, ?w)
    | _ \<Rightarrow> (case (shardgrp_DoOp (s_groups ?s gid) q, exec_client gid q ?s) of
         (Some (_, p), Some s') \<Rightarrow>
           ((case fate of Answered \<Rightarrow> handler (\<lambda>_. (OK, p)) | RefusedLate \<Rightarrow> ?ref | _ \<Rightarrow> None), ?w\<lparr>k_sys := s'\<rparr>)
       | _ \<Rightarrow> (None, ?w))) = (r, w')"
    using assms unfolding sys_rpc_def Cons x Let_def by simp
  show thesis
  proof (cases "fate = Dropped \<or> fate = Refused")
    case True
    then show thesis using others [OF Cons [unfolded x]] run by auto
  next
    case False
    show thesis
    proof (cases "shardgrp_DoOp (s_groups ?s gid) q = None \<or> exec_client gid q ?s = None")
      case True
      then have "(None, ?w) = (r, w')"
        using run False by (cases fate; cases "shardgrp_DoOp (s_groups ?s gid) q") (simp_all split: prod.splits)
      then show thesis using others [OF Cons [unfolded x]] by simp
    next
      case ok: False
      then obtain kv p s' where e: "shardgrp_DoOp (s_groups ?s gid) q = Some (kv, p)" "exec_client gid q ?s = Some s'" by auto
      have "w' = ?w\<lparr>k_sys := s'\<rparr>" "r = None \<or> r = ?ref \<or> r = handler (\<lambda>_. (OK, p))"
        using run False unfolding e by (cases fate; simp)+
      then show thesis using executed [OF Cons [unfolded x] refl e] by simp
    qed
  qed
qed

lemma sys_call_Put_keeps:
  assumes "put_inv gs a w" "sys_call_Put gid a srv w = (r, w')"
  shows "put_inv gs a w' \<and> (\<forall>x. r = Some x \<longrightarrow> pr_Err x = ErrWrongLeader \<or> pr_Err x = ErrWrongGroup \<or>
    a \<in> set (s_done (k_sys w')) \<and> pr_Err x = answer_of (s_done (k_sys w')) a)"
  using assms(2) unfolding sys_call_Put_def
proof (cases rule: sys_rpc_cases)
  case none
  then show ?thesis using assms(1) by simp
next
  case (others es fate rest)
  have "put_inv gs a (w\<lparr>k_sys := sys_others es (k_sys w), k_plan := rest, k_queries := k_queries w\<rparr>)"
    by (rule put_inv_others [OF assms(1)]) (use assms(1) others(1) in \<open>auto simp: put_inv_def plan_ok_def\<close>)
  then show ?thesis using others(2,3) by (auto simp: shardgrp_Put_def)
next
  case (executed es fate rest s kv p s')
  have "put_inv gs a (w\<lparr>k_sys := s, k_plan := rest, k_queries := k_queries w\<rparr>)" unfolding executed(2)
    by (rule put_inv_others [OF assms(1)]) (use assms(1) executed(1) in \<open>auto simp: put_inv_def plan_ok_def\<close>)
  then have s: "sys_reachable gs s" "list_all (not_mine a) (s_done s)" "plan_ok a (w\<lparr>k_plan := rest\<rparr>)"
    by (auto simp: put_inv_def plan_ok_def)
  have "proper (Client gid (SPut a)) s" using s(2) by (auto simp: list_all_iff not_mine_def)
  from sys_reachable.step [OF s(1) this, of s'] have "sys_reachable gs s'" using executed(4) by simp
  moreover have "list_all (not_mine a) (s_done s')" using s(2) done_grows [of "Client gid (SPut a)" s s'] executed(4) by (auto simp: not_mine_def)
  ultimately have "put_inv gs a w'" using s(3) executed(5) by (simp add: put_inv_def plan_ok_def)
  moreover obtain pr where pr: "shardgrp_DoOp_Put (s_groups s gid) a = Some (kv, pr)" "p = SPutRep pr" using executed(3) by auto
  have "a \<in> set (s_done s') \<and> pr_Err pr = answer_of (s_done s') a" if "pr_Err pr \<noteq> ErrWrongGroup"
    using put_answer [OF s(1) _ pr(1) executed(4) that] s(2) by (auto simp: list_all_iff not_mine_def)
  ultimately show ?thesis using executed(5,6) pr(2) by (auto simp: shardgrp_Put_def)
qed

lemma Put_with_id:
  assumes "shardgrp_Put_with call sleep gck q key val ver w = Some (gck', e, w')" shows "gc_clientId gck' = gc_clientId gck"
  using assms by (auto simp: shardgrp_Put_with_def bind_eq_Some_conv split: option.splits)

lemma Get_with_id:
  assumes "shardgrp_Get_with call sleep gck key w = Some (gck', e, w')" shows "gc_clientId gck' = gc_clientId gck"
  using assms by (auto simp: shardgrp_Get_with_def bind_eq_Some_conv split: option.splits)

lemma put_inv_pause: "put_inv gs a w \<Longrightarrow> sk_pause cap base k w = Some w' \<Longrightarrow> put_inv gs a w'"
  by (auto simp: put_inv_def plan_ok_def dest: pause_sys)

definition executed_as :: "PutArgs \<Rightarrow> Err \<Rightarrow> sk_world \<Rightarrow> bool" where
  "executed_as a e w \<longleftrightarrow> a \<in> set (s_done (k_sys w)) \<and> e = answer_of (s_done (k_sys w)) a"

lemma Put_with_keeps:
  assumes "put_inv gs a w" "shardgrp_Put_with (sys_call_Put gid) sys_backoff gck reqId key val version w = Some (gck', e, w')"
    and a: "a = \<lparr>pa_ClientId = gc_clientId gck, pa_RequestId = reqId, pa_Key = key, pa_Value = val, pa_Version = version\<rparr>"
  shows "put_inv gs a w' \<and> (e = ErrWrongGroup \<or> e = ErrRetryExhausted \<or> executed_as a e w')"
proof -
  obtain r where r: "ask_rounds (sys_call_Put gid a) pr_Err {OK, ErrNoKey, ErrWrongGroup, ErrVersion} (sys_backoff gck) (gc_servers gck)
      (nat (gc_maxAttempts gck)) 0 (gc_leader gck) w = Some (r, w')" "(r = None \<longrightarrow> e = ErrRetryExhausted) \<and> (\<forall>x l. r = Some (x, l) \<longrightarrow> e = pr_Err x)"
  proof -
    obtain r w1 where 1: "ask_rounds (sys_call_Put gid a) pr_Err {OK, ErrNoKey, ErrWrongGroup, ErrVersion} (sys_backoff gck) (gc_servers gck)
        (nat (gc_maxAttempts gck)) 0 (gc_leader gck) w = Some (r, w1)"
      "(case r of Some (reply, leader) \<Rightarrow> (gck\<lparr>gc_leader := leader\<rparr>, pr_Err reply, w1) | None \<Rightarrow> (gck, ErrRetryExhausted, w1)) = (gck', e, w')"
      using assms(2) unfolding shardgrp_Put_with_def a [symmetric] bind_eq_Some_conv by force
    then show thesis using that [of r] by (cases r) auto
  qed
  let ?P = "\<lambda>x w'. pr_Err x = ErrWrongLeader \<or> pr_Err x = ErrWrongGroup \<or> executed_as a (pr_Err x) w'"
  have "put_inv gs a w' \<and> (\<forall>x l. r = Some (x, l) \<longrightarrow> ?P x w' \<and> pr_Err x \<in> {OK, ErrNoKey, ErrWrongGroup, ErrVersion})"
  proof (rule ask_rounds_keeps [where I = "put_inv gs a" and P = ?P, OF r(1) assms(1)])
    show "put_inv gs a w' \<and> (\<forall>x. r = Some x \<longrightarrow> ?P x w')" if "put_inv gs a w" "sys_call_Put gid a srv w = (r, w')" for srv w r w'
      unfolding executed_as_def by (rule sys_call_Put_keeps [OF that])
    show "put_inv gs a w'" if "put_inv gs a w" "sys_backoff gck k w = Some w'" for k w w'
      using put_inv_pause [OF that [unfolded sys_backoff_def]] .
  qed
  then show ?thesis using r(2) by (cases r) auto
qed

interpretation sk_put: shard_call "\<lambda>gid gck. shardgrp_Put_with (sys_call_Put gid) sys_backoff gck reqId key val version" id
  "put_inv gs \<lparr>pa_ClientId = cid, pa_RequestId = reqId, pa_Key = key, pa_Value = val, pa_Version = version\<rparr>"
  "executed_as \<lparr>pa_ClientId = cid, pa_RequestId = reqId, pa_Key = key, pa_Value = val, pa_Version = version\<rparr>" cid
  for gs reqId key val version cid
proof (unfold_locales, goal_cases)
  case (1 w gck gid gck' e w')
  then show ?case using Put_with_keeps [OF 1(1,3)] Put_with_id [OF 1(3)] by simp
next
  case (2 w ck ck' w')
  then show ?case by (rule put_inv_refresh)
next
  case (3 w cap base k w')
  then show ?case by (rule put_inv_pause)
qed

text \<open>Get: what is kept is that the state is reachable.\<close>

definition get_inv :: "(Tgid \<times> string list) list \<Rightarrow> sk_world \<Rightarrow> bool" where
  "get_inv gs w \<longleftrightarrow> sys_reachable gs (k_sys w)"

definition read_as :: "string \<Rightarrow> string \<times> Tversion \<times> Err \<Rightarrow> sk_world \<Rightarrow> bool" where
  "read_as key r w \<longleftrightarrow> (let rep = spec_get (sys_kv (k_sys w)) key in r = (gr_Value rep, gr_Version rep, gr_Err rep))"

lemma get_inv_others: "get_inv gs w \<Longrightarrow> get_inv gs (w\<lparr>k_sys := sys_others es (k_sys w), k_plan := ps, k_queries := qs\<rparr>)"
  by (simp add: get_inv_def sys_others_keeps)

lemma get_inv_refresh: "get_inv gs w \<Longrightarrow> shardkv_refreshConfig ck w = Some (ck', w') \<Longrightarrow> get_inv gs w'"
  unfolding refresh_world [of ck w ck' w'] by (rule get_inv_others)

lemma get_inv_pause: "get_inv gs w \<Longrightarrow> sk_pause cap base k w = Some w' \<Longrightarrow> get_inv gs w'"
  by (simp add: get_inv_def pause_sys)

lemma sys_call_Get_keeps:
  assumes "get_inv gs w" "sys_call_Get gid b srv w = (r, w')"
  shows "get_inv gs w' \<and> (\<forall>x. r = Some x \<longrightarrow> gr_Err x = ErrWrongLeader \<or> gr_Err x = ErrWrongGroup \<or> x = spec_get (sys_kv (k_sys w')) (ga_Key b))"
  using assms(2) unfolding sys_call_Get_def
proof (cases rule: sys_rpc_cases)
  case none
  then show ?thesis using assms(1) by simp
next
  case (others es fate rest)
  then show ?thesis using get_inv_others [OF assms(1), where es = es and ps = rest and qs = "k_queries w"] by (auto simp: shardgrp_Get_def)
next
  case (executed es fate rest s kv p s')
  have s: "sys_reachable gs s" using get_inv_others [OF assms(1), where es = es and ps = rest and qs = "k_queries w"] executed(2) by (simp add: get_inv_def)
  have inv: "cfg_inv s" "groups_inv s" using sys_reachable_inv [OF s] by (simp_all add: sys_inv_def)
  note form = shardgrp_Get_form [OF groups_invD(1) [OF inv(2)], of gid b]
  have s': "s' = s" using executed(3,4) form by (auto simp: exec_client_def fun_upd_idem_iff)
  let ?x = "if status (s_groups s gid) (Key2Shard (ga_Key b)) = Serving then spec_get (sg_map (s_groups s gid)) (ga_Key b)
    else \<lparr>gr_Value = '''', gr_Version = 0, gr_Err = ErrWrongGroup\<rparr>"
  have "gr_Err ?x = ErrWrongGroup \<or> ?x = spec_get (sys_kv s) (ga_Key b)"
    using placedD(2) [OF groups_invD(2) [OF inv(2) shard_range_Key2Shard] inv(1), where g = gid] by (simp add: spec_get_def sys_kv_def)
  moreover have "p = SGetRep ?x" using executed(3) form by auto
  ultimately show ?thesis using executed(5,6) s s' by (auto simp: shardgrp_Get_def get_inv_def)
qed

lemma Get_with_keeps:
  assumes "get_inv gs w" "shardgrp_Get_with (sys_call_Get gid) sys_backoff gck key w = Some (gck', e, w')"
  shows "get_inv gs w' \<and> (snd (snd e) = ErrWrongGroup \<or> snd (snd e) = ErrRetryExhausted \<or> read_as key e w')"
proof -
  obtain r w1 where r: "ask_rounds (sys_call_Get gid \<lparr>ga_Key = key\<rparr>) gr_Err {OK, ErrNoKey, ErrWrongGroup} (sys_backoff gck) (gc_servers gck)
      (nat (gc_maxAttempts gck)) 0 (gc_leader gck) w = Some (r, w1)"
    "(case r of Some (reply, leader) \<Rightarrow> (gck\<lparr>gc_leader := leader\<rparr>, (gr_Value reply, gr_Version reply, gr_Err reply), w1)
       | None \<Rightarrow> (gck, ('''', 0, ErrRetryExhausted), w1)) = (gck', e, w')"
    using assms(2) unfolding shardgrp_Get_with_def bind_eq_Some_conv by force
  let ?P = "\<lambda>x w'. gr_Err x = ErrWrongLeader \<or> gr_Err x = ErrWrongGroup \<or> x = spec_get (sys_kv (k_sys w')) key"
  have "get_inv gs w1 \<and> (\<forall>x l. r = Some (x, l) \<longrightarrow> ?P x w1 \<and> gr_Err x \<in> {OK, ErrNoKey, ErrWrongGroup})"
  proof (rule ask_rounds_keeps [where I = "get_inv gs" and P = ?P, OF r(1) assms(1)])
    show "get_inv gs w' \<and> (\<forall>x. r = Some x \<longrightarrow> ?P x w')" if "get_inv gs w" "sys_call_Get gid \<lparr>ga_Key = key\<rparr> srv w = (r, w')" for srv w r w'
      using sys_call_Get_keeps [OF that] by simp
    show "get_inv gs w'" if "get_inv gs w" "sys_backoff gck k w = Some w'" for k w w'
      using get_inv_pause [OF that [unfolded sys_backoff_def]] .
  qed
  then show ?thesis using r(2) by (cases r) (auto simp: read_as_def)
qed

interpretation sk_get: shard_call "\<lambda>gid gck. shardgrp_Get_with (sys_call_Get gid) sys_backoff gck key" "\<lambda>(_, _, e). e"
  "get_inv gs" "read_as key" cid
  for gs key cid
proof (unfold_locales, goal_cases)
  case (1 w gck gid gck' e w')
  then show ?case using Get_with_keeps [OF 1(1,3)] Get_with_id [OF 1(3)] by (simp add: case_prod_beta)
next
  case (2 w ck ck' w')
  then show ?case by (rule get_inv_refresh)
next
  case (3 w cap base k w')
  then show ?case by (rule get_inv_pause)
qed

section \<open>Properties\<close>

lemma count_list_distinct: "distinct xs \<Longrightarrow> x \<in> set xs \<Longrightarrow> count_list xs x = 1"
  by (induction xs) (auto simp: count_notin)

lemma shardkv_MakeClerk_ok: "rcks_ok rand (shardkv_MakeClerk rand)"
  by (simp add: rcks_ok_def shardkv_MakeClerk_def)



text \<open>
  A client's first request reaches group 1 only after the whole reconfiguration of
  \<open>move_schedule\<close> and is refused; the client then finds group 2, whose first answer is lost.
\<close>

definition sample_world :: sk_world where
  "sample_world = \<lparr>k_sys = sys_init two_groups, k_plan = [(move_schedule, Answered), ([], AnswerLost), ([], Answered)],
     k_queries = [], k_rand = [], k_slept = []\<rparr>"

lemma sample_Put_returns:
  "case shardkv_Put (shardkv_MakeClerk 9) ''k'' ''x'' 2 sample_world of
     Some (Returned (e, ck, w)) \<Rightarrow> e = OK \<and> map pa_ClientId (s_done (k_sys w)) = [7, 7, 9] \<and> length (k_slept w) = 2
   | _ \<Rightarrow> False"
  by code_simp

lemma sample_Get_returns:
  "case shardkv_Get (shardkv_MakeClerk 9) ''k'' sample_world of
     Some (Returned (r, ck, w)) \<Rightarrow> r = (''v'', 2, OK) | _ \<Rightarrow> False"
  by code_simp

lemma sample_plan_ok:
  "plan_ok \<lparr>pa_ClientId = 9, pa_RequestId = 1, pa_Key = ''k'', pa_Value = ''x'', pa_Version = 2\<rparr> sample_world"
  by code_simp





end
