(* ===== verification/Rpc_Net.thy ===== *)
theory Rpc_Net
  imports Prelude
begin

text \<open>
  The simulated network, \<open>rpc/rpc.go\<close>: client ends that are connected to servers and enabled or not,
  a goroutine per call that may drop the request or the reply, delay it, or give up when the server
  is deleted, and servers that dispatch to the methods of their services. Encoded arguments and
  replies are byte strings; the encoding itself (\<open>labgob\<close>) is not modelled.
\<close>

section \<open>Servers\<close>

text \<open>A service is its methods by name; a method acts on the state \<open>'s\<close> of the server's objects.\<close>

type_synonym 's Service = "string \<rightharpoonup> ('s \<Rightarrow> bytes \<Rightarrow> 's \<times> bytes)"

record 's Server =
  rs_services :: "string \<rightharpoonup> 's Service"
  rs_count :: int
  rs_dispatchf :: "(string \<Rightarrow> bytes \<Rightarrow> 's \<Rightarrow> 's \<times> bytes \<times> bool) option"
  rs_objects :: 's

record replyMsg =
  rep_ok :: bool
  rep_reply :: bytes

definition MakeServer :: "'s \<Rightarrow> 's Server" where
  "MakeServer s = \<lparr>rs_services = Map.empty, rs_count = 0, rs_dispatchf = None, rs_objects = s\<rparr>"

definition AddService :: "string \<Rightarrow> 's Service \<Rightarrow> 's Server \<Rightarrow> 's Server" where
  "AddService name svc rs = rs\<lparr>rs_services := (rs_services rs)(name \<mapsto> svc)\<rparr>"

definition SetDispatch :: "(string \<Rightarrow> bytes \<Rightarrow> 's \<Rightarrow> 's \<times> bytes \<times> bool) \<Rightarrow> 's Server \<Rightarrow> 's Server" where
  "SetDispatch f rs = rs\<lparr>rs_dispatchf := Some f\<rparr>"

text \<open>\<open>strings.LastIndex\<close> of a dot, and the parts before and after it; without a dot the slice expression panics.\<close>

fun split_last_dot :: "string \<Rightarrow> (string \<times> string) option" where
  "split_last_dot [] = None"
| "split_last_dot (c # cs) = (case split_last_dot cs of
       Some (a, b) \<Rightarrow> Some (c # a, b)
     | None \<Rightarrow> if c = CHR ''.'' then Some ([], cs) else None)"

text \<open>\<open>None\<close> is \<open>log.Fatalf\<close> for an unknown service or method, or the panic.\<close>

definition Service_dispatch :: "'s Service \<Rightarrow> string \<Rightarrow> bytes \<Rightarrow> 's \<Rightarrow> ('s \<times> replyMsg) option" where
  "Service_dispatch svc methname args s = (case svc methname of
       None \<Rightarrow> None
     | Some f \<Rightarrow> (case f s args of (s', rep) \<Rightarrow> Some (s', \<lparr>rep_ok = True, rep_reply = rep\<rparr>)))"

definition Server_dispatch :: "string \<Rightarrow> bytes \<Rightarrow> 's Server \<Rightarrow> ('s Server \<times> replyMsg) option" where
  "Server_dispatch svcMeth args rs = (let rs1 = rs\<lparr>rs_count := rs_count rs + 1\<rparr> in do {
     (serviceName, methodName) \<leftarrow> split_last_dot svcMeth;
     (case rs_dispatchf rs1 of
        Some f \<Rightarrow> (case f svcMeth args (rs_objects rs1) of
            (s', rep, ok) \<Rightarrow> Some (rs1\<lparr>rs_objects := s'\<rparr>, \<lparr>rep_ok = ok, rep_reply = rep\<rparr>))
      | None \<Rightarrow> do {
          svc \<leftarrow> rs_services rs1 serviceName;
          (s', rep) \<leftarrow> Service_dispatch svc methodName args (rs_objects rs1);
          Some (rs1\<lparr>rs_objects := s'\<rparr>, rep) }) })"

section \<open>The network\<close>

abbreviation (input) SHORTDELAY :: int where "SHORTDELAY \<equiv> 27"
abbreviation (input) LONGDELAY :: int where "LONGDELAY \<equiv> 7000"
abbreviation (input) DROPRATE :: int where "DROPRATE \<equiv> 100"

text \<open>
  Servers are held by pointer: \<open>rn_heap\<close> has the server objects, \<open>rn_servers\<close> a pointer or nil for
  each name. A missing key of \<open>enabled\<close> reads as false and one of the others as nil.
\<close>

record 's Network =
  rn_reliable :: bool
  rn_longDelays :: bool
  rn_longReordering :: bool
  rn_ends :: "string list"
  rn_enabled :: "string \<rightharpoonup> bool"
  rn_servers :: "string \<rightharpoonup> nat option"
  rn_connections :: "string \<rightharpoonup> string option"
  rn_done :: bool
  rn_count :: "32 word"
  rn_bytes :: "64 word"
  rn_dropRate :: "32 word"
  rn_shortDelayMs :: "32 word"
  rn_longDelayMs :: "32 word"
  rn_heap :: "'s Server list"

definition MakeNetwork :: "'s Network" where
  "MakeNetwork = \<lparr>rn_reliable = True, rn_longDelays = False, rn_longReordering = False, rn_ends = [], rn_enabled = Map.empty,
     rn_servers = Map.empty, rn_connections = Map.empty, rn_done = False, rn_count = 0, rn_bytes = 0,
     rn_dropRate = word_of_int DROPRATE, rn_shortDelayMs = word_of_int SHORTDELAY, rn_longDelayMs = word_of_int LONGDELAY, rn_heap = []\<rparr>"

definition Cleanup :: "'s Network \<Rightarrow> 's Network option" where
  "Cleanup rn = (if rn_done rn then None else Some (rn\<lparr>rn_done := True\<rparr>))"

definition Reliable :: "bool \<Rightarrow> 's Network \<Rightarrow> 's Network" where
  "Reliable yes rn = rn\<lparr>rn_reliable := yes\<rparr>"

definition LongReordering :: "bool \<Rightarrow> 's Network \<Rightarrow> 's Network" where
  "LongReordering yes rn = rn\<lparr>rn_longReordering := yes\<rparr>"

definition LongDelays :: "bool \<Rightarrow> 's Network \<Rightarrow> 's Network" where
  "LongDelays yes rn = rn\<lparr>rn_longDelays := yes\<rparr>"

text \<open>The settings are stored as \<open>int32\<close>.\<close>

definition SetDropRate :: "int \<Rightarrow> 's Network \<Rightarrow> 's Network" where
  "SetDropRate rate rn = (let r = (if rate < 0 then 0 else rate); r = (if r > 1000 then 1000 else r) in rn\<lparr>rn_dropRate := word_of_int r\<rparr>)"

definition GetDropRate :: "'s Network \<Rightarrow> int" where
  "GetDropRate rn = sint (rn_dropRate rn)"

definition SetShortDelayMs :: "int \<Rightarrow> 's Network \<Rightarrow> 's Network" where
  "SetShortDelayMs ms rn = rn\<lparr>rn_shortDelayMs := word_of_int (if ms < 0 then 0 else ms)\<rparr>"

definition GetShortDelayMs :: "'s Network \<Rightarrow> int" where
  "GetShortDelayMs rn = sint (rn_shortDelayMs rn)"

definition SetLongDelayMs :: "int \<Rightarrow> 's Network \<Rightarrow> 's Network" where
  "SetLongDelayMs ms rn = rn\<lparr>rn_longDelayMs := word_of_int (if ms < 0 then 0 else ms)\<rparr>"

definition GetLongDelayMs :: "'s Network \<Rightarrow> int" where
  "GetLongDelayMs rn = sint (rn_longDelayMs rn)"

text \<open>Ends and servers; \<open>None\<close> is \<open>log.Fatalf\<close>.\<close>

definition MakeEnd :: "string \<Rightarrow> 's Network \<Rightarrow> 's Network option" where
  "MakeEnd endname rn = (if endname \<in> set (rn_ends rn) then None
     else Some (rn\<lparr>rn_ends := endname # rn_ends rn, rn_enabled := (rn_enabled rn)(endname \<mapsto> False),
       rn_connections := (rn_connections rn)(endname \<mapsto> None)\<rparr>))"

definition LookupEnd :: "string \<Rightarrow> 's Network \<Rightarrow> string option" where
  "LookupEnd endname rn = (if endname \<in> set (rn_ends rn) then Some endname else None)"

definition DeleteEnd :: "string \<Rightarrow> 's Network \<Rightarrow> 's Network option" where
  "DeleteEnd endname rn = (if endname \<notin> set (rn_ends rn) then None
     else Some (rn\<lparr>rn_ends := removeAll endname (rn_ends rn), rn_enabled := (rn_enabled rn)(endname := None),
       rn_connections := (rn_connections rn)(endname := None)\<rparr>))"

definition AddServer :: "string \<Rightarrow> 's Server \<Rightarrow> 's Network \<Rightarrow> 's Network" where
  "AddServer servername rs rn =
     rn\<lparr>rn_heap := rn_heap rn @ [rs], rn_servers := (rn_servers rn)(servername \<mapsto> Some (length (rn_heap rn)))\<rparr>"

definition DeleteServer :: "string \<Rightarrow> 's Network \<Rightarrow> 's Network" where
  "DeleteServer servername rn = rn\<lparr>rn_servers := (rn_servers rn)(servername \<mapsto> None)\<rparr>"

definition Connect :: "string \<Rightarrow> string \<Rightarrow> 's Network \<Rightarrow> 's Network" where
  "Connect endname servername rn = rn\<lparr>rn_connections := (rn_connections rn)(endname \<mapsto> Some servername)\<rparr>"

definition Enable :: "string \<Rightarrow> bool \<Rightarrow> 's Network \<Rightarrow> 's Network" where
  "Enable endname en rn = rn\<lparr>rn_enabled := (rn_enabled rn)(endname \<mapsto> en)\<rparr>"

definition server_at :: "'s Network \<Rightarrow> string \<Rightarrow> nat option" where
  "server_at rn servername = (case rn_servers rn servername of None \<Rightarrow> None | Some p \<Rightarrow> p)"

text \<open>The count of a server; calling it on a deleted one panics.\<close>

definition GetCount :: "string \<Rightarrow> 's Network \<Rightarrow> int option" where
  "GetCount servername rn = map_option (\<lambda>p. rs_count (rn_heap rn ! p)) (server_at rn servername)"

definition is_enabled :: "'s Network \<Rightarrow> string \<Rightarrow> bool" where
  "is_enabled rn endname \<longleftrightarrow> rn_enabled rn endname = Some True"

text \<open>Enabled, the server's name and pointer, reliable, long reordering.\<close>

definition readEndnameInfo :: "string \<Rightarrow> 's Network \<Rightarrow> bool \<times> string option \<times> nat option \<times> bool \<times> bool" where
  "readEndnameInfo endname rn =
     (let servername = (case rn_connections rn endname of None \<Rightarrow> None | Some n \<Rightarrow> n)
      in (is_enabled rn endname, servername, (case servername of None \<Rightarrow> None | Some n \<Rightarrow> server_at rn n),
          rn_reliable rn, rn_longReordering rn))"

definition isServerDead :: "string \<Rightarrow> string \<Rightarrow> nat \<Rightarrow> 's Network \<Rightarrow> bool" where
  "isServerDead endname servername server rn \<longleftrightarrow> \<not> is_enabled rn endname \<or> server_at rn servername \<noteq> Some server"

section \<open>Calls\<close>

text \<open>
  Where a call is. \<open>Admitted\<close> to \<open>Replied\<close> carry what \<open>processReq\<close> has read: the server's name and
  pointer, reliable, long reordering; from \<open>Serving\<close> on also the drop rate.
\<close>

datatype call_pc =
    Sending                                           \<comment> \<open>in Call, before the request is taken\<close>
  | Admitted string nat bool bool
  | Serving string nat bool bool int                  \<comment> \<open>the loop that waits for the handler\<close>
  | Replied string nat bool bool int replyMsg         \<comment> \<open>after the loop, with a reply\<close>
  | Timer replyMsg                                    \<comment> \<open>\<open>time.AfterFunc\<close> will send the reply\<close>
  | Done replyMsg                                     \<comment> \<open>Call has returned\<close>

text \<open>The goroutine that runs the handler; it goes on when \<open>processReq\<close> has given up.\<close>

datatype handler = NotStarted | Started nat | Finished replyMsg

text \<open>\<open>q_execs\<close> counts the runs of the handler and \<open>q_slept\<close> lists the delays in ms.\<close>

record call =
  q_endname :: string
  q_svcMeth :: string
  q_args :: bytes
  q_pc :: call_pc
  q_handler :: handler
  q_execs :: nat
  q_slept :: "int list"

definition lost :: replyMsg where
  "lost = \<lparr>rep_ok = False, rep_reply = []\<rparr>"

definition Call :: "string \<Rightarrow> string \<Rightarrow> bytes \<Rightarrow> call" where
  "Call endname svcMeth args =
     \<lparr>q_endname = endname, q_svcMeth = svcMeth, q_args = args, q_pc = Sending, q_handler = NotStarted, q_execs = 0, q_slept = []\<rparr>"

record 's net =
  n_net :: "'s Network"
  n_calls :: "call list"

definition count_bytes :: "bytes \<Rightarrow> 's Network \<Rightarrow> 's Network" where
  "count_bytes bs rn = rn\<lparr>rn_bytes := rn_bytes rn + word_of_nat (length bs)\<rparr>"

text \<open>The network's goroutine takes the request and \<open>processReq\<close> begins; \<open>r\<close> is the random delay of a dead connection.\<close>

definition processReq :: "int \<Rightarrow> call \<Rightarrow> 's Network \<Rightarrow> call \<times> 's Network" where
  "processReq r q rn =
     (let rn1 = count_bytes (q_args q) (rn\<lparr>rn_count := rn_count rn + 1\<rparr>) in
      (case readEndnameInfo (q_endname q) rn1 of
         (True, Some servername, Some server, reliable, longreordering) \<Rightarrow> q\<lparr>q_pc := Admitted servername server reliable longreordering\<rparr>
       | _ \<Rightarrow>
           let ms = (if rn_longDelays rn1 then (if GetLongDelayMs rn1 > 0 then r mod GetLongDelayMs rn1 else 0) else r mod 100)
           in q\<lparr>q_pc := Timer lost, q_slept := q_slept q @ [ms]\<rparr>, rn1))"

text \<open>The short delay, and the decision to drop the request or to start the handler.\<close>

definition processReq_start :: "int \<Rightarrow> int \<Rightarrow> call \<Rightarrow> 's Network \<Rightarrow> call" where
  "processReq_start r1 r2 q rn = (case q_pc q of
       Admitted servername server reliable longreordering \<Rightarrow>
         let q1 = (if \<not> reliable \<and> GetShortDelayMs rn > 0 then q\<lparr>q_slept := q_slept q @ [r1 mod GetShortDelayMs rn]\<rparr> else q);
             dropRate = GetDropRate rn
         in if \<not> reliable \<and> r2 mod 1000 < dropRate then q1\<lparr>q_pc := Done lost\<rparr>
            else q1\<lparr>q_pc := Serving servername server reliable longreordering dropRate, q_handler := Started server\<rparr>
     | _ \<Rightarrow> q)"

text \<open>The handler runs; \<open>None\<close> ends the process.\<close>

definition run_handler :: "call \<Rightarrow> 's Network \<Rightarrow> (call \<times> 's Network) option" where
  "run_handler q rn = (case q_handler q of
       Started p \<Rightarrow> if p < length (rn_heap rn) then do {
           (rs, rep) \<leftarrow> Server_dispatch (q_svcMeth q) (q_args q) (rn_heap rn ! p);
           Some (q\<lparr>q_handler := Finished rep, q_execs := q_execs q + 1\<rparr>, rn\<lparr>rn_heap := (rn_heap rn)[p := rs]\<rparr>) }
         else None
     | _ \<Rightarrow> Some (q, rn))"

text \<open>The two cases of the waiting loop: a reply arrives; after 100 ms the server is found dead.\<close>

definition wait_reply :: "call \<Rightarrow> call" where
  "wait_reply q = (case (q_pc q, q_handler q) of
       (Serving servername server reliable longreordering dropRate, Finished rep) \<Rightarrow>
         q\<lparr>q_pc := Replied servername server reliable longreordering dropRate rep\<rparr>
     | _ \<Rightarrow> q)"

definition wait_timeout :: "call \<Rightarrow> 's Network \<Rightarrow> call" where
  "wait_timeout q rn = (case q_pc q of
       Serving servername server reliable longreordering dropRate \<Rightarrow>
         if isServerDead (q_endname q) servername server rn then q\<lparr>q_pc := Done lost\<rparr> else q
     | _ \<Rightarrow> q)"

text \<open>The end of \<open>processReq\<close>.\<close>

definition processReq_reply :: "int \<Rightarrow> int \<Rightarrow> int \<Rightarrow> int \<Rightarrow> call \<Rightarrow> 's Network \<Rightarrow> call \<times> 's Network" where
  "processReq_reply r1 r2 r3 r4 q rn = (case q_pc q of
       Replied servername server reliable longreordering dropRate rep \<Rightarrow>
         if isServerDead (q_endname q) servername server rn then (q\<lparr>q_pc := Done lost\<rparr>, rn)
         else if \<not> reliable \<and> r1 mod 1000 < dropRate then (q\<lparr>q_pc := Done lost\<rparr>, rn)
         else if longreordering \<and> r2 mod 900 < 600
           then (q\<lparr>q_pc := Timer rep, q_slept := q_slept q @ [200 + r4 mod (1 + r3 mod 2000)]\<rparr>, rn)
         else (q\<lparr>q_pc := Done rep\<rparr>, count_bytes (rep_reply rep) rn)
     | _ \<Rightarrow> (q, rn))"

definition timer_fires :: "call \<Rightarrow> 's Network \<Rightarrow> call \<times> 's Network" where
  "timer_fires q rn = (case q_pc q of Timer rep \<Rightarrow> (q\<lparr>q_pc := Done rep\<rparr>, count_bytes (rep_reply rep) rn) | _ \<Rightarrow> (q, rn))"

text \<open>A call that is not taken returns when the network is cleaned up.\<close>

definition call_done :: "call \<Rightarrow> 's Network \<Rightarrow> call" where
  "call_done q rn = (case q_pc q of Sending \<Rightarrow> if rn_done rn then q\<lparr>q_pc := Done lost\<rparr> else q | _ \<Rightarrow> q)"

datatype 's management =
    MMakeEnd string | MDeleteEnd string | MAddServer string "'s Server" | MDeleteServer string | MConnect string string | MEnable string bool
  | MReliable bool | MLongReordering bool | MLongDelays bool | MDropRate int | MShortDelay int | MLongDelay int | MCleanup

fun manage :: "'s management \<Rightarrow> 's Network \<Rightarrow> 's Network option" where
  "manage (MMakeEnd e) rn = MakeEnd e rn"
| "manage (MDeleteEnd e) rn = DeleteEnd e rn"
| "manage (MAddServer n rs) rn = Some (AddServer n rs rn)"
| "manage (MDeleteServer n) rn = Some (DeleteServer n rn)"
| "manage (MConnect e n) rn = Some (Connect e n rn)"
| "manage (MEnable e b) rn = Some (Enable e b rn)"
| "manage (MReliable b) rn = Some (Reliable b rn)"
| "manage (MLongReordering b) rn = Some (LongReordering b rn)"
| "manage (MLongDelays b) rn = Some (LongDelays b rn)"
| "manage (MDropRate r) rn = Some (SetDropRate r rn)"
| "manage (MShortDelay r) rn = Some (SetShortDelayMs r rn)"
| "manage (MLongDelay r) rn = Some (SetLongDelayMs r rn)"
| "manage MCleanup rn = Cleanup rn"

text \<open>The steps of a call, with the random numbers they draw.\<close>

datatype call_step = Take int | Start int int | Handle | Receive | Timeout | Reply int int int int | Fire | NetDone

fun call_exec :: "call_step \<Rightarrow> call \<Rightarrow> 's Network \<Rightarrow> (call \<times> 's Network) option" where
  "call_exec (Take r) q rn = Some (case q_pc q of Sending \<Rightarrow> processReq r q rn | _ \<Rightarrow> (q, rn))"
| "call_exec (Start r1 r2) q rn = Some (processReq_start r1 r2 q rn, rn)"
| "call_exec Handle q rn = run_handler q rn"
| "call_exec Receive q rn = Some (wait_reply q, rn)"
| "call_exec Timeout q rn = Some (wait_timeout q rn, rn)"
| "call_exec (Reply r1 r2 r3 r4) q rn = Some (processReq_reply r1 r2 r3 r4 q rn)"
| "call_exec Fire q rn = Some (timer_fires q rn)"
| "call_exec NetDone q rn = Some (call_done q rn, rn)"

datatype 's net_event = Manage "'s management" | NewCall string string bytes | CallStep nat call_step

fun net_exec :: "'s net_event \<Rightarrow> 's net \<Rightarrow> 's net option" where
  "net_exec (Manage m) n = map_option (\<lambda>rn. n\<lparr>n_net := rn\<rparr>) (manage m (n_net n))"
| "net_exec (NewCall e m args) n = Some (n\<lparr>n_calls := n_calls n @ [Call e m args]\<rparr>)"
| "net_exec (CallStep i st) n = (if i < length (n_calls n) then
     map_option (\<lambda>(q, rn). n\<lparr>n_net := rn, n_calls := (n_calls n)[i := q]\<rparr>) (call_exec st (n_calls n ! i) (n_net n)) else Some n)"

fun net_run :: "'s net_event list \<Rightarrow> 's net \<Rightarrow> 's net option" where
  "net_run [] n = Some n"
| "net_run (e # es) n = do { n' \<leftarrow> net_exec e n; net_run es n' }"

definition net_init :: "'s net" where
  "net_init = \<lparr>n_net = MakeNetwork, n_calls = []\<rparr>"

section \<open>The invariant\<close>

definition pointers_ok :: "'s Network \<Rightarrow> bool" where
  "pointers_ok rn \<longleftrightarrow> (\<forall>n p. server_at rn n = Some p \<longrightarrow> p < length (rn_heap rn))"

fun pc_ok :: "nat \<Rightarrow> handler \<Rightarrow> call_pc \<Rightarrow> bool" where
  "pc_ok sz h Sending \<longleftrightarrow> h = NotStarted"
| "pc_ok sz h (Admitted n p rel reo) \<longleftrightarrow> h = NotStarted \<and> p < sz"
| "pc_ok sz h (Serving n p rel reo d) \<longleftrightarrow> h \<noteq> NotStarted"
| "pc_ok sz h (Replied n p rel reo d rep) \<longleftrightarrow> h = Finished rep"
| "pc_ok sz h (Timer rep) \<longleftrightarrow> rep = lost \<or> h = Finished rep"
| "pc_ok sz h (Done rep) \<longleftrightarrow> rep = lost \<or> h = Finished rep"

definition handler_ok :: "nat \<Rightarrow> handler \<Rightarrow> nat \<Rightarrow> bool" where
  "handler_ok sz h execs \<longleftrightarrow> (case h of NotStarted \<Rightarrow> execs = 0 | Started p \<Rightarrow> execs = 0 \<and> p < sz | Finished rep \<Rightarrow> execs = 1)"

definition call_ok :: "nat \<Rightarrow> call \<Rightarrow> bool" where
  "call_ok sz q \<longleftrightarrow> pc_ok sz (q_handler q) (q_pc q) \<and> handler_ok sz (q_handler q) (q_execs q)"

definition net_inv :: "'s net \<Rightarrow> bool" where
  "net_inv n \<longleftrightarrow> pointers_ok (n_net n) \<and> list_all (call_ok (length (rn_heap (n_net n)))) (n_calls n)"

lemma call_ok_mono: "call_ok k q \<Longrightarrow> k \<le> m \<Longrightarrow> call_ok m q"
  by (cases "q_pc q"; cases "q_handler q") (auto simp: call_ok_def handler_ok_def)

lemma calls_mono: "list_all (call_ok k) qs \<Longrightarrow> k \<le> m \<Longrightarrow> list_all (call_ok m) qs"
  by (erule list.pred_mono_strong) (rule call_ok_mono)

lemma server_at_update:
  "server_at (rn\<lparr>rn_heap := h\<rparr>) n = server_at rn n" "server_at (rn\<lparr>rn_count := c\<rparr>) n = server_at rn n"
  "server_at (rn\<lparr>rn_bytes := b\<rparr>) n = server_at rn n"
  by (simp_all add: server_at_def)

lemma count_bytes_simps [simp]:
  "rn_heap (count_bytes bs rn) = rn_heap rn" "server_at (count_bytes bs rn) n = server_at rn n"
  by (simp_all add: count_bytes_def server_at_def)

lemma manage_ok: "manage m rn = Some rn' \<Longrightarrow> pointers_ok rn \<Longrightarrow> pointers_ok rn' \<and> length (rn_heap rn) \<le> length (rn_heap rn')"
  by (cases m) (auto simp: pointers_ok_def server_at_def MakeEnd_def DeleteEnd_def AddServer_def DeleteServer_def Connect_def Enable_def
    Reliable_def LongReordering_def LongDelays_def SetDropRate_def SetShortDelayMs_def SetLongDelayMs_def Cleanup_def Let_def less_Suc_eq
    split: if_splits option.splits)

lemma processReq_ok:
  assumes "pointers_ok rn" "call_ok (length (rn_heap rn)) q" "q_pc q = Sending" "processReq r q rn = (q', rn')"
  shows "pointers_ok rn' \<and> rn_heap rn' = rn_heap rn \<and> call_ok (length (rn_heap rn)) q'"
proof -
  let ?rn = "count_bytes (q_args q) (rn\<lparr>rn_count := rn_count rn + 1\<rparr>)"
  have rn': "rn' = ?rn" using assms(4) by (auto simp: processReq_def Let_def)
  have heap: "rn_heap ?rn = rn_heap rn" "server_at ?rn n = server_at rn n" for n by (simp_all add: server_at_update)
  have p: "p < length (rn_heap rn)" if "server_at ?rn n = Some p" for n p using assms(1) that heap(2) by (auto simp: pointers_ok_def)
  have "q_pc q' = Timer lost \<and> q_handler q' = q_handler q \<and> q_execs q' = q_execs q \<or>
    (\<exists>n p rel reo. q' = q\<lparr>q_pc := Admitted n p rel reo\<rparr> \<and> server_at ?rn n = Some p)"
    using assms(4) by (auto simp: processReq_def readEndnameInfo_def Let_def split: bool.splits option.splits prod.splits)
  then have "call_ok (length (rn_heap rn)) q'" using assms(2,3) p by (auto simp: call_ok_def)
  then show ?thesis using assms(1) rn' heap by (simp add: pointers_ok_def)
qed

lemma call_exec_ok:
  assumes "pointers_ok rn" "call_ok (length (rn_heap rn)) q" "call_exec st q rn = Some (q', rn')"
  shows "pointers_ok rn' \<and> length (rn_heap rn') = length (rn_heap rn) \<and> call_ok (length (rn_heap rn)) q'"
proof (cases st)
  case (Take r)
  then show ?thesis using assms processReq_ok [of rn q r q' rn'] by (cases "q_pc q") auto
next
  case (Start r1 r2)
  then show ?thesis using assms by (cases "q_pc q") (auto simp: processReq_start_def call_ok_def handler_ok_def Let_def split: if_splits)
next
  case Handle
  then show ?thesis using assms
    by (cases "q_handler q"; cases "q_pc q")
      (auto simp: run_handler_def call_ok_def handler_ok_def pointers_ok_def server_at_update bind_eq_Some_conv split: if_splits)
next
  case Receive
  then show ?thesis using assms by (cases "q_pc q"; cases "q_handler q") (auto simp: wait_reply_def call_ok_def)
next
  case Timeout
  then show ?thesis using assms by (cases "q_pc q") (auto simp: wait_timeout_def call_ok_def)
next
  case (Reply r1 r2 r3 r4)
  then show ?thesis using assms by (cases "q_pc q") (auto simp: processReq_reply_def call_ok_def pointers_ok_def split: if_splits)
next
  case Fire
  then show ?thesis using assms by (cases "q_pc q") (auto simp: timer_fires_def call_ok_def pointers_ok_def)
next
  case NetDone
  then show ?thesis using assms by (cases "q_pc q") (auto simp: call_done_def call_ok_def)
qed

lemma net_exec_inv: "net_exec e n = Some n' \<Longrightarrow> net_inv n \<Longrightarrow> net_inv n'"
proof (cases e)
  case (Manage m)
  assume "net_exec e n = Some n'" "net_inv n"
  then show ?thesis using Manage manage_ok [of m "n_net n"] by (auto simp: net_inv_def intro: calls_mono)
next
  case (NewCall en m args)
  assume "net_exec e n = Some n'" "net_inv n"
  then show ?thesis using NewCall by (auto simp: net_inv_def Call_def call_ok_def handler_ok_def)
next
  case (CallStep i st)
  assume run: "net_exec e n = Some n'" and inv: "net_inv n"
  show ?thesis
  proof (cases "i < length (n_calls n)")
    case True
    then obtain q rn where c: "call_exec st (n_calls n ! i) (n_net n) = Some (q, rn)" "n' = n\<lparr>n_net := rn, n_calls := (n_calls n)[i := q]\<rparr>"
      using run CallStep by auto
    have "pointers_ok (n_net n)" "call_ok (length (rn_heap (n_net n))) (n_calls n ! i)" using inv True by (auto simp: net_inv_def list_all_length)
    from call_exec_ok [OF this c(1)] c(2) inv show ?thesis
      using set_update_subset_insert [of "n_calls n" i q] by (auto simp: net_inv_def list_all_iff)
  qed (use run inv CallStep in simp)
qed

lemma net_run_inv: "net_run es n = Some n' \<Longrightarrow> net_inv n \<Longrightarrow> net_inv n'"
  by (induction es arbitrary: n) (auto simp: bind_eq_Some_conv dest: net_exec_inv)

lemma net_init_inv: "net_inv net_init"
  by (simp add: net_inv_def net_init_def MakeNetwork_def pointers_ok_def server_at_def)

section \<open>Properties\<close>

text \<open>
  C14. What Call promises: whatever the network does, the handler of a call is run at most once, and
  Call returns what that run answered, or nothing and false; so true only when the handler has run.
\<close>

theorem Call_at_most_once:
  assumes "net_run es net_init = Some n" "q \<in> set (n_calls n)"
  shows "q_execs q \<le> 1 \<and> (\<forall>rep. q_pc q = Done rep \<longrightarrow>
    rep = lost \<or> q_execs q = 1 \<and> q_handler q = Finished rep)"
proof -
  have "call_ok (length (rn_heap (n_net n))) q" using net_run_inv [OF assms(1) net_init_inv] assms(2) by (auto simp: net_inv_def list_all_iff)
  then show ?thesis by (cases "q_handler q") (auto simp: call_ok_def handler_ok_def lost_def)
qed

text \<open>A run of the steps of one call.\<close>

fun call_run :: "call_step list \<Rightarrow> call \<Rightarrow> 's Network \<Rightarrow> (call \<times> 's Network) option" where
  "call_run [] q rn = Some (q, rn)"
| "call_run (st # sts) q rn = do { (q', rn') \<leftarrow> call_exec st q rn; call_run sts q' rn' }"

lemma net_call_run:
  assumes "i < length (n_calls n)" "call_run sts (n_calls n ! i) (n_net n) = Some (q, rn)"
  shows "net_run (map (CallStep i) sts) n = Some (n\<lparr>n_net := rn, n_calls := (n_calls n)[i := q]\<rparr>)"
  using assms
proof (induction sts arbitrary: n)
  case (Cons st sts)
  then obtain q1 rn1 where c: "call_exec st (n_calls n ! i) (n_net n) = Some (q1, rn1)" "call_run sts q1 rn1 = Some (q, rn)"
    by (auto simp: bind_eq_Some_conv)
  let ?n = "n\<lparr>n_net := rn1, n_calls := (n_calls n)[i := q1]\<rparr>"
  have "net_run (map (CallStep i) sts) ?n = Some (?n\<lparr>n_net := rn, n_calls := (n_calls ?n)[i := q]\<rparr>)"
    by (rule Cons.IH) (use Cons.prems(1) c(2) in simp_all)
  then show ?case using Cons.prems(1) c(1) by simp
next
  case Nil
  then show ?case by (cases n) auto
qed

text \<open>
  A call that is being served can return: the handler runs, if it has not yet, and the reply is
  taken and passed on or replaced.
\<close>

lemma reply_returns:
  assumes "q_pc q = Replied n p rel reo d rep"
  shows "\<exists>q' rn' r. call_run [Reply r1 r2 r3 r4, Fire] q rn = Some (q', rn') \<and> q_pc q' = Done r"
  using assms by (auto simp: processReq_reply_def timer_fires_def)

lemma serving_returns:
  assumes "call_ok (length (rn_heap rn)) q" "q_pc q = Serving n p rel reo d"
    and "\<And>p. p < length (rn_heap rn) \<Longrightarrow> Server_dispatch (q_svcMeth q) (q_args q) (rn_heap rn ! p) \<noteq> None"
  shows "\<exists>q' rn' r. call_run [Handle, Receive, Reply r1 r2 r3 r4, Fire] q rn = Some (q', rn') \<and> q_pc q' = Done r"
proof -
  obtain q1 rn1 rep where 1: "run_handler q rn = Some (q1, rn1)" "q_handler q1 = Finished rep" "q_pc q1 = q_pc q"
  proof (cases "q_handler q")
    case NotStarted
    then show ?thesis using assms(1,2) by (simp add: call_ok_def)
  next
    case (Started x)
    then have "x < length (rn_heap rn)" using assms(1) by (simp add: call_ok_def handler_ok_def)
    moreover from this assms(3) obtain rs rep where "Server_dispatch (q_svcMeth q) (q_args q) (rn_heap rn ! x) = Some (rs, rep)" by force
    ultimately show ?thesis using Started that by (simp add: run_handler_def)
  qed (use that in \<open>auto simp: run_handler_def\<close>)
  have "q_pc (wait_reply q1) = Replied n p rel reo d rep" using 1 assms(2) by (simp add: wait_reply_def)
  from reply_returns [OF this, of r1 r2 r3 r4 rn1] show ?thesis using 1(1) by simp
qed

lemma finished_returns:
  assumes "q_pc q = Done r \<or> q_pc q = Timer r" "call_ok (length (rn_heap rn)) q"
    and "\<And>p. p < length (rn_heap rn) \<Longrightarrow> Server_dispatch (q_svcMeth q) (q_args q) (rn_heap rn ! p) \<noteq> None"
  shows "\<exists>q' rn' r. call_run [Handle, Receive, Reply r1 r2 r3 r4, Fire] q rn = Some (q', rn') \<and> q_pc q' = Done r"
proof -
  obtain q1 rn1 where 1: "run_handler q rn = Some (q1, rn1)" "q_pc q1 = q_pc q"
  proof (cases "q_handler q")
    case (Started x)
    then have "x < length (rn_heap rn)" using assms(2) by (simp add: call_ok_def handler_ok_def)
    moreover from this assms(3) obtain rs rep where "Server_dispatch (q_svcMeth q) (q_args q) (rn_heap rn ! x) = Some (rs, rep)" by force
    ultimately show ?thesis using Started that by (simp add: run_handler_def)
  qed (use that in \<open>auto simp: run_handler_def\<close>)
  have "wait_reply q1 = q1" using 1(2) assms(1) by (auto simp: wait_reply_def)
  moreover have "processReq_reply r1 r2 r3 r4 q1 rn1 = (q1, rn1)" using 1(2) assms(1) by (auto simp: processReq_reply_def)
  ultimately show ?thesis using 1 assms(1) by (auto simp: timer_fires_def)
qed

lemma started_returns:
  assumes "q_pc q \<noteq> Sending" "\<And>n p rel reo. q_pc q \<noteq> Admitted n p rel reo" "call_ok (length (rn_heap rn)) q"
    and "\<And>p. p < length (rn_heap rn) \<Longrightarrow> Server_dispatch (q_svcMeth q) (q_args q) (rn_heap rn ! p) \<noteq> None"
  shows "\<exists>q' rn' r. call_run [Handle, Receive, Reply r1 r2 r3 r4, Fire] q rn = Some (q', rn') \<and> q_pc q' = Done r"
proof (cases "q_pc q")
  case (Serving n p rel reo d)
  then show ?thesis using serving_returns [OF assms(3) Serving assms(4)] by blast
next
  case (Replied n p rel reo d rep)
  then have "q_handler q = Finished rep" using assms(3) by (simp add: call_ok_def)
  then have "run_handler q rn = Some (q, rn)" "wait_reply q = q" using Replied by (simp_all add: run_handler_def wait_reply_def)
  then show ?thesis using reply_returns [OF Replied, of r1 r2 r3 r4 rn] by simp
qed (use assms finished_returns [OF _ assms(3,4)] in blast)+


text \<open>
  C15. A reliable network loses nothing: a call on an enabled end whose server is there returns true
  with the reply of the handler, which has run once on the server's state, whatever is drawn.
\<close>

theorem reliable_Call:
  assumes "rn_reliable rn" "\<not> rn_longReordering rn" "rn_enabled rn e = Some True" "rn_connections rn e = Some (Some name)"
    and "rn_servers rn name = Some (Some p)" "p < length (rn_heap rn)" "Server_dispatch m args (rn_heap rn ! p) = Some (rs, rep)"
  shows "\<exists>q rn'. call_run [Take r0, Start r1 r2, Handle, Receive, Reply r3 r4 r5 r6] (Call e m args) rn = Some (q, rn') \<and>
    q_pc q = Done rep \<and> q_execs q = 1 \<and> q_slept q = [] \<and> rn_heap rn' = (rn_heap rn)[p := rs] \<and> rn_count rn' = rn_count rn + 1"
  using assms
  by (simp add: Call_def processReq_def readEndnameInfo_def is_enabled_def server_at_def count_bytes_def Let_def processReq_start_def
    run_handler_def wait_reply_def processReq_reply_def isServerDead_def)

text \<open>
  The drop rate stays between 0 and 1000 per mille whatever it is set to. The two delays are
  stored as 32-bit numbers: a setting below 2^31 ms is kept, one of 2^31 ms turns negative and so
  turns the delay off.
\<close>

lemma network_settings:
  "0 \<le> GetDropRate (SetDropRate rate rn) \<and> GetDropRate (SetDropRate rate rn) \<le> 1000 \<and>
   (0 \<le> rate \<and> rate \<le> 1000 \<longrightarrow> GetDropRate (SetDropRate rate rn) = rate) \<and>
   (0 \<le> ms \<and> ms < 2 ^ 31 \<longrightarrow> GetShortDelayMs (SetShortDelayMs ms rn) = ms \<and> GetLongDelayMs (SetLongDelayMs ms rn) = ms) \<and>
   GetShortDelayMs (SetShortDelayMs (2 ^ 31) rn) < 0"
proof -
  have small: "sint (word_of_int k :: 32 word) = k" if "0 \<le> k" "k < 2 ^ 31" for k
    using that by (simp add: sint_sbintrunc' signed_take_bit_int_eq_self_iff)
  have "sint (word_of_int (2 ^ 31) :: 32 word) < 0" by simp
  moreover have "GetDropRate (SetDropRate rate rn) = max 0 (min rate 1000)"
    by (auto simp: GetDropRate_def SetDropRate_def Let_def small max_def min_def)
  ultimately show ?thesis
    by (auto simp: GetShortDelayMs_def SetShortDelayMs_def GetLongDelayMs_def SetLongDelayMs_def small)
qed

section \<open>A sample network\<close>

text \<open>A server with one method that counts its calls, behind two ends of which one is enabled.\<close>

definition counter_server :: "nat Server" where
  "counter_server = AddService ''Counter'' [''Inc'' \<mapsto> (\<lambda>s args. (s + 1, [word_of_nat s]))] (MakeServer 5)"

definition counter_events :: "nat net_event list" where
  "counter_events = [Manage (MMakeEnd ''e''), Manage (MMakeEnd ''f''), Manage (MAddServer ''s'' counter_server),
     Manage (MConnect ''e'' ''s''), Manage (MEnable ''e'' True), Manage (MConnect ''f'' ''s''),
     NewCall ''e'' ''Counter.Inc'' [1], NewCall ''f'' ''Counter.Inc'' [1], NewCall ''e'' ''Counter.Inc'' [1],
     CallStep 0 (Take 0), CallStep 1 (Take 7), CallStep 0 (Start 0 0), CallStep 0 Handle, Manage (MReliable False), CallStep 2 (Take 0),
     CallStep 2 (Start 3 999), CallStep 2 Handle, CallStep 2 Receive, CallStep 0 Receive, CallStep 0 (Reply 0 0 0 0), CallStep 2 (Reply 50 0 0 0)]"

lemma counter_run:
  "case net_run counter_events net_init of None \<Rightarrow> False | Some n \<Rightarrow>
     map q_pc (n_calls n) = [Done \<lparr>rep_ok = True, rep_reply = [5]\<rparr>, Timer lost, Done lost] \<and> map q_execs (n_calls n) = [1, 0, 1] \<and>
     map q_svcMeth (n_calls n) = replicate 3 ''Counter.Inc'' \<and> map rs_objects (rn_heap (n_net n)) = [7]"
  by code_simp

lemma counter_state:
  obtains n q where "net_run counter_events net_init = Some n" "n_calls n \<noteq> []" "q = n_calls n ! 0" "q_execs q = 1"
    "q_pc q = Done \<lparr>rep_ok = True, rep_reply = [5]\<rparr>"
proof -
  obtain n where n: "net_run counter_events net_init = Some n"
    "map q_pc (n_calls n) = [Done \<lparr>rep_ok = True, rep_reply = [5]\<rparr>, Timer lost, Done lost]" "map q_execs (n_calls n) = [1, 0, 1]"
    using counter_run by (auto split: option.splits)
  have len: "length (n_calls n) = 3" using arg_cong [OF n(2), of length] by simp
  show thesis
    by (rule that [OF n(1), of "n_calls n ! 0"])
      (use len arg_cong [OF n(2), of "\<lambda>xs. xs ! 0"] arg_cong [OF n(3), of "\<lambda>xs. xs ! 0"] in auto)
qed

theorem Call_at_most_once_witness:
  "\<exists>n q. net_run counter_events net_init = Some n \<and> q \<in> set (n_calls n) \<and> q_pc q = Done \<lparr>rep_ok = True, rep_reply = [5]\<rparr> \<and>
     q_execs q = 1 \<and> q_handler q = Finished \<lparr>rep_ok = True, rep_reply = [5]\<rparr>"
proof -
  obtain n q where s: "net_run counter_events net_init = Some n" "n_calls n \<noteq> []" "q = n_calls n ! 0"
    "q_execs q = 1" "q_pc q = Done \<lparr>rep_ok = True, rep_reply = [5]\<rparr>" by (rule counter_state)
  then have q: "q \<in> set (n_calls n)" by simp
  have "q_handler q = Finished \<lparr>rep_ok = True, rep_reply = [5]\<rparr>" using Call_at_most_once [OF s(1) q] s(5) by (auto simp: lost_def)
  with s q show ?thesis by blast
qed

text \<open>One server, one end connected to it, and a call the network has taken.\<close>

definition one_call :: "nat net_event list" where
  "one_call = [Manage (MMakeEnd ''e''), Manage (MAddServer ''s'' counter_server), Manage (MConnect ''e'' ''s''), Manage (MEnable ''e'' True),
     NewCall ''e'' ''Counter.Inc'' [1], CallStep 0 (Take 0)]"

definition one_net :: "nat Network" where
  "one_net = \<lparr>rn_reliable = True, rn_longDelays = False, rn_longReordering = False, rn_ends = [''e''],
     rn_enabled = [''e'' \<mapsto> True], rn_servers = [''s'' \<mapsto> Some 0], rn_connections = [''e'' \<mapsto> Some ''s''], rn_done = False, rn_count = 1,
     rn_bytes = 1, rn_dropRate = 100, rn_shortDelayMs = 27, rn_longDelayMs = 7000, rn_heap = [counter_server]\<rparr>"

lemma one_call_run:
  "net_run one_call net_init =
     Some \<lparr>n_net = one_net, n_calls = [(Call ''e'' ''Counter.Inc'' [1])\<lparr>q_pc := Admitted ''s'' 0 True False\<rparr>]\<rparr>"
  by (simp add: one_call_def net_init_def MakeNetwork_def MakeEnd_def AddServer_def Connect_def Enable_def Call_def processReq_def
    readEndnameInfo_def is_enabled_def server_at_def count_bytes_def Let_def one_net_def)

lemma counter_dispatch: "Server_dispatch ''Counter.Inc'' [1] counter_server =
    Some (counter_server\<lparr>rs_count := 1, rs_objects := 6\<rparr>, \<lparr>rep_ok = True, rep_reply = [5]\<rparr>)"
  by (simp add: Server_dispatch_def Service_dispatch_def counter_server_def AddService_def MakeServer_def)


theorem reliable_Call_witness:
  "\<exists>q rn'. call_run [Take 1, Start 2 3, Handle, Receive, Reply 4 5 6 7] (Call ''e'' ''Counter.Inc'' [1]) one_net = Some (q, rn') \<and>
     q_pc q = Done \<lparr>rep_ok = True, rep_reply = [5]\<rparr> \<and> map rs_objects (rn_heap rn') = [6]"
proof -
  have "\<exists>q rn'. call_run [Take 1, Start 2 3, Handle, Receive, Reply 4 5 6 7] (Call ''e'' ''Counter.Inc'' [1]) one_net = Some (q, rn') \<and>
      q_pc q = Done \<lparr>rep_ok = True, rep_reply = [5]\<rparr> \<and> q_execs q = 1 \<and> q_slept q = [] \<and>
      rn_heap rn' = (rn_heap one_net)[0 := counter_server\<lparr>rs_count := 1, rs_objects := 6\<rparr>] \<and> rn_count rn' = rn_count one_net + 1"
    by (rule reliable_Call [where name = "''s''"]) (simp_all add: one_net_def counter_dispatch)
  then show ?thesis by (force simp: one_net_def)
qed

end
