(* ===== verification/Server_Group.thy ===== *)
theory Server_Group
  imports Rpc_Net
begin

text \<open>
  Groups of server processes, \<open>tester/group.go\<close> and \<open>tester/srv.go\<close>, on the network of \<open>Rpc_Net\<close>:
  each server of a group has a client end to every server of the group, and connecting,
  disconnecting and partitioning servers enables and disables these ends. A server runs as a
  process of its own; what the process does is a parameter. \<open>None\<close> is a panic or \<open>log.Fatalf\<close>.
\<close>

section \<open>Names\<close>

type_synonym Tgid = int

fun digits :: "nat \<Rightarrow> string" where
  "digits n = (if n < 10 then [char_of (48 + n)] else digits (n div 10) @ [char_of (48 + n mod 10)])"

declare digits.simps [simp del]

text \<open>\<open>strconv.Itoa\<close>.\<close>

definition Itoa :: "int \<Rightarrow> string" where
  "Itoa k = (if k < 0 then CHR ''-'' # digits (nat (- k)) else digits (nat k))"

definition ServerName :: "Tgid \<Rightarrow> nat \<Rightarrow> string" where
  "ServerName gid i = ''server-'' @ Itoa gid @ ''-'' @ Itoa (int i)"

section \<open>Servers\<close>

text \<open>\<open>srv_dc\<close> points to the running process, \<open>srv_saved\<close> is the stable storage \<open>'p\<close> kept for the next start.\<close>

record 'p TServer =
  srv_saved :: "'p option"
  srv_endNames :: "string list"
  srv_dc :: "nat option"

text \<open>What a server program is: its state when started on a stable storage, its stable storage, and how it serves a call.\<close>

record ('p, 's) prog =
  p_boot :: "Tgid \<Rightarrow> nat \<Rightarrow> 'p \<Rightarrow> 's"
  p_storage :: "'s \<Rightarrow> 'p"
  p_forward :: "string \<Rightarrow> bytes \<Rightarrow> 's \<Rightarrow> 's \<times> bytes \<times> bool"

text \<open>\<open>names\<close> are what \<open>Randstring\<close> returns; a name that is taken ends the program.\<close>

fun make_ends :: "Tgid \<Rightarrow> nat \<Rightarrow> string list \<Rightarrow> 's Network \<Rightarrow> 's Network option" where
  "make_ends gid j [] rn = Some rn"
| "make_ends gid j (e # es) rn = do {
     rn1 \<leftarrow> MakeEnd e rn;
     make_ends gid (j + 1) es (Connect e (ServerName gid j) rn1) }"

definition makeServer :: "Tgid \<Rightarrow> string list \<Rightarrow> 's Network \<Rightarrow> ('p TServer \<times> 's Network) option" where
  "makeServer gid names rn = do {
     rn1 \<leftarrow> make_ends gid 0 names rn;
     Some (\<lparr>srv_saved = None, srv_endNames = names, srv_dc = None\<rparr>, rn1) }"

text \<open>A new server for a restart; \<open>ps\<close> is \<open>MakePersister()\<close>.\<close>

definition startServer :: "Tgid \<Rightarrow> string list \<Rightarrow> 'p \<Rightarrow> 'p TServer \<Rightarrow> 's Network \<Rightarrow> ('p TServer \<times> 's Network) option" where
  "startServer gid names ps s rn = do {
     (srv, rn1) \<leftarrow> makeServer gid names rn;
     Some (srv\<lparr>srv_saved := Some (case srv_saved s of None \<Rightarrow> ps | Some p \<Rightarrow> p)\<rparr>, rn1) }"

text \<open>\<open>xs[i]\<close>, which panics out of range.\<close>

definition nth_at :: "'a list \<Rightarrow> nat \<Rightarrow> 'a option" where
  "nth_at xs i = (if i < length xs then Some (xs ! i) else None)"

fun Server_connect :: "'p TServer \<Rightarrow> bool list \<Rightarrow> nat list \<Rightarrow> 's Network \<Rightarrow> 's Network option" where
  "Server_connect s conn [] rn = Some rn"
| "Server_connect s conn (j # to) rn = do {
     c \<leftarrow> nth_at conn j;
     (if c then do {
        e \<leftarrow> nth_at (srv_endNames s) j;
        Server_connect s conn to (Enable e True rn) }
      else Server_connect s conn to rn) }"

fun Server_disconnect :: "'p TServer \<Rightarrow> nat list \<Rightarrow> 's Network \<Rightarrow> 's Network option" where
  "Server_disconnect s [] rn = Some rn"
| "Server_disconnect s (j # from) rn = do {
     e \<leftarrow> nth_at (srv_endNames s) j;
     Server_disconnect s from (Enable e False rn) }"

text \<open>The process is asked for its stable storage and killed.\<close>

definition shutdownServer :: "('p, 's) prog \<Rightarrow> 'p TServer \<Rightarrow> 's Network \<Rightarrow> 'p TServer" where
  "shutdownServer pr s rn = (case srv_dc s of
       None \<Rightarrow> s
     | Some d \<Rightarrow> s\<lparr>srv_saved := Some (p_storage pr (rs_objects (rn_heap rn ! d))), srv_dc := None\<rparr>)"

section \<open>Groups\<close>

record 'p ServerGrp =
  grp_srvs :: "'p TServer list"
  grp_gid :: Tgid
  grp_connected :: "bool list"

fun make_servers :: "Tgid \<Rightarrow> string list list \<Rightarrow> 's Network \<Rightarrow> ('p TServer list \<times> 's Network) option" where
  "make_servers gid [] rn = Some ([], rn)"
| "make_servers gid (names # nss) rn = do {
     (s, rn1) \<leftarrow> makeServer gid names rn;
     (ss, rn2) \<leftarrow> make_servers gid nss rn1;
     Some (s # ss, rn2) }"

text \<open>One list of random names for each server.\<close>

definition makeSrvGrp :: "Tgid \<Rightarrow> string list list \<Rightarrow> 's Network \<Rightarrow> ('p ServerGrp \<times> 's Network) option" where
  "makeSrvGrp gid nss rn = do {
     (ss, rn1) \<leftarrow> make_servers gid nss rn;
     Some (\<lparr>grp_srvs = ss, grp_gid = gid, grp_connected = replicate (length nss) False\<rparr>, rn1) }"

abbreviation grp_N :: "'p ServerGrp \<Rightarrow> nat" where "grp_N sg \<equiv> length (grp_srvs sg)"

definition SrvNames :: "'p ServerGrp \<Rightarrow> string list" where
  "SrvNames sg = map (ServerName (grp_gid sg)) [0..<grp_N sg]"

definition all_srvs :: "'p ServerGrp \<Rightarrow> nat list" where
  "all_srvs sg = [0..<grp_N sg]"

text \<open>The ends of the servers in \<open>to\<close> that lead to server \<open>i\<close>.\<close>

fun connect_in :: "'p ServerGrp \<Rightarrow> nat \<Rightarrow> nat list \<Rightarrow> 's Network \<Rightarrow> 's Network option" where
  "connect_in sg i [] rn = Some rn"
| "connect_in sg i (j # to) rn = do {
     c \<leftarrow> nth_at (grp_connected sg) j;
     (if c then do {
        s \<leftarrow> nth_at (grp_srvs sg) j;
        e \<leftarrow> nth_at (srv_endNames s) i;
        connect_in sg i to (Enable e True rn) }
      else connect_in sg i to rn) }"

fun disconnect_in :: "'p ServerGrp \<Rightarrow> nat \<Rightarrow> nat list \<Rightarrow> 's Network \<Rightarrow> 's Network option" where
  "disconnect_in sg i [] rn = Some rn"
| "disconnect_in sg i (j # from) rn = do {
     s \<leftarrow> nth_at (grp_srvs sg) j;
     e \<leftarrow> nth_at (srv_endNames s) i;
     disconnect_in sg i from (Enable e False rn) }"

definition set_connected :: "nat \<Rightarrow> bool \<Rightarrow> 'p ServerGrp \<Rightarrow> 'p ServerGrp option" where
  "set_connected i b sg =
     (if i < length (grp_connected sg) then Some (sg\<lparr>grp_connected := (grp_connected sg)[i := b]\<rparr>) else None)"

definition connect :: "nat \<Rightarrow> nat list \<Rightarrow> 'p ServerGrp \<times> 's Network \<Rightarrow> ('p ServerGrp \<times> 's Network) option" where
  "connect i to = (\<lambda>(sg, rn). do {
     sg1 \<leftarrow> set_connected i True sg;
     s \<leftarrow> nth_at (grp_srvs sg1) i;
     rn1 \<leftarrow> Server_connect s (grp_connected sg1) to rn;
     rn2 \<leftarrow> connect_in sg1 i to rn1;
     Some (sg1, rn2) })"

definition disconnect :: "nat \<Rightarrow> nat list \<Rightarrow> 'p ServerGrp \<times> 's Network \<Rightarrow> ('p ServerGrp \<times> 's Network) option" where
  "disconnect i from = (\<lambda>(sg, rn). do {
     sg1 \<leftarrow> set_connected i False sg;
     s \<leftarrow> nth_at (grp_srvs sg1) i;
     rn1 \<leftarrow> Server_disconnect s from rn;
     rn2 \<leftarrow> disconnect_in sg1 i from rn1;
     Some (sg1, rn2) })"

definition ConnectOne :: "nat \<Rightarrow> 'p ServerGrp \<times> 's Network \<Rightarrow> ('p ServerGrp \<times> 's Network) option" where
  "ConnectOne i = (\<lambda>(sg, rn). connect i (all_srvs sg) (sg, rn))"

definition DisconnectAll :: "nat \<Rightarrow> 'p ServerGrp \<times> 's Network \<Rightarrow> ('p ServerGrp \<times> 's Network) option" where
  "DisconnectAll i = (\<lambda>(sg, rn). disconnect i (all_srvs sg) (sg, rn))"

text \<open>A loop over a list of servers.\<close>

fun each :: "('a \<Rightarrow> 'g \<Rightarrow> 'g option) \<Rightarrow> 'a list \<Rightarrow> 'g \<Rightarrow> 'g option" where
  "each f [] g = Some g"
| "each f (x # xs) g = do { g1 \<leftarrow> f x g; each f xs g1 }"

definition ConnectAll :: "'p ServerGrp \<times> 's Network \<Rightarrow> ('p ServerGrp \<times> 's Network) option" where
  "ConnectAll g = each ConnectOne (all_srvs (fst g)) g"

text \<open>
  \<open>names\<close>, \<open>ps\<close> and \<open>started\<close> are what \<open>Randstring\<close>, \<open>MakePersister\<close> and \<open>runDaemon\<close> give; the
  result says whether there was no error.
\<close>

definition StartServer :: "('p, 's) prog \<Rightarrow> string list \<Rightarrow> 'p \<Rightarrow> bool \<Rightarrow> nat \<Rightarrow> 'p ServerGrp \<times> 's Network \<Rightarrow>
    (bool \<times> 'p ServerGrp \<times> 's Network) option" where
  "StartServer pr names ps started i = (\<lambda>(sg, rn). do {
     s \<leftarrow> nth_at (grp_srvs sg) i;
     (if srv_dc s \<noteq> None then Some (True, sg, rn)
      else do {
        (srv, rn1) \<leftarrow> startServer (grp_gid sg) names ps s rn;
        (if \<not> started then Some (False, sg\<lparr>grp_srvs := (grp_srvs sg)[i := srv]\<rparr>, rn1)
         else do {
           saved \<leftarrow> srv_saved srv;
           let labsrv = SetDispatch (p_forward pr) (MakeServer (p_boot pr (grp_gid sg) i saved));
               srv1 = srv\<lparr>srv_dc := Some (length (rn_heap rn1))\<rparr>
           in Some (True, sg\<lparr>grp_srvs := (grp_srvs sg)[i := srv1]\<rparr>, AddServer (ServerName (grp_gid sg) i) labsrv rn1) }) }) })"

definition StartSrvs :: "('p, 's) prog \<Rightarrow> 'p \<Rightarrow> (nat \<times> string list \<times> bool) list \<Rightarrow> 'p ServerGrp \<times> 's Network \<Rightarrow>
    ('p ServerGrp \<times> 's Network) option" where
  "StartSrvs pr ps srvs = each (\<lambda>(i, names, started) g. map_option snd (StartServer pr names ps started i g)) srvs"

definition StartServers :: "('p, 's) prog \<Rightarrow> 'p \<Rightarrow> (string list \<times> bool) list \<Rightarrow> 'p ServerGrp \<times> 's Network \<Rightarrow>
    ('p ServerGrp \<times> 's Network) option" where
  "StartServers pr ps draws g = do { g1 \<leftarrow> StartSrvs pr ps (zip (all_srvs (fst g)) draws) g; ConnectAll g1 }"

definition ShutdownServer :: "('p, 's) prog \<Rightarrow> nat \<Rightarrow> 'p ServerGrp \<times> 's Network \<Rightarrow> ('p ServerGrp \<times> 's Network) option" where
  "ShutdownServer pr i = (\<lambda>(sg, rn). do {
     (sg1, rn1) \<leftarrow> disconnect i (all_srvs sg) (sg, rn);
     let rn2 = DeleteServer (ServerName (grp_gid sg1) i) rn1
     in do {
       s \<leftarrow> nth_at (grp_srvs sg1) i;
       Some (sg1\<lparr>grp_srvs := (grp_srvs sg1)[i := shutdownServer pr s rn2]\<rparr>, rn2) } })"

definition Kill :: "('p, 's) prog \<Rightarrow> nat list \<Rightarrow> 'p ServerGrp \<times> 's Network \<Rightarrow> ('p ServerGrp \<times> 's Network) option" where
  "Kill pr = each (ShutdownServer pr)"

definition Shutdown :: "('p, 's) prog \<Rightarrow> 'p ServerGrp \<times> 's Network \<Rightarrow> ('p ServerGrp \<times> 's Network) option" where
  "Shutdown pr g = Kill pr (all_srvs (fst g)) g"

text \<open>The loop of \<open>MakePartition\<close>, with \<open>j\<close> places filled.\<close>

fun fill_parts :: "nat \<Rightarrow> nat list \<Rightarrow> nat \<Rightarrow> nat list \<times> nat list \<Rightarrow> (nat list \<times> nat list) option" where
  "fill_parts l [] j (p1, p2) = Some (p1, p2)"
| "fill_parts l (i # is) j (p1, p2) =
     (if i = l then fill_parts l is j (p1, p2)
      else if j < length p1 then fill_parts l is (j + 1) (p1[j := i], p2)
      else if j - length p1 < length p2 then fill_parts l is (j + 1) (p1, p2[j - length p1 := i])
      else None)"

definition MakePartition :: "nat \<Rightarrow> 'p ServerGrp \<Rightarrow> (nat list \<times> nat list) option" where
  "MakePartition l sg = do {
     (p1, p2) \<leftarrow> fill_parts l (all_srvs sg) 0 (replicate (grp_N sg div 2 + 1) 0, replicate (grp_N sg div 2) 0);
     (if p2 = [] then None else Some (p1, p2[length p2 - 1 := l])) }"

definition move_to :: "nat list \<Rightarrow> nat list \<Rightarrow> nat \<Rightarrow> 'p ServerGrp \<times> 's Network \<Rightarrow> ('p ServerGrp \<times> 's Network) option" where
  "move_to own other x g = do { g1 \<leftarrow> disconnect x other g; connect x own g1 }"

definition Partition :: "nat list \<Rightarrow> nat list \<Rightarrow> 'p ServerGrp \<times> 's Network \<Rightarrow> ('p ServerGrp \<times> 's Network) option" where
  "Partition p1 p2 g = do { g1 \<leftarrow> each (move_to p1 p2) p1 g; each (move_to p2 p1) p2 g1 }"

section \<open>Links\<close>

text \<open>Whether the end of server \<open>a\<close> to server \<open>b\<close> is enabled.\<close>

definition end_name :: "'p ServerGrp \<Rightarrow> nat \<Rightarrow> nat \<Rightarrow> string" where
  "end_name sg a b = srv_endNames (grp_srvs sg ! a) ! b"

definition link :: "'p ServerGrp \<Rightarrow> 's Network \<Rightarrow> nat \<Rightarrow> nat \<Rightarrow> bool" where
  "link sg rn a b \<longleftrightarrow> is_enabled rn (end_name sg a b)"

definition grp_ends :: "'p ServerGrp \<Rightarrow> string set" where
  "grp_ends sg = set (concat (map srv_endNames (grp_srvs sg)))"

text \<open>Each server has an end to every server, and no two ends have the same name.\<close>

definition grp_ok :: "'p ServerGrp \<Rightarrow> bool" where
  "grp_ok sg \<longleftrightarrow> length (grp_connected sg) = grp_N sg \<and> list_all (\<lambda>s. length (srv_endNames s) = grp_N sg) (grp_srvs sg) \<and>
     distinct (concat (map srv_endNames (grp_srvs sg)))"

lemma nth_at_iff [simp]: "nth_at xs i = Some x \<longleftrightarrow> i < length xs \<and> x = xs ! i"
  by (auto simp: nth_at_def)

lemma distinct_concat_nth:
  assumes "distinct (concat xss)" "i < length xss" "j < length xss" "k < length (xss ! i)" "l < length (xss ! j)"
  shows "xss ! i ! k = xss ! j ! l \<longleftrightarrow> i = j \<and> k = l"
  using assms
proof (induction xss arbitrary: i j)
  case (Cons xs xss)
  have apart: "xs ! a \<noteq> xss ! b ! c" if "a < length xs" "b < length xss" "c < length (xss ! b)" for a b c
  proof -
    have "xs ! a \<in> set xs" "xss ! b ! c \<in> set (concat xss)" using that by (auto intro!: bexI [of _ "xss ! b"])
    then show ?thesis using Cons.prems(1) by (auto simp del: set_concat)
  qed
  consider "i = 0" "j = 0" | j' where "i = 0" "j = Suc j'" | i' where "i = Suc i'" "j = 0" | i' j' where "i = Suc i'" "j = Suc j'"
    by (cases i; cases j) auto
  then show ?case
  proof cases
    case 1 then show ?thesis using Cons.prems by (simp add: nth_eq_iff_index_eq)
  next
    case 2 then show ?thesis using Cons.prems apart [of k j' l] by simp
  next
    case 3 then show ?thesis using Cons.prems apart [of l i' k] by simp
  next
    case 4 then show ?thesis using Cons.prems Cons.IH [of i' j'] by simp
  qed
qed simp

lemma grp_okD:
  assumes "grp_ok sg"
  shows "length (grp_connected sg) = grp_N sg" "a < grp_N sg \<Longrightarrow> length (srv_endNames (grp_srvs sg ! a)) = grp_N sg"
    "\<lbrakk>a < grp_N sg; b < grp_N sg; c < grp_N sg; d < grp_N sg\<rbrakk> \<Longrightarrow> end_name sg a b = end_name sg c d \<longleftrightarrow> a = c \<and> b = d"
proof -
  show len: "length (grp_connected sg) = grp_N sg" "a < grp_N sg \<Longrightarrow> length (srv_endNames (grp_srvs sg ! a)) = grp_N sg" for a
    using assms by (auto simp: grp_ok_def list_all_length)
  show "end_name sg a b = end_name sg c d \<longleftrightarrow> a = c \<and> b = d"
    if "a < grp_N sg" "b < grp_N sg" "c < grp_N sg" "d < grp_N sg"
    using distinct_concat_nth [of "map srv_endNames (grp_srvs sg)" a c b d] that assms len(2)
    by (simp add: grp_ok_def end_name_def)
qed

section \<open>The abstract view\<close>

text \<open>
  What matters of a group: who is connected and which links are enabled. On this view connecting and
  disconnecting are updates of two functions, and the loops are folds.
\<close>

type_synonym view = "(nat \<Rightarrow> bool) \<times> (nat \<Rightarrow> nat \<Rightarrow> bool)"

definition view :: "'p ServerGrp \<Rightarrow> 's Network \<Rightarrow> view" where
  "view sg rn = (\<lambda>i. i < grp_N sg \<and> grp_connected sg ! i, \<lambda>a b. a < grp_N sg \<and> b < grp_N sg \<and> link sg rn a b)"

definition v_connect :: "nat \<Rightarrow> nat set \<Rightarrow> view \<Rightarrow> view" where
  "v_connect i to = (\<lambda>(c, l). let c' = c(i := True) in
     (c', \<lambda>a b. l a b \<or> a = i \<and> b \<in> to \<and> c' b \<or> b = i \<and> a \<in> to \<and> c' a))"

definition v_disconnect :: "nat \<Rightarrow> nat set \<Rightarrow> view \<Rightarrow> view" where
  "v_disconnect i from = (\<lambda>(c, l). (c(i := False), \<lambda>a b. l a b \<and> \<not> (a = i \<and> b \<in> from) \<and> \<not> (b = i \<and> a \<in> from)))"

text \<open>An operation that keeps the servers and only enables and disables ends.\<close>

definition reaches :: "('p ServerGrp \<times> 's Network) option \<Rightarrow> 'p ServerGrp \<Rightarrow> 's Network \<Rightarrow> view \<Rightarrow> bool" where
  "reaches r sg rn v \<longleftrightarrow> (\<exists>c m. r = Some (sg\<lparr>grp_connected := c\<rparr>, rn\<lparr>rn_enabled := m\<rparr>) \<and> length c = grp_N sg \<and>
     view (sg\<lparr>grp_connected := c\<rparr>) (rn\<lparr>rn_enabled := m\<rparr>) = v \<and> (\<forall>e. e \<notin> grp_ends sg \<longrightarrow> m e = rn_enabled rn e))"

lemma grp_ok_connected [simp]: "grp_ok sg \<Longrightarrow> length c = grp_N sg \<Longrightarrow> grp_ok (sg\<lparr>grp_connected := c\<rparr>)"
  by (simp add: grp_ok_def)

lemma grp_ends_connected [simp]: "grp_ends (sg\<lparr>grp_connected := c\<rparr>) = grp_ends sg"
  by (simp add: grp_ends_def)

lemma link_connected [simp]: "link (sg\<lparr>grp_connected := c\<rparr>) = link sg"
  by (simp add: link_def end_name_def fun_eq_iff)

lemma link_Enable:
  assumes "grp_ok sg" "a < grp_N sg" "b < grp_N sg" "c < grp_N sg" "d < grp_N sg"
  shows "link sg (Enable (srv_endNames (grp_srvs sg ! c) ! d) v rn) a b = (if a = c \<and> b = d then v else link sg rn a b)"
  using grp_okD(3) [OF assms(1), of a b c d] assms(2-5)
  by (auto simp: link_def is_enabled_def Enable_def end_name_def)

text \<open>All four loops set a list of ends.\<close>

definition set_ends :: "'p ServerGrp \<Rightarrow> bool \<Rightarrow> (nat \<times> nat) list \<Rightarrow> 's Network \<Rightarrow> 's Network" where
  "set_ends sg v ps rn = fold (\<lambda>(a, b). Enable (end_name sg a b) v) ps rn"

lemma set_ends_simps [simp]:
  "set_ends sg v [] rn = rn" "set_ends sg v (p # ps) rn = set_ends sg v ps (Enable (end_name sg (fst p) (snd p)) v rn)"
  by (simp_all add: set_ends_def case_prod_beta)

lemma end_name_in: "grp_ok sg \<Longrightarrow> a < grp_N sg \<Longrightarrow> b < grp_N sg \<Longrightarrow> end_name sg a b \<in> grp_ends sg"
  by (auto simp: grp_ends_def end_name_def grp_ok_def list_all_length intro!: bexI [of _ "grp_srvs sg ! a"])

lemma set_ends_net:
  assumes "grp_ok sg" "set ps \<subseteq> {..<grp_N sg} \<times> {..<grp_N sg}"
  shows "\<exists>m. set_ends sg v ps rn = rn\<lparr>rn_enabled := m\<rparr> \<and> (\<forall>e. e \<notin> grp_ends sg \<longrightarrow> m e = rn_enabled rn e)"
  using assms(2)
proof (induction ps arbitrary: rn)
  case Nil
  show ?case by (rule exI [of _ "rn_enabled rn"]) simp
next
  case (Cons p ps)
  have p: "end_name sg (fst p) (snd p) \<in> grp_ends sg" using Cons.prems by (intro end_name_in [OF assms(1)]) auto
  from Cons.IH [of "Enable (end_name sg (fst p) (snd p)) v rn"] Cons.prems p show ?case by (fastforce simp: Enable_def)
qed

lemma link_set_ends:
  assumes "grp_ok sg" "set ps \<subseteq> {..<grp_N sg} \<times> {..<grp_N sg}" "a < grp_N sg" "b < grp_N sg"
  shows "link sg (set_ends sg v ps rn) a b = (if (a, b) \<in> set ps then v else link sg rn a b)"
  using assms(2)
proof (induction ps arbitrary: rn)
  case (Cons p ps)
  then show ?case using link_Enable [OF assms(1,3,4), of "fst p" "snd p" v rn] by (cases p) (auto simp: end_name_def)
qed simp

lemma loops_set_ends:
  assumes "grp_ok sg" "i < grp_N sg" "set js \<subseteq> {..<grp_N sg}"
  shows "length conn = grp_N sg \<Longrightarrow> Server_connect (grp_srvs sg ! i) conn js rn = Some (set_ends sg True (map (Pair i) (filter ((!) conn) js)) rn)"
    and "connect_in sg i js rn = Some (set_ends sg True (map (\<lambda>j. (j, i)) (filter ((!) (grp_connected sg)) js)) rn)"
    and "Server_disconnect (grp_srvs sg ! i) js rn = Some (set_ends sg False (map (Pair i) js) rn)"
    and "disconnect_in sg i js rn = Some (set_ends sg False (map (\<lambda>j. (j, i)) js) rn)"
  using assms(3)
  by (induction js arbitrary: rn) (simp_all add: nth_at_def grp_okD(1,2) [OF assms(1)] assms(2) end_name_def)

lemma set_ends_append: "set_ends sg v qs (set_ends sg v ps rn) = set_ends sg v (ps @ qs) rn"
  by (simp add: set_ends_def)

lemma reaches_set_ends:
  assumes "grp_ok sg" "length c = grp_N sg" "set ps \<subseteq> {..<grp_N sg} \<times> {..<grp_N sg}"
  shows "reaches (Some (sg\<lparr>grp_connected := c\<rparr>, set_ends (sg\<lparr>grp_connected := c\<rparr>) v ps rn)) sg rn
    (\<lambda>i. i < grp_N sg \<and> c ! i, \<lambda>a b. a < grp_N sg \<and> b < grp_N sg \<and> (if (a, b) \<in> set ps then v else link sg rn a b))"
proof -
  let ?sg = "sg\<lparr>grp_connected := c\<rparr>"
  have ok: "grp_ok ?sg" by (rule grp_ok_connected [OF assms(1,2)])
  have ps: "set ps \<subseteq> {..<grp_N ?sg} \<times> {..<grp_N ?sg}" using assms(3) by simp
  obtain m where m: "set_ends ?sg v ps rn = rn\<lparr>rn_enabled := m\<rparr>" "\<forall>e. e \<notin> grp_ends ?sg \<longrightarrow> m e = rn_enabled rn e"
    using set_ends_net [OF ok ps] by blast
  have "view ?sg (set_ends ?sg v ps rn) =
    (\<lambda>i. i < grp_N sg \<and> c ! i, \<lambda>a b. a < grp_N sg \<and> b < grp_N sg \<and> (if (a, b) \<in> set ps then v else link sg rn a b))"
    using link_set_ends [OF ok, of ps _ _ v rn] assms(3) by (auto simp: view_def fun_eq_iff)
  then show ?thesis unfolding reaches_def using m assms(2) by (intro exI [of _ c] exI [of _ m]) simp
qed

lemma connect_view:
  assumes "grp_ok sg" "i < grp_N sg" "set js \<subseteq> {..<grp_N sg}"
  shows "reaches (connect i js (sg, rn)) sg rn (v_connect i (set js) (view sg rn))"
proof -
  let ?c = "(grp_connected sg)[i := True]"
  let ?sg = "sg\<lparr>grp_connected := ?c\<rparr>"
  have len: "length ?c = grp_N sg" using grp_okD(1) [OF assms(1)] by simp
  have ok: "grp_ok ?sg" by (rule grp_ok_connected [OF assms(1) len])
  have js: "set js \<subseteq> {..<grp_N ?sg}" "i < grp_N ?sg" "length ?c = grp_N ?sg" using assms len by auto
  let ?ps = "map (Pair i) (filter ((!) ?c) js) @ map (\<lambda>j. (j, i)) (filter ((!) ?c) js)"
  have run: "connect i js (sg, rn) = Some (?sg, set_ends ?sg True ?ps rn)"
    using loops_set_ends(1) [OF ok js(2,1), of ?c rn] assms(2) grp_okD(1) [OF assms(1)] len
    by (simp add: connect_def set_connected_def nth_at_def set_ends_append loops_set_ends(2) [OF ok js(2,1)])
  have v: "v_connect i (set js) (view sg rn) =
    (\<lambda>i. i < grp_N sg \<and> ?c ! i, \<lambda>a b. a < grp_N sg \<and> b < grp_N sg \<and> (if (a, b) \<in> set ?ps then True else link sg rn a b))"
    using assms(2,3) len by (auto simp: v_connect_def view_def fun_eq_iff nth_list_update)
  show ?thesis unfolding run v by (rule reaches_set_ends [OF assms(1) len]) (use assms(2,3) in auto)
qed

lemma disconnect_view:
  assumes "grp_ok sg" "i < grp_N sg" "set js \<subseteq> {..<grp_N sg}"
  shows "reaches (disconnect i js (sg, rn)) sg rn (v_disconnect i (set js) (view sg rn))"
proof -
  let ?c = "(grp_connected sg)[i := False]"
  let ?sg = "sg\<lparr>grp_connected := ?c\<rparr>"
  have len: "length ?c = grp_N sg" using grp_okD(1) [OF assms(1)] by simp
  have ok: "grp_ok ?sg" by (rule grp_ok_connected [OF assms(1) len])
  have js: "set js \<subseteq> {..<grp_N ?sg}" "i < grp_N ?sg" using assms by auto
  let ?ps = "map (Pair i) js @ map (\<lambda>j. (j, i)) js"
  have run: "disconnect i js (sg, rn) = Some (?sg, set_ends ?sg False ?ps rn)"
    using loops_set_ends(3) [OF ok js(2,1), of rn] assms(2) grp_okD(1) [OF assms(1)]
    by (simp add: disconnect_def set_connected_def nth_at_def set_ends_append loops_set_ends(4) [OF ok js(2,1)])
  have v: "v_disconnect i (set js) (view sg rn) =
    (\<lambda>i. i < grp_N sg \<and> ?c ! i, \<lambda>a b. a < grp_N sg \<and> b < grp_N sg \<and> (if (a, b) \<in> set ?ps then False else link sg rn a b))"
    using assms(2,3) len by (auto simp: v_disconnect_def view_def fun_eq_iff nth_list_update)
  show ?thesis unfolding run v by (rule reaches_set_ends [OF assms(1) len]) (use assms(2,3) in auto)
qed

lemma reaches_bind:
  assumes "reaches r sg rn v" "grp_ok sg"
    and "\<And>sg' rn'. \<lbrakk>grp_ok sg'; grp_N sg' = grp_N sg; view sg' rn' = v\<rbrakk> \<Longrightarrow> reaches (f (sg', rn')) sg' rn' v'"
  shows "reaches (r \<bind> f) sg rn v'"
proof -
  obtain c m where r: "r = Some (sg\<lparr>grp_connected := c\<rparr>, rn\<lparr>rn_enabled := m\<rparr>)" "length c = grp_N sg"
    "view (sg\<lparr>grp_connected := c\<rparr>) (rn\<lparr>rn_enabled := m\<rparr>) = v" "\<forall>e. e \<notin> grp_ends sg \<longrightarrow> m e = rn_enabled rn e"
    using assms(1) by (auto simp: reaches_def)
  have "reaches (f (sg\<lparr>grp_connected := c\<rparr>, rn\<lparr>rn_enabled := m\<rparr>)) (sg\<lparr>grp_connected := c\<rparr>) (rn\<lparr>rn_enabled := m\<rparr>) v'"
    by (rule assms(3) [OF _ _ r(3)]) (use assms(2) r(2) in simp_all)
  then show ?thesis using r(1,4) by (auto simp: reaches_def)
qed

lemma reaches_each:
  assumes "\<And>x sg' rn'. \<lbrakk>x \<in> set xs; grp_ok sg'; grp_N sg' = grp_N sg\<rbrakk> \<Longrightarrow> reaches (f x (sg', rn')) sg' rn' (F x (view sg' rn'))"
    and "grp_ok sg"
  shows "reaches (each f xs (sg, rn)) sg rn (fold F xs (view sg rn))"
  using assms
proof (induction xs arbitrary: sg rn)
  case Nil
  then show ?case unfolding reaches_def using grp_okD(1) [OF Nil(2)]
    by (intro exI [of _ "grp_connected sg"] exI [of _ "rn_enabled rn"]) simp
next
  case (Cons x xs)
  have "reaches (f x (sg, rn) \<bind> each f xs) sg rn (fold F xs (F x (view sg rn)))"
  proof (rule reaches_bind [OF Cons.prems(1) Cons.prems(2)])
    fix sg' :: "'b ServerGrp" and rn' :: "'c Network"
    assume sg': "grp_ok sg'" "grp_N sg' = grp_N sg" "view sg' rn' = F x (view sg rn)"
    show "reaches (each f xs (sg', rn')) sg' rn' (fold F xs (F x (view sg rn)))"
      using Cons.IH [OF _ sg'(1), of rn'] Cons.prems(1) sg'(2,3) by simp
  qed (use Cons.prems(2) in simp_all)
  then show ?case by simp
qed

definition v_move :: "nat set \<Rightarrow> nat set \<Rightarrow> nat \<Rightarrow> view \<Rightarrow> view" where
  "v_move own other x v = v_connect x own (v_disconnect x other v)"

lemma move_to_view:
  assumes "grp_ok sg" "x < grp_N sg" "set own \<subseteq> {..<grp_N sg}" "set other \<subseteq> {..<grp_N sg}"
  shows "reaches (move_to own other x (sg, rn)) sg rn (v_move (set own) (set other) x (view sg rn))"
  unfolding move_to_def v_move_def
  by (rule reaches_bind [OF disconnect_view [OF assms(1,2,4)] assms(1)]) (use assms connect_view in metis)

lemma Partition_view:
  assumes "grp_ok sg" "set p1 \<subseteq> {..<grp_N sg}" "set p2 \<subseteq> {..<grp_N sg}"
  shows "reaches (Partition p1 p2 (sg, rn)) sg rn
    (fold (v_move (set p2) (set p1)) p2 (fold (v_move (set p1) (set p2)) p1 (view sg rn)))"
  unfolding Partition_def
proof (rule reaches_bind [OF _ assms(1)])
  show "reaches (each (move_to p1 p2) p1 (sg, rn)) sg rn (fold (v_move (set p1) (set p2)) p1 (view sg rn))"
    by (rule reaches_each [OF move_to_view assms(1)]) (use assms in auto)
  fix sg' :: "'a ServerGrp" and rn' :: "'b Network"
  assume sg': "grp_ok sg'" "grp_N sg' = grp_N sg" "view sg' rn' = fold (v_move (set p1) (set p2)) p1 (view sg rn)"
  show "reaches (each (move_to p2 p1) p2 (sg', rn')) sg' rn' (fold (v_move (set p2) (set p1)) p2 (fold (v_move (set p1) (set p2)) p1 (view sg rn)))"
    unfolding sg'(3) [symmetric] by (rule reaches_each [OF move_to_view sg'(1)]) (use assms sg'(2) in auto)
qed

text \<open>What moving all servers of one side does to the view.\<close>

lemma v_moves:
  assumes "set xs \<subseteq> own" "own \<inter> other = {}"
  shows "case fold (v_move own other) xs (c, l) of (c', l') \<Rightarrow>
    (\<forall>i. c' i = (i \<in> set xs \<or> c i)) \<and> (\<forall>a \<in> set xs. \<forall>b \<in> set xs. l' a b) \<and>
    (\<forall>a b. a \<in> set xs \<and> b \<in> other \<or> b \<in> set xs \<and> a \<in> other \<longrightarrow> \<not> l' a b) \<and>
    (\<forall>a b. \<not> (a \<in> own \<and> b \<in> own \<union> other) \<and> \<not> (b \<in> own \<and> a \<in> own \<union> other) \<longrightarrow> l' a b = l a b)"
  using assms(1)
proof (induction xs rule: rev_induct)
  case (snoc x xs)
  obtain c1 l1 where f: "fold (v_move own other) xs (c, l) = (c1, l1)" by fastforce
  with snoc have ih: "\<forall>i. c1 i = (i \<in> set xs \<or> c i)" "\<forall>a \<in> set xs. \<forall>b \<in> set xs. l1 a b"
    "\<forall>a b. a \<in> set xs \<and> b \<in> other \<or> b \<in> set xs \<and> a \<in> other \<longrightarrow> \<not> l1 a b"
    "\<forall>a b. \<not> (a \<in> own \<and> b \<in> own \<union> other) \<and> \<not> (b \<in> own \<and> a \<in> own \<union> other) \<longrightarrow> l1 a b = l a b" by auto
  have x: "x \<in> own" "x \<notin> other" "set xs \<subseteq> own" "set xs \<inter> other = {}" using snoc.prems assms(2) by auto
  let ?l = "\<lambda>a b. (l1 a b \<and> \<not> (a = x \<and> b \<in> other) \<and> \<not> (b = x \<and> a \<in> other)) \<or>
    a = x \<and> b \<in> own \<and> (c1(x := True)) b \<or> b = x \<and> a \<in> own \<and> (c1(x := True)) a"
  have step: "fold (v_move own other) (xs @ [x]) (c, l) = (c1(x := True), ?l)"
    by (simp add: f v_move_def v_connect_def v_disconnect_def)
  show ?case unfolding step prod.case
  proof (intro conjI)
    show "\<forall>i. (c1(x := True)) i = (i \<in> set (xs @ [x]) \<or> c i)" using ih(1) by simp
    show "\<forall>a \<in> set (xs @ [x]). \<forall>b \<in> set (xs @ [x]). ?l a b" using ih(1,2) x by auto
    show "\<forall>a b. a \<in> set (xs @ [x]) \<and> b \<in> other \<or> b \<in> set (xs @ [x]) \<and> a \<in> other \<longrightarrow> \<not> ?l a b" using ih(3) x assms(2) by auto
    show "\<forall>a b. \<not> (a \<in> own \<and> b \<in> own \<union> other) \<and> \<not> (b \<in> own \<and> a \<in> own \<union> other) \<longrightarrow> ?l a b = l a b" using ih(4) x(1) by auto
  qed
qed simp

definition v_partition :: "nat set \<Rightarrow> nat set \<Rightarrow> view \<Rightarrow> view" where
  "v_partition p q = (\<lambda>(c, l). (\<lambda>i. i \<in> p \<union> q \<or> c i,
     \<lambda>a b. if a \<in> p \<and> b \<in> p \<or> a \<in> q \<and> b \<in> q then True else if a \<in> p \<and> b \<in> q \<or> a \<in> q \<and> b \<in> p then False else l a b))"

lemma v_moves_partition:
  assumes "set p1 \<inter> set p2 = {}"
  shows "fold (v_move (set p2) (set p1)) p2 (fold (v_move (set p1) (set p2)) p1 v) = v_partition (set p1) (set p2) v"
proof -
  obtain c l where v: "v = (c, l)" by fastforce
  obtain c1 l1 where f1: "fold (v_move (set p1) (set p2)) p1 (c, l) = (c1, l1)" by fastforce
  obtain c2 l2 where f2: "fold (v_move (set p2) (set p1)) p2 (c1, l1) = (c2, l2)" by fastforce
  note m1 = v_moves [OF subset_refl assms, of c l, unfolded f1 prod.case]
  note m2 = v_moves [OF subset_refl assms [unfolded Int_commute [of "set p1"]], of c1 l1, unfolded f2 prod.case]
  have "c2 i = (i \<in> set p1 \<union> set p2 \<or> c i)" for i using m1 m2 by auto
  moreover have "l2 a b = (if a \<in> set p1 \<and> b \<in> set p1 \<or> a \<in> set p2 \<and> b \<in> set p2 then True
      else if a \<in> set p1 \<and> b \<in> set p2 \<or> a \<in> set p2 \<and> b \<in> set p1 then False else l a b)" for a b
  proof (cases "a \<in> set p1 \<and> b \<in> set p1")
    case True
    then have "a \<notin> set p2" "b \<notin> set p2" using assms by auto
    then have "l2 a b = l1 a b" using m2 by simp
    with True show ?thesis using m1 by simp
  next
    case no: False
    show ?thesis
    proof (cases "a \<in> set p2 \<and> b \<in> set p2 \<or> a \<in> set p1 \<and> b \<in> set p2 \<or> a \<in> set p2 \<and> b \<in> set p1")
      case True with no show ?thesis using m2 assms by auto
    next
      case False
      with no have "l2 a b = l1 a b" "l1 a b = l a b" using m1 m2 by (metis UnE)+
      with False no show ?thesis by auto
    qed
  qed
  ultimately show ?thesis unfolding v f1 f2 v_partition_def by (simp add: fun_eq_iff)
qed

section \<open>Restarts\<close>

lemma makeServer_names: "makeServer gid names rn = Some (s, rn') \<Longrightarrow> s = \<lparr>srv_saved = None, srv_endNames = names, srv_dc = None\<rparr>"
  by (auto simp: makeServer_def bind_eq_Some_conv)

lemma make_ends_net:
  "make_ends gid j names rn = Some rn' \<Longrightarrow>
     rn_heap rn' = rn_heap rn \<and> set (rn_ends rn') = set (rn_ends rn) \<union> set names \<and> distinct names \<and> set names \<inter> set (rn_ends rn) = {} \<and>
     (\<forall>e. is_enabled rn' e \<longleftrightarrow> is_enabled rn e \<and> e \<notin> set names)"
proof (induction names arbitrary: j rn)
  case (Cons e es)
  then obtain rn1 where rn1: "MakeEnd e rn = Some rn1" "make_ends gid (j + 1) es (Connect e (ServerName gid j) rn1) = Some rn'"
    by (auto simp: bind_eq_Some_conv)
  from Cons.IH [OF rn1(2)] rn1(1) show ?case by (auto simp: MakeEnd_def Connect_def is_enabled_def split: if_splits)
qed simp

section \<open>Groups that share a network\<close>

text \<open>The servers of a group have ends that exist.\<close>

definition grp_on :: "'p ServerGrp \<Rightarrow> 's Network \<Rightarrow> bool" where
  "grp_on sg rn \<longleftrightarrow> grp_ok sg \<and> grp_ends sg \<subseteq> set (rn_ends rn)"

text \<open>An operation of one group: it may add new ends, and leaves the other ends of the network alone.\<close>

definition grp_step :: "'p ServerGrp \<Rightarrow> 's Network \<Rightarrow> 'p ServerGrp \<Rightarrow> 's Network \<Rightarrow> view \<Rightarrow> bool" where
  "grp_step sg rn sg' rn' v \<longleftrightarrow> grp_on sg' rn' \<and> grp_N sg' = grp_N sg \<and> grp_gid sg' = grp_gid sg \<and> set (rn_ends rn) \<subseteq> set (rn_ends rn') \<and>
     grp_ends sg' \<inter> set (rn_ends rn) \<subseteq> grp_ends sg \<and> view sg' rn' = v \<and>
     (\<forall>e \<in> set (rn_ends rn) - grp_ends sg. is_enabled rn' e = is_enabled rn e)"

lemma grp_step_trans:
  assumes "grp_step sg rn sg1 rn1 v" "grp_step sg1 rn1 sg2 rn2 w"
  shows "grp_step sg rn sg2 rn2 w"
proof -
  have "is_enabled rn2 e = is_enabled rn e" if "e \<in> set (rn_ends rn) - grp_ends sg" for e
  proof -
    have "e \<in> set (rn_ends rn1) - grp_ends sg1" using assms(1) that by (auto simp: grp_step_def)
    then show ?thesis using assms that by (auto simp: grp_step_def)
  qed
  moreover have "grp_ends sg2 \<inter> set (rn_ends rn) \<subseteq> grp_ends sg" using assms by (fastforce simp: grp_step_def)
  ultimately show ?thesis using assms by (auto simp: grp_step_def)
qed

lemma reaches_step:
  assumes "reaches r sg rn v" "grp_on sg rn"
  shows "\<exists>sg' rn'. r = Some (sg', rn') \<and> grp_step sg rn sg' rn' v \<and> grp_srvs sg' = grp_srvs sg \<and> rn_servers rn' = rn_servers rn \<and> rn_heap rn' = rn_heap rn"
proof -
  obtain c m where r: "r = Some (sg\<lparr>grp_connected := c\<rparr>, rn\<lparr>rn_enabled := m\<rparr>)" "length c = grp_N sg"
    "view (sg\<lparr>grp_connected := c\<rparr>) (rn\<lparr>rn_enabled := m\<rparr>) = v" "\<forall>e. e \<notin> grp_ends sg \<longrightarrow> m e = rn_enabled rn e"
    using assms(1) by (auto simp: reaches_def)
  have "grp_step sg rn (sg\<lparr>grp_connected := c\<rparr>) (rn\<lparr>rn_enabled := m\<rparr>) v"
    using r(2-4) assms(2) by (auto simp: grp_step_def grp_on_def is_enabled_def)
  with r(1) show ?thesis by auto
qed

lemma ConnectOne_step:
  assumes "grp_on sg rn" "i < grp_N sg"
  shows "\<exists>sg' rn'. ConnectOne i (sg, rn) = Some (sg', rn') \<and> grp_step sg rn sg' rn' (v_connect i {..<grp_N sg} (view sg rn)) \<and> grp_srvs sg' = grp_srvs sg"
  using reaches_step [OF connect_view [of sg i "all_srvs sg" rn] assms(1)] assms
  by (auto simp: ConnectOne_def all_srvs_def grp_on_def lessThan_atLeast0)

lemma view_same_ends:
  assumes "map srv_endNames (grp_srvs sg') = map srv_endNames (grp_srvs sg)" "grp_connected sg' = grp_connected sg" "rn_enabled rn' = rn_enabled rn"
  shows "view sg' rn' = view sg rn" "grp_ok sg' = grp_ok sg" "grp_ends sg' = grp_ends sg" "grp_N sg' = grp_N sg"
proof -
  show n: "grp_N sg' = grp_N sg" using arg_cong [OF assms(1), of length] by simp
  have e: "srv_endNames (grp_srvs sg' ! a) = srv_endNames (grp_srvs sg ! a)" if "a < grp_N sg" for a
    using arg_cong [OF assms(1), of "\<lambda>xs. xs ! a"] that n by simp
  then show "view sg' rn' = view sg rn"
    using assms(2,3) n by (auto simp: view_def link_def end_name_def is_enabled_def fun_eq_iff)
  show "grp_ok sg' = grp_ok sg" "grp_ends sg' = grp_ends sg" using assms(1,2) n e by (auto simp: grp_ok_def grp_ends_def list_all_length)
qed

lemma Shutdown_step:
  assumes "grp_on sg rn" "i < grp_N sg"
  shows "\<exists>sg' rn'. ShutdownServer pr i (sg, rn) = Some (sg', rn') \<and> grp_step sg rn sg' rn' (v_disconnect i {..<grp_N sg} (view sg rn))"
proof -
  have "set (all_srvs sg) = {..<grp_N sg}" by (auto simp: all_srvs_def)
  then obtain sg1 rn1 where d: "disconnect i (all_srvs sg) (sg, rn) = Some (sg1, rn1)"
    "grp_step sg rn sg1 rn1 (v_disconnect i {..<grp_N sg} (view sg rn))" "grp_srvs sg1 = grp_srvs sg"
    using reaches_step [OF disconnect_view [of sg i "all_srvs sg" rn] assms(1)] assms by (auto simp: grp_on_def)
  let ?rn = "DeleteServer (ServerName (grp_gid sg1) i) rn1"
  let ?sg = "sg1\<lparr>grp_srvs := (grp_srvs sg1)[i := shutdownServer pr (grp_srvs sg1 ! i) ?rn]\<rparr>"
  have same: "map srv_endNames (grp_srvs ?sg) = map srv_endNames (grp_srvs sg1)"
    using assms(2) d(3) by (intro nth_equalityI) (auto simp: nth_list_update shutdownServer_def split: option.splits)
  have "grp_step sg rn ?sg ?rn (v_disconnect i {..<grp_N sg} (view sg rn))"
    using d(2) view_same_ends [OF same, of ?rn rn1] by (auto simp: grp_step_def grp_on_def DeleteServer_def is_enabled_def)
  then show ?thesis using d(1,3) assms(2) by (simp add: ShutdownServer_def nth_at_def Let_def)
qed

text \<open>A restart gives server \<open>i\<close> new ends, which are disabled.\<close>

definition v_restart :: "nat \<Rightarrow> view \<Rightarrow> view" where
  "v_restart i = (\<lambda>(c, l). (c, \<lambda>a b. a \<noteq> i \<and> l a b))"

lemma concat_update_distinct:
  assumes "distinct (concat xss)" "i < length xss" "distinct ys" "set ys \<inter> set (concat xss) = {}"
  shows "distinct (concat (xss[i := ys]))"
  using assms
proof (induction xss arbitrary: i)
  case (Cons xs xss)
  then show ?case
  proof (cases i)
    case (Suc j)
    have "set (concat (xss[j := ys])) \<subseteq> set ys \<union> set (concat xss)" using set_update_subset_insert [of xss j ys] by auto
    with Suc Cons show ?thesis by fastforce
  qed (use Cons.prems in auto)
qed simp

lemma fresh_server_step:
  assumes "grp_on sg rn" "i < grp_N sg" "length names = grp_N sg" "makeServer (grp_gid sg) names rn = Some (s0, rn1)"
    and "srv_endNames srv = names" "rn_ends rn' = rn_ends rn1" "rn_enabled rn' = rn_enabled rn1"
  defines "sg' \<equiv> sg\<lparr>grp_srvs := (grp_srvs sg)[i := srv]\<rparr>"
  shows "grp_step sg rn sg' rn' (v_restart i (view sg rn))"
proof -
  have "make_ends (grp_gid sg) 0 names rn = Some rn1" using assms(4) by (auto simp: makeServer_def bind_eq_Some_conv)
  from make_ends_net [OF this] have new: "set (rn_ends rn1) = set (rn_ends rn) \<union> set names" "distinct names"
    "set names \<inter> set (rn_ends rn) = {}" "\<And>e. is_enabled rn1 e \<longleftrightarrow> is_enabled rn e \<and> e \<notin> set names" by auto
  have en: "is_enabled rn' e \<longleftrightarrow> is_enabled rn e \<and> e \<notin> set names" for e using new(4) assms(7) by (simp add: is_enabled_def)
  have old: "grp_ok sg" "grp_ends sg \<subseteq> set (rn_ends rn)" using assms(1) by (auto simp: grp_on_def)
  have ends: "grp_ends sg' \<subseteq> grp_ends sg \<union> set names"
    using set_update_subset_insert [of "grp_srvs sg" i srv] assms(5) by (fastforce simp: grp_ends_def sg'_def)
  have ok: "grp_ok sg'"
    using concat_update_distinct [of "map srv_endNames (grp_srvs sg)" i names] old new(2,3) assms(2,3,5)
    by (auto simp: grp_ok_def grp_ends_def sg'_def map_update list_all_length nth_list_update)
  have "link sg' rn' a b \<longleftrightarrow> a \<noteq> i \<and> link sg rn a b" if ab: "a < grp_N sg" "b < grp_N sg" for a b
  proof (cases "a = i")
    case True
    then have "end_name sg' a b \<in> set names" using ab assms(2,3,5) by (auto simp: end_name_def sg'_def)
    then show ?thesis using True en by (simp add: link_def)
  next
    case False
    then have "end_name sg' a b = end_name sg a b" by (simp add: end_name_def sg'_def)
    moreover have "end_name sg a b \<notin> set names" using end_name_in [OF old(1) ab] old(2) new(3) by auto
    ultimately show ?thesis using False en by (simp add: link_def)
  qed
  then have "view sg' rn' = v_restart i (view sg rn)" by (auto simp: view_def v_restart_def sg'_def fun_eq_iff)
  moreover have "grp_on sg' rn'" using ok ends old(2) new(1) assms(6) by (auto simp: grp_on_def)
  ultimately show ?thesis using ends new(1,3) en assms(6) by (auto simp: grp_step_def sg'_def)
qed

lemma StartServer_step:
  assumes "grp_on sg rn" "length names = grp_N sg" "StartServer pr names ps started i (sg, rn) = Some (ok, sg', rn')"
  shows "i < grp_N sg \<and> (if srv_dc (grp_srvs sg ! i) = None then grp_step sg rn sg' rn' (v_restart i (view sg rn)) else sg' = sg \<and> rn' = rn)"
proof (cases "srv_dc (grp_srvs sg ! i) = None")
  case True
  define srv where "srv = (\<lambda>s0 :: 'a TServer. s0\<lparr>srv_saved := Some (case srv_saved (grp_srvs sg ! i) of None \<Rightarrow> ps | Some p \<Rightarrow> p)\<rparr>)"
  from True assms(3) obtain s0 rn1 where m: "i < grp_N sg" "makeServer (grp_gid sg) names rn = Some (s0, rn1)"
    and e: "sg' = sg\<lparr>grp_srvs := (grp_srvs sg)[i := if started then (srv s0)\<lparr>srv_dc := Some (length (rn_heap rn1))\<rparr> else srv s0]\<rparr>"
      "rn_ends rn' = rn_ends rn1" "rn_enabled rn' = rn_enabled rn1"
    by (auto simp: StartServer_def startServer_def bind_eq_Some_conv Let_def AddServer_def srv_def split: if_splits)
  have names: "srv_endNames (if started then (srv s0)\<lparr>srv_dc := Some (length (rn_heap rn1))\<rparr> else srv s0) = names"
    using makeServer_names [OF m(2)] by (simp add: srv_def)
  show ?thesis using fresh_server_step [OF assms(1) m(1) assms(2) m(2) names e(2,3)] True m(1) by (simp add: e(1))
next
  case False
  with assms(3) show ?thesis by (auto simp: StartServer_def bind_eq_Some_conv)
qed

lemma disabled_call: "\<not> link sg rn a b \<Longrightarrow> q_pc (fst (processReq r (Call (end_name sg a b) m args) rn)) = Timer lost"
  by (simp add: processReq_def readEndnameInfo_def link_def Call_def Let_def count_bytes_def is_enabled_def)

lemma Partition_step:
  assumes "grp_on sg rn" "set p1 \<union> set p2 \<subseteq> {..<grp_N sg}" "set p1 \<inter> set p2 = {}"
  shows "\<exists>sg' rn'. Partition p1 p2 (sg, rn) = Some (sg', rn') \<and> grp_step sg rn sg' rn' (v_partition (set p1) (set p2) (view sg rn)) \<and> grp_srvs sg' = grp_srvs sg"
  using reaches_step [OF Partition_view [of sg p1 p2 rn] assms(1)] assms by (auto simp: v_moves_partition grp_on_def)

text \<open>The places filled so far, as one list.\<close>

lemma fill_parts_spec:
  assumes "j + length (filter (\<lambda>i. i \<noteq> l) is) \<le> length p1 + length p2"
  shows "\<exists>q1 q2. fill_parts l is j (p1, p2) = Some (q1, q2) \<and> length q1 = length p1 \<and> length q2 = length p2 \<and>
    q1 @ q2 = take j (p1 @ p2) @ filter (\<lambda>i. i \<noteq> l) is @ drop (j + length (filter (\<lambda>i. i \<noteq> l) is)) (p1 @ p2)"
  using assms
proof (induction "is" arbitrary: j p1 p2)
  case (Cons i "is")
  define os where "os = filter (\<lambda>i. i \<noteq> l) is"
  show ?case
  proof (cases "i = l")
    case True
    then show ?thesis using Cons.IH [of j p1 p2] Cons.prems by simp
  next
    case False
    define p where "p = (p1 @ p2)[j := i]"
    have j: "j < length (p1 @ p2)" "j + 1 + length os \<le> length (p1 @ p2)" using Cons.prems False by (auto simp: os_def)
    have p: "take (j + 1) p = take j (p1 @ p2) @ [i]" "drop (j + 1 + length os) p = drop (j + 1 + length os) (p1 @ p2)"
      using j(1) by (auto simp: p_def take_Suc_conv_app_nth)
    show ?thesis
    proof (cases "j < length p1")
      case True
      then have "p = p1[j := i] @ p2" by (simp add: p_def list_update_append)
      then show ?thesis using Cons.IH [of "j + 1" "p1[j := i]" p2] False True j p by (auto simp: os_def)
    next
      case no: False
      then have "p = p1 @ p2[j - length p1 := i]" by (simp add: p_def list_update_append)
      then show ?thesis using Cons.IH [of "j + 1" p1 "p2[j - length p1 := i]"] False no j p by (auto simp: os_def)
    qed
  qed
qed (simp del: take_append drop_append)

lemma others_list: "l < n \<Longrightarrow> length (filter (\<lambda>i. i \<noteq> l) [0..<n]) = n - 1"
proof (induction n)
  case (Suc n)
  then show ?case by (cases "l = n") (auto simp: filter_id_conv)
qed simp

text \<open>With an odd number of servers \<open>MakePartition\<close> puts \<open>l\<close> into the smaller of two parts; with four servers server 0 is in both.\<close>

lemma MakePartition_odd:
  assumes "grp_N sg = 2 * k + 1" "0 < k" "l < grp_N sg"
  shows "\<exists>p1 p2. MakePartition l sg = Some (p1, p2) \<and> length p1 = k + 1 \<and> length p2 = k \<and> l \<in> set p2 \<and>
    distinct (p1 @ p2) \<and> set (p1 @ p2) = {..<grp_N sg}"
proof -
  define os where "os = filter (\<lambda>i. i \<noteq> l) (all_srvs sg)"
  have os: "length os = 2 * k" "set os = {..<grp_N sg} - {l}" "distinct os"
    using others_list [OF assms(3)] assms(1) by (auto simp: os_def all_srvs_def)
  have n: "grp_N sg div 2 = k" using assms(1) by simp
  have "replicate (k + 1) (0::nat) @ replicate k 0 = replicate (2 * k + 1) 0" by (simp flip: replicate_add)
  then have zero: "drop (2 * k) (replicate (k + 1) (0::nat) @ replicate k 0) = [0]" by (simp only: drop_replicate) simp
  have "0 + length os \<le> length (replicate (k + 1) (0::nat)) + length (replicate k (0::nat))" using os(1) by simp
  then obtain q1 q2 where q: "fill_parts l (all_srvs sg) 0 (replicate (k + 1) 0, replicate k 0) = Some (q1, q2)"
    "length q1 = k + 1" "length q2 = k" "q1 @ q2 = os @ [0]"
    using fill_parts_spec [of 0 l "all_srvs sg" "replicate (k + 1) 0" "replicate k 0", folded os_def] zero os(1) by auto
  obtain y q where q2: "q2 = q @ [y]" using q(3) assms(2) by (cases q2 rule: rev_cases) auto
  have last: "q2[k - 1 := l] = butlast q2 @ [l]" "q2 \<noteq> []" using q(3) by (auto simp: q2)
  have "q1 @ butlast q2 = os" using q(4) last(2) by (metis butlast_append butlast_snoc)
  then have parts: "q1 @ q2[k - 1 := l] = os @ [l]" using last(1) by (metis append.assoc)
  have "l \<in> set (q2[k - 1 := l])" using last(1) by simp
  moreover have "distinct (q1 @ q2[k - 1 := l])" "set (q1 @ q2[k - 1 := l]) = {..<grp_N sg}" unfolding parts using os assms(3) by auto
  ultimately show ?thesis using q(1-3) last(2) by (simp add: MakePartition_def n)
qed

lemma MakePartition_four: "grp_N sg = 4 \<Longrightarrow> MakePartition 3 sg = Some ([0, 1, 2], [0, 3])"
proof -
  have "[0..<4] = [0, 1, 2, 3]" "replicate (4 div 2 + 1) (0::nat) = [0, 0, 0]" "replicate (4 div 2) (0::nat) = [0, 0]" by code_simp+
  then show "grp_N sg = 4 \<Longrightarrow> MakePartition 3 sg = Some ([0, 1, 2], [0, 3])" by (simp add: MakePartition_def all_srvs_def)
qed

section \<open>Properties\<close>

text \<open>
  C17. Partition does what it says: afterwards the ends between two servers of one part are enabled,
  those between the parts are disabled, so that a call over one is never answered, the other ends
  are as before, and every server of the parts counts as connected.
\<close>

theorem Partition_correct:
  assumes "grp_ok sg" "set p1 \<union> set p2 \<subseteq> {..<grp_N sg}" "set p1 \<inter> set p2 = {}"
  shows "\<exists>sg' rn'. Partition p1 p2 (sg, rn) = Some (sg', rn') \<and>
    (\<forall>i < grp_N sg. grp_connected sg' ! i \<longleftrightarrow> i \<in> set p1 \<union> set p2 \<or> grp_connected sg ! i) \<and>
    (\<forall>a < grp_N sg. \<forall>b < grp_N sg. link sg' rn' a b \<longleftrightarrow>
       (if a \<in> set p1 \<and> b \<in> set p1 \<or> a \<in> set p2 \<and> b \<in> set p2 then True
        else if a \<in> set p1 \<and> b \<in> set p2 \<or> a \<in> set p2 \<and> b \<in> set p1 then False
        else link sg rn a b)) \<and>
    (\<forall>a \<in> set p1. \<forall>b \<in> set p2. \<forall>m args r. q_pc (fst (processReq r (Call (end_name sg' a b) m args) rn')) = Timer lost)"
proof -
  have "reaches (Partition p1 p2 (sg, rn)) sg rn (v_partition (set p1) (set p2) (view sg rn))"
    using Partition_view [of sg p1 p2 rn] assms by (simp add: v_moves_partition)
  then obtain sg' rn' where g: "Partition p1 p2 (sg, rn) = Some (sg', rn')" "grp_N sg' = grp_N sg"
    and v: "view sg' rn' = v_partition (set p1) (set p2) (view sg rn)"
    by (auto simp: reaches_def)
  have c: "\<forall>i < grp_N sg. grp_connected sg' ! i \<longleftrightarrow> i \<in> set p1 \<union> set p2 \<or> grp_connected sg ! i"
  proof (intro allI impI)
    fix i assume "i < grp_N sg"
    with fun_cong [OF arg_cong [OF v, of fst], of i] show "grp_connected sg' ! i \<longleftrightarrow> i \<in> set p1 \<union> set p2 \<or> grp_connected sg ! i"
      using assms(2) g(2) by (auto simp: view_def v_partition_def)
  qed
  have l: "link sg' rn' a b \<longleftrightarrow> (if a \<in> set p1 \<and> b \<in> set p1 \<or> a \<in> set p2 \<and> b \<in> set p2 then True
      else if a \<in> set p1 \<and> b \<in> set p2 \<or> a \<in> set p2 \<and> b \<in> set p1 then False else link sg rn a b)" if "a < grp_N sg" "b < grp_N sg" for a b
    using fun_cong [OF fun_cong [OF arg_cong [OF v, of snd], of a], of b] that g(2) by (simp add: view_def v_partition_def split: if_splits)
  have "\<not> link sg' rn' a b" if "a \<in> set p1" "b \<in> set p2" for a b
  proof -
    have "a < grp_N sg" "b < grp_N sg" "a \<notin> set p2" "b \<notin> set p1" using that assms(2,3) by auto
    with l [of a b] that show ?thesis by simp
  qed
  with g(1) c l show ?thesis by (blast intro: disabled_call)
qed

text \<open>
  C18. Stopping a server and starting it again loses nothing it had stored: the new process starts
  from the stable storage the old one had when it was stopped.
\<close>

theorem restart_from_storage:
  assumes "grp_on sg rn" "i < grp_N sg" "srv_dc (grp_srvs sg ! i) = Some d"
    and "ShutdownServer pr i (sg, rn) = Some (sg1, rn1)" "StartServer pr names ps True i (sg1, rn1) = Some (ok, sg2, rn2)"
  shows "ok \<and> (\<exists>d2. srv_dc (grp_srvs sg2 ! i) = Some d2 \<and> server_at rn2 (ServerName (grp_gid sg) i) = Some d2 \<and>
    d2 < length (rn_heap rn2) \<and> rs_objects (rn_heap rn2 ! d2) = p_boot pr (grp_gid sg) i (p_storage pr (rs_objects (rn_heap rn ! d))))"
proof -
  have "set (all_srvs sg) = {..<grp_N sg}" by (auto simp: all_srvs_def)
  then obtain sg0 rn0 where d: "disconnect i (all_srvs sg) (sg, rn) = Some (sg0, rn0)" "grp_srvs sg0 = grp_srvs sg"
    "rn_heap rn0 = rn_heap rn" "grp_gid sg0 = grp_gid sg"
    using reaches_step [OF disconnect_view [of sg i "all_srvs sg" rn] assms(1)] assms(1,2) by (auto simp: grp_on_def grp_step_def)
  have s1: "sg1 = sg0\<lparr>grp_srvs := (grp_srvs sg)[i := (grp_srvs sg ! i)\<lparr>srv_saved := Some (p_storage pr (rs_objects (rn_heap rn ! d))), srv_dc := None\<rparr>]\<rparr>"
    "rn1 = DeleteServer (ServerName (grp_gid sg) i) rn0"
    using assms(2-4) d by (auto simp: ShutdownServer_def nth_at_def Let_def shutdownServer_def DeleteServer_def)
  obtain s2 :: "'a TServer" and rn3 where m: "makeServer (grp_gid sg) names rn1 = Some (s2, rn3)"
    using assms(2,5) d(4) by (auto simp: s1(1) StartServer_def startServer_def bind_eq_Some_conv)
  have e: "ok" "srv_dc (grp_srvs sg2 ! i) = Some (length (rn_heap rn3))"
      "rn2 = AddServer (ServerName (grp_gid sg) i) (SetDispatch (p_forward pr)
        (MakeServer (p_boot pr (grp_gid sg) i (p_storage pr (rs_objects (rn_heap rn ! d)))))) rn3"
    using assms(2,5) d(4) m by (auto simp: s1(1) StartServer_def startServer_def bind_eq_Some_conv Let_def split: if_splits)
  show ?thesis using e by (simp add: AddServer_def server_at_def SetDispatch_def MakeServer_def)
qed

definition counter_prog :: "(nat, nat) prog" where
  "counter_prog = \<lparr>p_boot = \<lambda>gid i p. p, p_storage = \<lambda>s. s, p_forward = \<lambda>m args s. (s + 1, [], True)\<rparr>"

definition three :: "nat ServerGrp" where
  "three = \<lparr>grp_srvs = map (\<lambda>ns. \<lparr>srv_saved = None, srv_endNames = ns, srv_dc = None\<rparr>)
       [[''aa'', ''ab'', ''ac''], [''ba'', ''bb'', ''bc''], [''ca'', ''cb'', ''cc'']],
     grp_gid = 1, grp_connected = [False, True, False]\<rparr>"

lemma three_ok: "grp_ok three" "grp_N three = 3"
  by code_simp+

theorem Partition_correct_witness:
  "grp_ok three \<and> (\<exists>sg' rn'. Partition [0, 1] [2] (three, MakeNetwork :: nat Network) = Some (sg', rn') \<and>
     link sg' rn' 0 1 \<and> link sg' rn' 1 0 \<and> \<not> link sg' rn' 0 2 \<and> \<not> link sg' rn' 2 1)"
proof -
  have "set [0, 1] \<union> set [2] \<subseteq> {..<grp_N three}" "set [0, 1] \<inter> set [2 :: nat] = {}" using three_ok(2) by auto
  from Partition_correct [OF three_ok(1) this, of "MakeNetwork :: nat Network"]
  obtain sg' and rn' :: "nat Network" where p: "Partition [0, 1] [2] (three, MakeNetwork) = Some (sg', rn')"
    and l: "\<forall>a < grp_N three. \<forall>b < grp_N three. link sg' rn' a b \<longleftrightarrow>
       (if a \<in> set [0, 1] \<and> b \<in> set [0, 1] \<or> a \<in> set [2] \<and> b \<in> set [2] then True
        else if a \<in> set [0, 1] \<and> b \<in> set [2] \<or> a \<in> set [2] \<and> b \<in> set [0, 1] then False
        else link three (MakeNetwork :: nat Network) a b)" by (elim exE conjE)
  have "link sg' rn' 0 1 \<and> link sg' rn' 1 0 \<and> \<not> link sg' rn' 0 2 \<and> \<not> link sg' rn' 2 1"
    using l [THEN spec [of _ 0]] l [THEN spec [of _ 1]] l [THEN spec [of _ 2]] three_ok(2) by simp
  with p three_ok(1) show ?thesis by blast
qed

definition restart_names :: "string list list" where
  "restart_names = [[''aa'', ''ab'', ''ac''], [''ba'', ''bb'', ''bc''], [''ca'', ''cb'', ''cc'']]"

definition running :: "(nat ServerGrp \<times> nat Network) option" where
  "running = do {
     g \<leftarrow> makeSrvGrp 1 restart_names MakeNetwork;
     map_option snd (StartServer counter_prog [''da'', ''db'', ''dc''] 7 True 1 g) }"

lemma running_ok:
  "case running of None \<Rightarrow> False | Some (sg, rn) \<Rightarrow>
     grp_on sg rn \<and> 1 < grp_N sg \<and> grp_gid sg = 1 \<and> srv_dc (grp_srvs sg ! 1) = Some 0 \<and> rs_objects (rn_heap rn ! 0) = 7 \<and>
     (case ShutdownServer counter_prog 1 (sg, rn) of None \<Rightarrow> False | Some g \<Rightarrow>
        (case StartServer counter_prog [''ea'', ''eb'', ''ec''] 0 True 1 g of None \<Rightarrow> False | Some _ \<Rightarrow> True))"
  by code_simp

theorem restart_from_storage_witness:
  "\<exists>sg rn sg1 rn1 ok sg2 rn2 d2. running = Some (sg, rn) \<and> ShutdownServer counter_prog 1 (sg, rn) = Some (sg1, rn1) \<and>
     StartServer counter_prog [''ea'', ''eb'', ''ec''] 0 True 1 (sg1, rn1) = Some (ok, sg2, rn2) \<and>
     server_at rn2 (ServerName 1 1) = Some d2 \<and> rs_objects (rn_heap rn2 ! d2) = 7"
proof -
  obtain sg rn where r0: "running = Some (sg, rn)" using running_ok by (cases running) auto
  note ok = running_ok [unfolded r0 option.case prod.case]
  from ok have r: "grp_on sg rn" "1 < grp_N sg" "grp_gid sg = 1" "srv_dc (grp_srvs sg ! 1) = Some 0" "rs_objects (rn_heap rn ! 0) = 7" by blast+
  from ok have t: "case ShutdownServer counter_prog 1 (sg, rn) of None \<Rightarrow> False | Some g \<Rightarrow>
      (case StartServer counter_prog [''ea'', ''eb'', ''ec''] 0 True 1 g of None \<Rightarrow> False | Some _ \<Rightarrow> True)" by blast
  from t obtain sg1 rn1 ok sg2 rn2 where s: "ShutdownServer counter_prog 1 (sg, rn) = Some (sg1, rn1)"
    "StartServer counter_prog [''ea'', ''eb'', ''ec''] 0 True 1 (sg1, rn1) = Some (ok, sg2, rn2)"
    by (auto split: option.splits)
  from restart_from_storage [OF r(1,2,4) s] r(3,5) obtain d2 where "server_at rn2 (ServerName 1 1) = Some d2" "rs_objects (rn_heap rn2 ! d2) = 7"
    by (auto simp: counter_prog_def)
  with r0 s show ?thesis by blast
qed

end
