(* ===== verification/Membership.thy ===== *)
theory Membership
  imports Sharded_Store
begin

text \<open>
  How groups join and leave a running cluster, \<open>Init\<close>, \<open>initJoinGroup\<close>, \<open>JoinGroup\<close>, \<open>LeaveGroup\<close> and
  the cached configurations of \<open>shardkv-demo/cluster/manager.go\<close>, on the system of \<open>Shardctrler\<close>. Any
  number of these operations run at the same time, at most one for each group; each is cut where it
  waits for the shard controller. The processes of a group are left out here. \<open>None\<close> is a panic or \<open>log.Fatal\<close>.
\<close>

section \<open>Configurations of the manager\<close>

text \<open>The configuration that \<open>Init\<close> stores, given the servers of group 1.\<close>

definition Init_cfg :: "string list \<Rightarrow> ShardConfig option" where
  "Init_cfg servers = do {
     (ok, scfg) \<leftarrow> Join MakeShardConfig [(Gid1, servers)];
     Rebalance scfg }"

text \<open>What \<open>JoinGroup\<close> and \<open>LeaveGroup\<close> do with the configuration they read.\<close>

datatype adm_choice = Return bool | Change ShardConfig

definition JoinGroup_choice :: "ConfigStore \<Rightarrow> Tgid \<Rightarrow> string list \<Rightarrow> adm_choice option" where
  "JoinGroup_choice st gid srvNames = do {
     cfg \<leftarrow> Query st;
     (ok, newcfg) \<leftarrow> JoinBalance (Copy cfg) [(gid, srvNames)];
     Some (if \<not> ok then Return True else Change newcfg) }"

definition LeaveGroup_choice :: "ConfigStore \<Rightarrow> Tgid \<Rightarrow> adm_choice option" where
  "LeaveGroup_choice st gid = do {
     cfg \<leftarrow> Query st;
     let newcfg = Copy cfg in
     if map_of (Groups newcfg) gid = None then Some (Return True)
     else if length (Groups newcfg) \<le> 1 then Some (Return False)
     else do {
       (ok, newcfg) \<leftarrow> LeaveBalance newcfg [gid];
       Some (if \<not> ok then Return False else Change newcfg) } }"

text \<open>\<open>initJoinGroup\<close> does not look at the result of \<open>JoinBalance\<close>.\<close>

definition initJoinGroup_choice :: "ConfigStore \<Rightarrow> (Tgid \<times> string list) list \<Rightarrow> adm_choice option" where
  "initJoinGroup_choice st servers =
     (if servers = [] then Some (Return True)
      else do {
        cfg \<leftarrow> Query st;
        (ok, newcfg) \<leftarrow> JoinBalance (Copy cfg) servers;
        Some (Change newcfg) })"

section \<open>Cached configurations\<close>

text \<open>The second component of the result: whether \<open>lastConfigOk\<close> is set to the present time.\<close>

definition updateCachedCfg :: "ShardConfig \<Rightarrow> ShardConfig option \<Rightarrow> (ShardConfig option \<times> bool) option" where
  "updateCachedCfg newcfg cached = (case cached of
       None \<Rightarrow> None
     | Some c \<Rightarrow> Some (if Num c \<le> Num newcfg then (Some (if Num c < Num newcfg then newcfg else c), True) else (Some c, False)))"

definition updateCachedNextCfg :: "ShardConfig \<Rightarrow> ShardConfig option \<Rightarrow> ShardConfig option option" where
  "updateCachedNextCfg newcfg cached = (case cached of
       None \<Rightarrow> None
     | Some c \<Rightarrow> Some (Some (if Num c < Num newcfg then newcfg else c)))"

definition hasPendingMigration :: "ShardConfig option \<Rightarrow> ShardConfig option \<Rightarrow> bool" where
  "hasPendingMigration cached cachedNext = (case (cached, cachedNext) of
       (Some c, Some n) \<Rightarrow> Num c \<noteq> Num n
     | _ \<Rightarrow> False)"

section \<open>The manager and the system\<close>

datatype adm_op = JoinOp Tgid "string list" | LeaveOp Tgid | InitJoinOp "(Tgid \<times> string list) list"

text \<open>
  Where an operation is: in \<open>InitController\<close>, before \<open>Query\<close>, in \<open>ChangeConfigTo\<close> with the new
  configuration, or returned. The number is that of the controller it waits for.
\<close>

datatype adm_pc = AInit nat | AQuery | AChange nat ShardConfig | ADone bool

record adm =
  a_sys :: sys
  a_ops :: "(adm_op \<times> adm_pc) list"
  a_cachedConfig :: "ShardConfig option"
  a_cachedNextConfig :: "ShardConfig option"

definition choice :: "adm_op \<Rightarrow> ConfigStore \<Rightarrow> adm_choice option" where
  "choice op st = (case op of
       JoinOp gid srvNames \<Rightarrow> JoinGroup_choice st gid srvNames
     | LeaveOp gid \<Rightarrow> LeaveGroup_choice st gid
     | InitJoinOp servers \<Rightarrow> initJoinGroup_choice st servers)"

definition set_op :: "nat \<Rightarrow> adm_op \<times> adm_pc \<Rightarrow> adm \<Rightarrow> adm" where
  "set_op k x a = a\<lparr>a_ops := (a_ops a)[k := x]\<rparr>"

text \<open>A call of a controller: a new controller runs in the system.\<close>

definition call_ctl :: "sys_event \<Rightarrow> adm \<Rightarrow> adm option" where
  "call_ctl e a = map_option (\<lambda>s. a\<lparr>a_sys := s\<rparr>) (sys_exec e (a_sys a))"

definition ctl_result :: "nat \<Rightarrow> adm \<Rightarrow> bool option" where
  "ctl_result c a = (if c < length (s_ctls (a_sys a)) then
     (case s_ctls (a_sys a) ! c of Finished b \<Rightarrow> Some b | _ \<Rightarrow> None) else None)"

text \<open>The next piece of an operation; it waits while its controller has not finished.\<close>

definition adm_step :: "nat \<Rightarrow> adm \<Rightarrow> adm option" where
  "adm_step k a = (if k < length (a_ops a) then (case a_ops a ! k of (op, pc) \<Rightarrow> (case pc of
       AInit c \<Rightarrow> Some (if ctl_result c a = None then a else set_op k (op, AQuery) a)
     | AQuery \<Rightarrow> do {
         ch \<leftarrow> choice op (s_store (a_sys a));
         (case ch of
            Return b \<Rightarrow> Some (set_op k (op, ADone b) a)
          | Change newcfg \<Rightarrow> do {
              a1 \<leftarrow> call_ctl (Propose newcfg) a;
              Some (set_op k (op, AChange (length (s_ctls (a_sys a))) newcfg) a1) }) }
     | AChange c newcfg \<Rightarrow> (case ctl_result c a of
           None \<Rightarrow> Some a
         | Some ok \<Rightarrow> (case op of
             InitJoinOp _ \<Rightarrow> Some (set_op k (op, ADone True) a)
           | _ \<Rightarrow> if ok then do {
               (cfg', _) \<leftarrow> updateCachedCfg newcfg (a_cachedConfig a);
               next' \<leftarrow> updateCachedNextCfg newcfg (a_cachedNextConfig a);
               Some (set_op k (op, ADone True) (a\<lparr>a_cachedConfig := cfg', a_cachedNextConfig := next'\<rparr>)) }
             else do {
               a1 \<leftarrow> call_ctl Recover a;
               Some (set_op k (op, AInit (length (s_ctls (a_sys a)))) a1) }))
     | ADone b \<Rightarrow> Some a)) else Some a)"

text \<open>The lock of a group is held while one of its operations runs.\<close>

definition locked :: "Tgid \<Rightarrow> adm \<Rightarrow> bool" where
  "locked gid a \<longleftrightarrow> list_ex (\<lambda>(op, pc).
     (case op of JoinOp g _ \<Rightarrow> g = gid | LeaveOp g \<Rightarrow> g = gid | InitJoinOp _ \<Rightarrow> False) \<and>
     (case pc of ADone _ \<Rightarrow> False | _ \<Rightarrow> True)) (a_ops a)"

text \<open>Operations are served when \<open>Init\<close>, the first entry, has returned.\<close>

definition initialised :: "adm \<Rightarrow> bool" where
  "initialised a \<longleftrightarrow> a_ops a \<noteq> [] \<and> (case snd (a_ops a ! 0) of ADone _ \<Rightarrow> True | _ \<Rightarrow> False)"

definition start_op :: "adm_op \<Rightarrow> adm \<Rightarrow> adm option" where
  "start_op op a = (if \<not> initialised a then Some a else (case op of
       InitJoinOp _ \<Rightarrow> Some a
     | JoinOp gid _ \<Rightarrow> if locked gid a then Some a else do {
         a1 \<leftarrow> call_ctl Recover a;
         Some (a1\<lparr>a_ops := a_ops a @ [(op, AInit (length (s_ctls (a_sys a))))]\<rparr>) }
     | LeaveOp gid \<Rightarrow> if gid = 0 then Some (a\<lparr>a_ops := a_ops a @ [(op, ADone False)]\<rparr>)
         else if locked gid a then Some a else do {
         a1 \<leftarrow> call_ctl Recover a;
         Some (a1\<lparr>a_ops := a_ops a @ [(op, AInit (length (s_ctls (a_sys a))))]\<rparr>) }))"

datatype adm_event =
    Admin adm_op           \<comment> \<open>an operation is called\<close>
  | AdmStep nat
  | System sys_event       \<comment> \<open>a step of a controller, the config store or a group, or a client's request\<close>
  | InitCache              \<comment> \<open>\<open>initConfigCache\<close>\<close>
  | Poll                   \<comment> \<open>the two goroutines of \<open>startConfigPoller\<close>\<close>
  | PollNext

definition initConfigCache :: "adm \<Rightarrow> adm option" where
  "initConfigCache a = do {
     cfg \<leftarrow> Query (s_store (a_sys a));
     nextCfg \<leftarrow> QueryNext (s_store (a_sys a));
     Some (a\<lparr>a_cachedConfig := Some cfg, a_cachedNextConfig := Some nextCfg\<rparr>) }"

definition poll_config :: "adm \<Rightarrow> adm option" where
  "poll_config a = do {
     cfg \<leftarrow> Query (s_store (a_sys a));
     (cfg', _) \<leftarrow> updateCachedCfg cfg (a_cachedConfig a);
     Some (a\<lparr>a_cachedConfig := cfg'\<rparr>) }"

definition poll_next :: "adm \<Rightarrow> adm option" where
  "poll_next a = do {
     cfg \<leftarrow> QueryNext (s_store (a_sys a));
     cfg' \<leftarrow> updateCachedNextCfg cfg (a_cachedNextConfig a);
     Some (a\<lparr>a_cachedNextConfig := cfg'\<rparr>) }"

fun adm_exec :: "adm_event \<Rightarrow> adm \<Rightarrow> adm option" where
  "adm_exec (Admin op) a = start_op op a"
| "adm_exec (AdmStep k) a = adm_step k a"
| "adm_exec (System e) a = map_option (\<lambda>s. a\<lparr>a_sys := s\<rparr>) (sys_exec e (a_sys a))"
| "adm_exec InitCache a = initConfigCache a"
| "adm_exec Poll a = poll_config a"
| "adm_exec PollNext a = poll_next a"

fun adm_run :: "adm_event list \<Rightarrow> adm \<Rightarrow> adm option" where
  "adm_run [] a = Some a"
| "adm_run (e # es) a = do { a' \<leftarrow> adm_exec e a; adm_run es a' }"

text \<open>The state in which \<open>Init\<close> calls \<open>initJoinGroup\<close> for the groups other than group 1.\<close>

definition adm_init :: "string list \<Rightarrow> (Tgid \<times> string list) list \<Rightarrow> adm" where
  "adm_init servers others = \<lparr>a_sys = sys_init [(Gid1, servers)], a_ops = [(InitJoinOp others, AQuery)],
     a_cachedConfig = None, a_cachedNextConfig = None\<rparr>"

lemma Init_cfg_first: "Init_cfg servers = Some (first_cfg [(Gid1, servers)])"
  by code_simp

section \<open>Good configurations\<close>

text \<open>Every shard has a group that is a member, and the groups have equally many shards up to one.\<close>

definition good_cfg :: "ShardConfig \<Rightarrow> bool" where
  "good_cfg cfg \<longleftrightarrow> wf_cfg cfg \<and> Groups cfg \<noteq> [] \<and> set (Shards cfg) \<subseteq> gids cfg \<and> CheckConfig cfg (map fst (Groups cfg))"

lemma Copy_groups:
  assumes "distinct (map fst (acc @ gs))"
  shows "foldl (\<lambda>gs (k, srvs). AList.update k srvs gs) acc gs = acc @ gs"
  using assms
proof (induction gs arbitrary: acc)
  case (Cons g gs)
  have "AList.update (fst g) (snd g) acc = acc @ [g]"
    using Cons.prems by (induction acc) auto
  then show ?case using Cons.IH [of "acc @ [g]"] Cons.prems by (simp add: case_prod_beta)
qed simp

lemma Copy_wf: "wf_cfg cfg \<Longrightarrow> Copy cfg = cfg"
  using Copy_groups [of "[]" "Groups cfg"] by (simp add: Copy_def wf_cfg_def MakeShardConfig_def)

lemma Rebalance_good:
  assumes "wf_cfg cfg" "Groups cfg \<noteq> []"
  shows "\<exists>cfg'. Rebalance cfg = Some cfg' \<and> good_cfg cfg' \<and> Num cfg' = Num cfg \<and> Groups cfg' = Groups cfg"
proof -
  obtain cfg' where r: "Rebalance cfg = Some cfg'" "balancing cfg cfg'" "\<not> unbalanced cfg'" by (rule Rebalance_returns [OF assms])
  then show ?thesis using CheckConfig_balanced [of cfg'] by (auto simp: good_cfg_def balancing_def)
qed

lemma Join_loop_good:
  assumes "wf_cfg cfg" "Join_loop cfg changed gs = Some (True, cfg')"
  shows "wf_cfg cfg' \<and> Num cfg' = Num cfg + 1 \<and> (changed \<longrightarrow> Groups cfg \<noteq> [] \<longrightarrow> Groups cfg' \<noteq> []) \<and> (gs \<noteq> [] \<longrightarrow> Groups cfg' \<noteq> [])"
  using assms
proof (induction gs arbitrary: cfg changed)
  case (Cons g gs)
  obtain gid servers where g: "g = (gid, servers)" by fastforce
  let ?c = "cfg\<lparr>Groups := AList.update gid servers (Groups cfg)\<rparr>"
  have j: "Join_loop ?c True gs = Some (True, cfg')" using Cons.prems(2) g by (auto split: if_splits)
  have "wf_cfg ?c" using Cons.prems(1) by (simp add: wf_cfg_def distinct_update)
  moreover have "Groups ?c \<noteq> []" by (cases "Groups cfg") auto
  ultimately show ?case using Cons.IH [OF _ j] by simp
qed (auto simp: wf_cfg_def split: if_splits)

lemma JoinBalance_good:
  assumes "good_cfg cfg" "gs \<noteq> []" "JoinBalance (Copy cfg) gs = Some (True, new)"
  shows "good_cfg new \<and> Num new = Num cfg + 1"
proof -
  have wf: "wf_cfg cfg" using assms(1) by (simp add: good_cfg_def)
  obtain c where c: "Join_loop cfg False gs = Some (True, c)" "Rebalance c = Some new"
    using assms(3) Copy_wf [OF wf] by (auto simp: JoinBalance_def Join_def bind_eq_Some_conv split: if_splits)
  note j = Join_loop_good [OF wf c(1)]
  then obtain cfg' where "Rebalance c = Some cfg'" "good_cfg cfg'" "Num cfg' = Num c" using Rebalance_good [of c] assms(2) by auto
  with c(2) j show ?thesis by simp
qed

lemma LeaveBalance_good:
  assumes "good_cfg cfg" "1 < length (Groups cfg)" "LeaveBalance (Copy cfg) [gid] = Some (True, new)"
  shows "good_cfg new \<and> Num new = Num cfg + 1"
proof -
  have wf: "wf_cfg cfg" using assms(1) by (simp add: good_cfg_def)
  let ?c = "cfg\<lparr>Num := Num cfg + 1, Groups := AList.delete gid (Groups cfg)\<rparr>"
  have r: "Rebalance ?c = Some new"
    using assms(3) Copy_wf [OF wf] by (auto simp: LeaveBalance_def Leave_one bind_eq_Some_conv split: if_splits)
  obtain g h gs where gs: "Groups cfg = g # h # gs" using assms(2) by (cases "Groups cfg"; cases "tl (Groups cfg)") auto
  then have "Groups ?c \<noteq> []" using wf by (auto simp: wf_cfg_def AList.delete_eq)
  then obtain cfg' where "Rebalance ?c = Some cfg'" "good_cfg cfg'" "Num cfg' = Num ?c" using Rebalance_good [OF wf_cfg_leave [OF wf]] by blast
  with r show ?thesis by simp
qed

section \<open>Where configurations come from\<close>

fun ctl_cfgs :: "ctl \<Rightarrow> ShardConfig set" where
  "ctl_cfgs (ReadCur new) = {new}"
| "ctl_cfgs (ReadNext new old ver) = {new, old}"
| "ctl_cfgs (SaveNext new old ver nver) = {new, old}"
| "ctl_cfgs (CheckNext new old ver) = {new, old}"
| "ctl_cfgs InitCur = {}"
| "ctl_cfgs (InitNext cur ver) = {cur}"
| "ctl_cfgs (Moving old ver new mvs) = {old, new}"
| "ctl_cfgs (SaveCur new ver) = {new}"
| "ctl_cfgs (Finished b) = {}"
| "ctl_cfgs Fatal = {}"

definition sys_cfgs :: "sys \<Rightarrow> ShardConfig set" where
  "sys_cfgs s = fst ` ran (s_store s) \<union> \<Union> (ctl_cfgs ` set (s_ctls s)) \<union> (fst \<circ> snd) ` set (s_puts s) \<union> set (s_hist s)"

lemma store_cfgs:
  "queryCurrentConfig st = Some (c, v) \<Longrightarrow> c \<in> fst ` ran st" "queryNextConfig st = Some (c, v) \<Longrightarrow> c \<in> fst ` ran st"
  "Query st = Some c \<Longrightarrow> c \<in> fst ` ran st"
  by (force simp: queryCurrentConfig_def queryNextConfig_def Query_def ran_def)+

lemma ctl_read_cfgs: "ctl_cfgs (ctl_read st c) \<subseteq> ctl_cfgs c \<union> fst ` ran st"
  using store_cfgs(1,2) [of st]
  by (cases c) (auto simp: ChangeConfigTo_def saveNextConfig_def saveNextConfig_check_def InitController_def InitController_next_def migrateShards_def
    split: option.splits)

lemma ctl_put_cfgs: "ctl_put c = Some (key, cfg, ver) \<Longrightarrow> cfg \<in> ctl_cfgs c" "ctl_cfgs (ctl_put_returns err c) \<subseteq> ctl_cfgs c"
  by (cases c; auto simp: saveNextConfig_err_def migrateShards_def split: Err.splits)+

lemma store_Put_cfgs: "fst ` ran (fst (store_Put st key cfg ver)) \<subseteq> insert cfg (fst ` ran st)"
  by (auto simp: store_Put_def ran_def split: option.splits if_splits)

lemma set_ctl_cfgs:
  assumes "c < length (s_ctls s)" "ctl_cfgs x \<subseteq> sys_cfgs s"
  shows "sys_cfgs (set_ctl c x s) \<subseteq> sys_cfgs s"
proof -
  have "\<Union> (ctl_cfgs ` set ((s_ctls s)[c := x])) \<subseteq> ctl_cfgs x \<union> \<Union> (ctl_cfgs ` set (s_ctls s))"
    using set_update_subset_insert [of "s_ctls s" c x] by blast
  then show ?thesis using assms(2) by (auto simp: sys_cfgs_def set_ctl_def)
qed

lemma ctl_in_sys: "c < length (s_ctls s) \<Longrightarrow> ctl_cfgs (s_ctls s ! c) \<subseteq> sys_cfgs s"
  by (auto simp: sys_cfgs_def)

lemma ctl_change: "c < length (s_ctls s) \<Longrightarrow> ctl_cfgs x \<subseteq> ctl_cfgs (s_ctls s ! c) \<Longrightarrow> sys_cfgs (set_ctl c x s) \<subseteq> sys_cfgs s"
  using set_ctl_cfgs ctl_in_sys by fast

lemma move_events_cfgs:
  assumes "sys_exec e s = Some s'" "e \<in> {MoveReturns c k j, MoveExhausted c k, Wait c}"
  shows "sys_cfgs s' \<subseteq> sys_cfgs s"
proof (cases "c < length (s_ctls s)")
  case True
  note ch = ctl_change [OF True]
  show ?thesis
  proof (cases "s_ctls s ! c")
    case (Moving old ver new mvs)
    have f: "sys_cfgs (set_ctl c Fatal s) \<subseteq> sys_cfgs s" "sys_cfgs (set_ctl c (Moving old ver new mvs') s) \<subseteq> sys_cfgs s"
      "sys_cfgs (set_ctl c (Finished b) s) \<subseteq> sys_cfgs s" "sys_cfgs (set_ctl c (SaveCur new ver) s) \<subseteq> sys_cfgs s" for mvs' b
      using Moving by (auto intro!: ch)
    from assms(2) consider "e = MoveReturns c k j" | "e = MoveExhausted c k" | "e = Wait c" by auto
    then show ?thesis
    proof cases
      case 1
      then show ?thesis using assms(1) True Moving f(1,2) by (clarsimp simp del: mover_req.simps split: if_splits option.splits; blast)
    next
      case 2
      then show ?thesis using assms(1) True Moving f(1,2) by (clarsimp split: if_splits option.splits prod.splits; blast)
    next
      case 3
      then show ?thesis using assms(1) True Moving f(3,4) by (clarsimp simp: migrate_wait_def split: if_splits; blast)
    qed
  qed (use assms True in \<open>auto split: if_splits\<close>)
qed (use assms in \<open>auto split: if_splits\<close>)

lemma sys_cfgs_parts:
  "fst ` ran (s_store s) \<subseteq> sys_cfgs s" "\<Union> (ctl_cfgs ` set (s_ctls s)) \<subseteq> sys_cfgs s"
  "(fst \<circ> snd) ` set (s_puts s) \<subseteq> sys_cfgs s" "set (s_hist s) \<subseteq> sys_cfgs s"
  unfolding sys_cfgs_def by (simp_all add: le_supI1 le_supI2)

lemma exec_put_cfgs: "sys_cfgs (exec_put (key, cfg, ver) s) \<subseteq> insert cfg (sys_cfgs s)"
proof -
  obtain st err where p: "store_Put (s_store s) key cfg ver = (st, err)" by fastforce
  have "fst ` ran st \<subseteq> insert cfg (sys_cfgs s)"
    using store_Put_cfgs [of "s_store s" key cfg ver] sys_cfgs_parts(1) [of s] by (simp only: p fst_conv) blast
  moreover have "set (s_hist (exec_put (key, cfg, ver) s)) \<subseteq> insert cfg (sys_cfgs s)"
    using sys_cfgs_parts(4) [of s] by (auto simp: exec_put_def p)
  moreover have "s_store (exec_put (key, cfg, ver) s) = st" "s_ctls (exec_put (key, cfg, ver) s) = s_ctls s"
    "s_puts (exec_put (key, cfg, ver) s) = s_puts s" by (simp_all add: exec_put_def p)
  ultimately show ?thesis unfolding sys_cfgs_def [of "exec_put _ _"]
    using sys_cfgs_parts(2,3) [of s] by (simp add: subset_insertI2)
qed

lemma sys_exec_cfgs:
  assumes "sys_exec e s = Some s'"
  shows "sys_cfgs s' \<subseteq> sys_cfgs s \<union> (case e of Propose c \<Rightarrow> {c} | _ \<Rightarrow> {})"
proof (cases e)
  case (ReadStore c)
  show ?thesis
  proof (cases "c < length (s_ctls s)")
    case True
    have "ctl_cfgs (ctl_read (s_store s) (s_ctls s ! c)) \<subseteq> sys_cfgs s"
      using ctl_read_cfgs [of "s_store s" "s_ctls s ! c"] ctl_in_sys [OF True] by (auto simp: sys_cfgs_def)
    from set_ctl_cfgs [OF True this] show ?thesis using assms ReadStore True by auto
  qed (use assms ReadStore in simp)
next
  case (SendPut c)
  have "cfg \<in> sys_cfgs s" if "c < length (s_ctls s)" "ctl_put (s_ctls s ! c) = Some (key, cfg, ver)" for key cfg ver
    using ctl_put_cfgs(1) [OF that(2)] ctl_in_sys [OF that(1)] by blast
  moreover have "sys_cfgs (s\<lparr>s_puts := s_puts s @ [p]\<rparr>) = insert (fst (snd p)) (sys_cfgs s)" for p by (auto simp: sys_cfgs_def)
  ultimately show ?thesis using assms SendPut by (auto split: if_splits option.splits)
next
  case (ExecPut j)
  show ?thesis
  proof (cases "j < length (s_puts s)")
    case True
    obtain key cfg ver where p: "s_puts s ! j = (key, cfg, ver)" by (metis prod_cases3)
    have "cfg \<in> sys_cfgs s" using nth_mem [OF True] p by (force simp: sys_cfgs_def)
    then show ?thesis using assms ExecPut True p exec_put_cfgs [of key cfg ver s] by auto
  qed (use assms ExecPut in simp)
next
  case (PutReturns c j retried)
  have "sys_cfgs (set_ctl c (ctl_put_returns err (s_ctls s ! c)) s) \<subseteq> sys_cfgs s" if "c < length (s_ctls s)" for err
    by (rule ctl_change [OF that ctl_put_cfgs(2)])
  then show ?thesis using assms PutReturns by (clarsimp split: if_splits; blast)
next
  case (SendMove c k)
  then show ?thesis using assms by (auto simp: sys_cfgs_def split: if_splits ctl.splits option.splits)
next
  case (ExecMove j)
  then show ?thesis using assms by (auto simp: exec_move_def sys_cfgs_def bind_eq_Some_conv split: if_splits prod.splits)
next
  case (MoveReturns c k j)
  with move_events_cfgs [OF assms, of c k j] show ?thesis by simp
next
  case (MoveExhausted c k)
  with move_events_cfgs [OF assms, of c k] show ?thesis by simp
next
  case (Wait c)
  with move_events_cfgs [OF assms, of c] show ?thesis by simp
next
  case (Client g q)
  then show ?thesis using assms by (auto simp: exec_client_def sys_cfgs_def bind_eq_Some_conv split: sg_req.splits)
qed (use assms in \<open>auto simp: sys_cfgs_def\<close>)

section \<open>Runs of the manager\<close>

text \<open>
  What is asked of the other events: the system's own steps and the clients' requests, each put with
  an id of its own. Controllers are only called by the manager.
\<close>

fun adm_ok :: "adm_event \<Rightarrow> adm \<Rightarrow> bool" where
  "adm_ok (System e) a \<longleftrightarrow> proper e (a_sys a) \<and> (case e of Propose _ \<Rightarrow> False | Recover \<Rightarrow> False | _ \<Rightarrow> True)"
| "adm_ok _ a \<longleftrightarrow> True"

inductive adm_reachable :: "string list \<Rightarrow> (Tgid \<times> string list) list \<Rightarrow> adm \<Rightarrow> bool" for servers others where
  init: "adm_reachable servers others (adm_init servers others)"
| step: "adm_reachable servers others a \<Longrightarrow> adm_ok e a \<Longrightarrow> adm_exec e a = Some a' \<Longrightarrow> adm_reachable servers others a'"

text \<open>The system part of the invariant, and the part about \<open>Init\<close>: nothing happens before it has proposed the first change.\<close>

definition base_inv :: "(Tgid \<times> string list) list \<Rightarrow> sys \<Rightarrow> bool" where
  "base_inv gs s \<longleftrightarrow> sys_reachable gs s \<and> (\<forall>c \<in> sys_cfgs s. good_cfg c)"

definition no_ctl :: "(Tgid \<times> string list) list \<Rightarrow> sys \<Rightarrow> bool" where
  "no_ctl gs s \<longleftrightarrow> s_ctls s = [] \<and> s_puts s = [] \<and> s_hist s = [first_cfg gs]"

definition ops_inv :: "(Tgid \<times> string list) list \<Rightarrow> (Tgid \<times> string list) list \<Rightarrow> adm \<Rightarrow> bool" where
  "ops_inv gs others a \<longleftrightarrow> (\<exists>pc ops. a_ops a = (InitJoinOp others, pc) # ops \<and> list_all (\<lambda>(op, _). \<forall>x. op \<noteq> InitJoinOp x) ops \<and>
     (\<forall>c. pc \<noteq> AInit c) \<and> (pc = AQuery \<longrightarrow> ops = [] \<and> no_ctl gs (a_sys a)))"

lemma base_inv_step:
  assumes "base_inv gs s" "proper e s" "sys_exec e s = Some s'" "\<And>c. e = Propose c \<Longrightarrow> good_cfg c"
  shows "base_inv gs s'"
  using assms sys_reachable.step [of gs s e s'] sys_exec_cfgs [OF assms(3)] unfolding base_inv_def by (cases e) auto

lemma sys_exec_hist: "sys_exec e s = Some s' \<Longrightarrow> length (s_hist s) \<le> length (s_hist s')"
  by (cases e) (auto simp: set_ctl_def exec_put_def exec_move_def exec_client_def bind_eq_Some_conv
    split: if_splits option.splits ctl.splits prod.splits sg_req.splits simp del: mover_req.simps)

lemma no_ctl_step:
  assumes "no_ctl gs s" "sys_exec e s = Some s'" "\<And>c. e \<noteq> Propose c" "e \<noteq> Recover"
  shows "no_ctl gs s'"
  using assms by (cases e) (auto simp: no_ctl_def exec_move_def exec_client_def bind_eq_Some_conv split: if_splits prod.splits sg_req.splits)

lemma Query_current: "base_inv gs s \<Longrightarrow> Query (s_store s) = Some (last (s_hist s))"
  using sys_reachable_inv [of gs s] by (auto simp: base_inv_def sys_inv_def cfg_inv_def Query_def)

lemma Query_good: "base_inv gs s \<Longrightarrow> Query (s_store s) = Some cfg \<Longrightarrow> good_cfg cfg"
  using store_cfgs(3) sys_cfgs_parts(1) by (fastforce simp: base_inv_def)

lemma Join_loop_ok:
  assumes "distinct (map fst gs)" "fst ` set gs \<inter> gids cfg = {}" "Join_loop cfg changed gs = Some (ok, cfg')"
  shows "ok"
  using assms
proof (induction gs arbitrary: cfg changed)
  case (Cons g gs)
  obtain gid servers where g: "g = (gid, servers)" by fastforce
  let ?c = "cfg\<lparr>Groups := AList.update gid servers (Groups cfg)\<rparr>"
  have new: "map_of (Groups cfg) gid = None" using Cons.prems(2) g by (auto simp: map_of_eq_None_iff)
  have "Join_loop ?c True gs = Some (ok, cfg')" using Cons.prems(3) g new by (auto split: if_splits)
  moreover have "fst ` set gs \<inter> gids ?c = {}" using Cons.prems(1,2) g by (auto simp: dom_update)
  ultimately show ?case using Cons.IH [of ?c True] Cons.prems(1) by simp
qed (auto split: if_splits)

lemma next_proper:
  assumes "base_inv gs s" "Query (s_store s) = Some cfg" "good_cfg new" "Num new = Num cfg + 1" "int (length (s_hist s)) + 1 < 2 ^ 64"
  shows "proper (Propose new) s"
proof -
  have inv: "cfg_inv s" using sys_reachable_inv assms(1) by (auto simp: base_inv_def sys_inv_def)
  have cfg: "cfg = last (s_hist s)" using Query_current [OF assms(1)] assms(2) by simp
  have ne: "s_hist s \<noteq> []" using inv by (simp add: cfg_inv_def)
  then have "Num (s_hist s ! (length (s_hist s) - 1)) = int (length (s_hist s) - 1) + 1" using inv by (auto simp: cfg_inv_def)
  then have "cfg \<in> set (s_hist s)" "Num cfg = int (length (s_hist s))" using ne cfg by (simp_all add: last_conv_nth of_nat_diff Suc_leI)
  then show ?thesis using assms(3-5) by (auto simp: good_cfg_def wf_cfg_def list_ex_iff intro!: bexI [of _ cfg])
qed

lemma choice_proper:
  assumes "base_inv [(Gid1, servers)] s" "choice op (s_store s) = Some (Change new)" "int (length (s_hist s)) + 1 < 2 ^ 64"
    and "\<And>x. op = InitJoinOp x \<Longrightarrow> no_ctl [(Gid1, servers)] s \<and> distinct (map fst x) \<and> Gid1 \<notin> fst ` set x"
  shows "proper (Propose new) s \<and> good_cfg new"
proof -
  have goal: ?thesis if "Query (s_store s) = Some cfg" "good_cfg new \<and> Num new = Num cfg + 1" for cfg
    using next_proper [OF assms(1) that(1) _ _ assms(3)] that(2) by blast
  show ?thesis
  proof (cases op)
    case (JoinOp gid srvs)
    then obtain cfg where q: "Query (s_store s) = Some cfg" "JoinBalance (Copy cfg) [(gid, srvs)] = Some (True, new)"
      using assms(2) by (auto simp: choice_def JoinGroup_choice_def bind_eq_Some_conv split: if_splits)
    show ?thesis by (rule goal [OF q(1) JoinBalance_good [OF Query_good [OF assms(1) q(1)] _ q(2)]]) simp
  next
    case (LeaveOp gid)
    then obtain cfg where q: "Query (s_store s) = Some cfg" "1 < length (Groups (Copy cfg))" "LeaveBalance (Copy cfg) [gid] = Some (True, new)"
      using assms(2) by (auto simp: choice_def LeaveGroup_choice_def bind_eq_Some_conv Let_def split: if_splits)
    have g: "good_cfg cfg" by (rule Query_good [OF assms(1) q(1)])
    then have "1 < length (Groups cfg)" using q(2) Copy_wf [of cfg] by (simp add: good_cfg_def)
    then show ?thesis by (rule goal [OF q(1) LeaveBalance_good [OF g _ q(3)]])
  next
    case (InitJoinOp x)
    then obtain cfg ok where q: "x \<noteq> []" "Query (s_store s) = Some cfg" "JoinBalance (Copy cfg) x = Some (ok, new)"
      using assms(2) by (auto simp: choice_def initJoinGroup_choice_def bind_eq_Some_conv split: if_splits)
    note init = assms(4) [OF InitJoinOp]
    have g: "good_cfg cfg" by (rule Query_good [OF assms(1) q(2)])
    have cfg: "cfg = first_cfg [(Gid1, servers)]" using Query_current [OF assms(1)] q(2) init by (simp add: no_ctl_def)
    have "Copy cfg = cfg" using Copy_wf g by (simp add: good_cfg_def)
    then obtain ok' c where "Join_loop cfg False x = Some (ok', c)" "ok \<longleftrightarrow> ok'"
      using q(3) by (auto simp: JoinBalance_def Join_def bind_eq_Some_conv split: if_splits)
    moreover have "fst ` set x \<inter> gids cfg = {}" using init cfg by (auto simp: first_cfg_def)
    ultimately have "ok" using Join_loop_ok init by blast
    with q(3) show ?thesis by (intro goal [OF q(2) JoinBalance_good [OF g q(1)]]) simp
  qed
qed

lemma first_good: "good_cfg (first_cfg [(Gid1, servers)])"
proof -
  have "wf_cfg (first_cfg [(Gid1, servers)])" "set (Shards (first_cfg [(Gid1, servers)])) \<subseteq> gids (first_cfg [(Gid1, servers)])"
    by (simp_all add: wf_cfg_def first_cfg_def)
  moreover have "CheckConfig (first_cfg [(Gid1, servers)]) [Gid1]" by code_simp
  ultimately show ?thesis by (simp add: good_cfg_def) (simp add: first_cfg_def)
qed

lemma base_inv_init: "base_inv [(Gid1, servers)] (sys_init [(Gid1, servers)])"
proof -
  have "sys_cfgs (sys_init [(Gid1, servers)]) = {first_cfg [(Gid1, servers)]}"
    by (auto simp: sys_cfgs_def sys_init_def InitConfig_def ran_def store_Put_def split: if_splits option.splits)
  then show ?thesis using first_good by (simp add: base_inv_def sys_reachable.init)
qed

lemma call_ctl_sys: "call_ctl e a = Some a' \<Longrightarrow> \<exists>s. sys_exec e (a_sys a) = Some s \<and> a' = a\<lparr>a_sys := s\<rparr>"
  by (auto simp: call_ctl_def)

lemma start_op_cases:
  assumes "start_op op a = Some a'"
  shows "a' = a \<or> (\<exists>pc. a_ops a' = a_ops a @ [(op, pc)]) \<and> initialised a \<and> (\<forall>x. op \<noteq> InitJoinOp x)"
  using assms by (cases op) (auto simp: start_op_def bind_eq_Some_conv split: if_splits)

text \<open>A step of an operation: it goes on by itself, calls \<open>InitController\<close> again, or calls \<open>ChangeConfigTo\<close>.\<close>

lemma adm_step_cases:
  assumes "adm_step k a = Some a'" "k < length (a_ops a)" "a_ops a ! k = (op, pc)"
  shows "a' = a \<or> (\<exists>pc'. a_ops a' = (a_ops a)[k := (op, pc')] \<and>
    (a_sys a' = a_sys a \<and> (\<forall>c. pc' \<noteq> AInit c) \<and> (pc' = AQuery \<longrightarrow> (\<exists>c. pc = AInit c)) \<or>
     sys_exec Recover (a_sys a) = Some (a_sys a') \<and> (\<forall>x. op \<noteq> InitJoinOp x) \<and> (\<exists>c. pc' = AInit c) \<or>
     (\<exists>new c. pc = AQuery \<and> choice op (s_store (a_sys a)) = Some (Change new) \<and> sys_exec (Propose new) (a_sys a) = Some (a_sys a') \<and> pc' = AChange c new)))"
proof (cases pc)
  case (AInit c)
  then show ?thesis using assms by (auto simp: adm_step_def set_op_def split: if_splits)
next
  case AQuery
  then obtain ch where ch: "choice op (s_store (a_sys a)) = Some ch" using assms by (auto simp: adm_step_def bind_eq_Some_conv)
  show ?thesis
  proof (cases ch)
    case (Return b)
    then show ?thesis using assms AQuery ch by (auto simp: adm_step_def set_op_def)
  next
    case (Change new)
    then obtain a1 where a1: "call_ctl (Propose new) a = Some a1" "a' = set_op k (op, AChange (length (s_ctls (a_sys a))) new) a1"
      using assms AQuery ch by (auto simp: adm_step_def bind_eq_Some_conv)
    with call_ctl_sys [OF a1(1)] show ?thesis using AQuery ch Change by (auto simp: set_op_def simp del: sys_exec.simps)
  qed
next
  case (AChange c new)
  show ?thesis
  proof (cases "ctl_result c a = Some False \<and> (\<forall>x. op \<noteq> InitJoinOp x)")
    case True
    then obtain a1 where a1: "call_ctl Recover a = Some a1" "a' = set_op k (op, AInit (length (s_ctls (a_sys a)))) a1"
      using assms AChange by (cases op) (auto simp: adm_step_def bind_eq_Some_conv)
    with call_ctl_sys [OF a1(1)] show ?thesis using True by (auto simp: set_op_def simp del: sys_exec.simps)
  next
    case False
    then show ?thesis using assms AChange
      by (auto simp: adm_step_def set_op_def bind_eq_Some_conv split: option.splits adm_op.splits if_splits)
  qed
qed (use assms in \<open>auto simp: adm_step_def\<close>)

text \<open>What an event of the manager does to the system.\<close>

lemma adm_exec_sys:
  assumes "adm_exec e a = Some a'"
  shows "a_sys a' = a_sys a \<or> sys_exec Recover (a_sys a) = Some (a_sys a') \<or>
    (\<exists>x. e = System x \<and> sys_exec x (a_sys a) = Some (a_sys a')) \<or>
    (\<exists>k op new. e = AdmStep k \<and> k < length (a_ops a) \<and> a_ops a ! k = (op, AQuery) \<and>
       choice op (s_store (a_sys a)) = Some (Change new) \<and> sys_exec (Propose new) (a_sys a) = Some (a_sys a'))"
proof (cases e)
  case (Admin op)
  then show ?thesis using assms
    by (auto simp: start_op_def bind_eq_Some_conv dest!: call_ctl_sys split: if_splits adm_op.splits)
next
  case (AdmStep k)
  show ?thesis
  proof (cases "k < length (a_ops a)")
    case True
    obtain op pc where op: "a_ops a ! k = (op, pc)" by fastforce
    show ?thesis using adm_step_cases [OF _ True op, of a'] assms AdmStep True op by (auto simp del: sys_exec.simps)
  qed (use assms AdmStep in \<open>simp add: adm_step_def\<close>)
next
  case (System x)
  then show ?thesis using assms by auto
qed (use assms in \<open>auto simp: initConfigCache_def poll_config_def poll_next_def bind_eq_Some_conv\<close>)

lemma adm_exec_ops:
  assumes "adm_exec e a = Some a'" "ops_inv gs others a" "adm_ok e a"
  shows "ops_inv gs others a'"
proof -
  obtain pc ops where o: "a_ops a = (InitJoinOp others, pc) # ops" "list_all (\<lambda>(op, _). \<forall>x. op \<noteq> InitJoinOp x) ops"
    "\<forall>c. pc \<noteq> AInit c" "pc = AQuery \<longrightarrow> ops = [] \<and> no_ctl gs (a_sys a)"
    using assms(2) by (auto simp: ops_inv_def)
  show ?thesis
  proof (cases e)
    case (Admin op)
    then have "start_op op a = Some a'" using assms(1) by simp
    from start_op_cases [OF this] consider "a' = a"
      | pc' where "a_ops a' = a_ops a @ [(op, pc')]" "initialised a" "\<forall>x. op \<noteq> InitJoinOp x" by blast
    then show ?thesis
    proof cases
      case 2
      then have "a_ops a' = (InitJoinOp others, pc) # ops @ [(op, pc')]" "pc \<noteq> AQuery" using o(1) by (auto simp: initialised_def)
      then show ?thesis using 2(3) o(2,3) unfolding ops_inv_def by (intro exI [of _ pc] exI [of _ "ops @ [(op, pc')]"]) simp
    qed (use assms(2) in simp)
  next
    case (AdmStep k)
    show ?thesis
    proof (cases k)
      case 0
      have step: "adm_step 0 a = Some a'" "0 < length (a_ops a)" "a_ops a ! 0 = (InitJoinOp others, pc)" using assms(1) AdmStep 0 o(1) by simp_all
      from adm_step_cases [OF step] consider "a' = a"
        | pc' where "a_ops a' = (a_ops a)[0 := (InitJoinOp others, pc')]" "\<forall>c. pc' \<noteq> AInit c" "pc' \<noteq> AQuery"
        using o(3) by blast
      then show ?thesis
      proof cases
        case 2
        then have "a_ops a' = (InitJoinOp others, pc') # ops" using o(1) by simp
        then show ?thesis using 2(2,3) o(2) unfolding ops_inv_def by blast
      qed (use assms(2) in simp)
    next
      case (Suc j)
      have keep: "list_all (\<lambda>(op, _). \<forall>x. op \<noteq> InitJoinOp x) (ops[j := (op, pc')])" if "j < length ops" "ops ! j = (op, pc0)" for op pc0 pc'
        using o(2) that by (auto simp: list_all_length nth_list_update)
      show ?thesis
      proof (cases "j < length ops")
        case True
        obtain op pc0 where op: "ops ! j = (op, pc0)" by fastforce
        have step: "adm_step k a = Some a'" "k < length (a_ops a)" "a_ops a ! k = (op, pc0)" using assms(1) AdmStep Suc True op o(1) by simp_all
        from adm_step_cases [OF step] consider "a' = a" | pc' where "a_ops a' = (a_ops a)[k := (op, pc')]" by blast
        then show ?thesis
        proof cases
          case 2
          then have "a_ops a' = (InitJoinOp others, pc) # ops[j := (op, pc')]" using o(1) Suc by simp
          moreover have "pc \<noteq> AQuery" using True o(4) by auto
          ultimately show ?thesis using keep [OF True op, of pc'] o(3) unfolding ops_inv_def by blast
        qed (use assms(2) in simp)
      qed (use assms(1,2) AdmStep Suc o in \<open>auto simp: adm_step_def\<close>)
    qed
  next
    case (System x)
    then obtain s where s: "sys_exec x (a_sys a) = Some s" "a' = a\<lparr>a_sys := s\<rparr>" using assms(1) by auto
    have "x \<noteq> Propose c" "x \<noteq> Recover" for c using assms(3) System by auto
    then have "no_ctl gs s" if "pc = AQuery" using no_ctl_step [OF _ s(1), of gs] that o(4) by blast
    moreover have "a_ops a' = a_ops a" "a_sys a' = s" using s(2) by simp_all
    ultimately show ?thesis using o unfolding ops_inv_def by simp
  qed (use assms(1,2) in \<open>auto simp: ops_inv_def initConfigCache_def poll_config_def poll_next_def bind_eq_Some_conv\<close>)
qed

lemma adm_exec_hist: "adm_exec e a = Some a' \<Longrightarrow> length (s_hist (a_sys a)) \<le> length (s_hist (a_sys a'))"
  using adm_exec_sys [of e a a'] sys_exec_hist by (auto simp del: sys_exec.simps)

lemma adm_exec_base:
  assumes "adm_exec e a = Some a'" "adm_ok e a" "base_inv [(Gid1, servers)] (a_sys a)" "ops_inv [(Gid1, servers)] others a"
    and "distinct (map fst others)" "Gid1 \<notin> fst ` set others" "int (length (s_hist (a_sys a))) + 1 < 2 ^ 64"
  shows "base_inv [(Gid1, servers)] (a_sys a')"
proof -
  have p: "proper (Propose new) (a_sys a) \<and> good_cfg new"
    if "k < length (a_ops a)" "a_ops a ! k = (op, AQuery)" "choice op (s_store (a_sys a)) = Some (Change new)" for k op new
  proof (rule choice_proper [OF assms(3) that(3) assms(7)])
    fix x assume "op = InitJoinOp x"
    then have "k = 0" using assms(4) that(1,2) by (cases k) (auto simp: ops_inv_def list_all_length)
    then show "no_ctl [(Gid1, servers)] (a_sys a) \<and> distinct (map fst x) \<and> Gid1 \<notin> fst ` set x"
      using assms(4-6) that(2) \<open>op = InitJoinOp x\<close> by (auto simp: ops_inv_def)
  qed
  from adm_exec_sys [OF assms(1)] consider "a_sys a' = a_sys a" | "sys_exec Recover (a_sys a) = Some (a_sys a')"
    | x where "e = System x" "sys_exec x (a_sys a) = Some (a_sys a')"
    | k op new where "k < length (a_ops a)" "a_ops a ! k = (op, AQuery)" "choice op (s_store (a_sys a)) = Some (Change new)"
        "sys_exec (Propose new) (a_sys a) = Some (a_sys a')" by blast
  then show ?thesis
  proof cases
    case 1 then show ?thesis using assms(3) by simp
  next
    case 2 show ?thesis by (rule base_inv_step [OF assms(3) _ 2]) simp_all
  next
    case 3 show ?thesis by (rule base_inv_step [OF assms(3) _ 3(2)]) (use assms(2) 3(1) in auto)
  next
    case 4 show ?thesis by (rule base_inv_step [OF assms(3) _ 4(4)]) (use p [OF 4(1-3)] in auto)
  qed
qed

lemma adm_reachable_inv:
  assumes "adm_reachable servers others a" "distinct (map fst others)" "Gid1 \<notin> fst ` set others" "int (length (s_hist (a_sys a))) + 1 < 2 ^ 64"
  shows "base_inv [(Gid1, servers)] (a_sys a) \<and> ops_inv [(Gid1, servers)] others a"
  using assms(1,4)
proof (induction rule: adm_reachable.induct)
  case init
  then show ?case using base_inv_init by (simp add: adm_init_def ops_inv_def no_ctl_def) (simp add: sys_init_def)
next
  case (step a e a')
  have "int (length (s_hist (a_sys a))) + 1 < 2 ^ 64" using adm_exec_hist [OF step(3)] step.prems by linarith
  then show ?case using step.IH adm_exec_base [OF step(3,2)] adm_exec_ops [OF step(3) _ step(2)] assms(2,3) by blast
qed

section \<open>A group joins\<close>

fun adm_ok_run :: "adm_event list \<Rightarrow> adm \<Rightarrow> bool" where
  "adm_ok_run [] a \<longleftrightarrow> True"
| "adm_ok_run (e # es) a \<longleftrightarrow> adm_ok e a \<and> (case adm_exec e a of None \<Rightarrow> True | Some a' \<Rightarrow> adm_ok_run es a')"

lemma adm_reachable_run:
  "adm_reachable servers others a \<Longrightarrow> adm_ok_run es a \<Longrightarrow> adm_run es a = Some a' \<Longrightarrow> adm_reachable servers others a'"
  by (induction es arbitrary: a) (auto simp: bind_eq_Some_conv dest: adm_reachable.step)

text \<open>\<open>Init\<close> with two groups: the six shards of the second one are moved one after the other.\<close>

definition join_events :: "adm_event list" where
  "join_events = AdmStep 0 # map System (
     [ReadStore 0, ReadStore 0, SendPut 0, ExecPut 0, PutReturns 0 0 False] @
     concat (map (\<lambda>k. concat (map (\<lambda>j. [SendMove 0 k, ExecMove (3 * k + j), MoveReturns 0 k (3 * k + j)]) [0..<3])) [0..<6]) @
     [Wait 0, SendPut 0, ExecPut 1, PutReturns 0 1 False]) @ [AdmStep 0, InitCache, Poll, PollNext]"

lemma join_events_run:
  "case adm_run join_events (adm_init [''a''] [(2, [''b''])]) of None \<Rightarrow> False | Some a \<Rightarrow>
     adm_ok_run join_events (adm_init [''a''] [(2, [''b''])]) \<and> length (s_hist (a_sys a)) = 2 \<and>
     map_option Num (a_cachedConfig a) = Some 2 \<and> map snd (a_ops a) = [ADone True]"
  by code_simp

section \<open>Properties\<close>

text \<open>The pollers are started before the cache is filled; one that gets an answer first reads a nil pointer.\<close>

lemma poll_before_init: "a_cachedConfig a = None \<Longrightarrow> poll_config a = None" "a_cachedNextConfig a = None \<Longrightarrow> poll_next a = None"
  by (auto simp: poll_config_def poll_next_def updateCachedCfg_def updateCachedNextCfg_def bind_eq_None_conv split: option.splits)



end
