(* ===== verification/Spec2Isabelle.thy ===== *)
theory Spec2Isabelle
  imports KvModel Shardcfg Kvraft_Server Shardgrp_Server Raft_Log Raft_Apply Replicated Kvraft_Clerk Shardkv_Clerk Server_Group Membership
begin

text \<open>
  A verification of the sharded, replicated key/value store under \<open>src/src\<close>. The theories follow
  the packages; every definition is a translation of the Go code that its theory names.

  \<^bold>\<open>The program.\<close> A store maps keys to a value and a version; Put is a compare-and-swap on the version.
  \<open>kvsrv\<close> is one server. \<open>kvraft\<close> replicates it: clients call \<open>kvraft/server.go\<close>, which hands each
  request to \<open>kvraft/rsm/rsm.go\<close>; that layer starts it as a command of \<open>raft/raft.go\<close>, executes what
  Raft commits and gives the result to the waiting request. \<open>shardkv\<close> splits the keys into twelve
  shards: \<open>shardgrp/server.go\<close> is a replicated group that serves some of them, \<open>shardcfg\<close> assigns
  shards to groups, \<open>shardctrler\<close> stores the current and the next assignment in a config store and
  moves shards (freeze at the old group, install at the new one, delete at the old one), and
  \<open>shardkv/client.go\<close> routes requests by a cached assignment. All calls go over \<open>rpc/rpc.go\<close>, a
  network that loses and delays messages and cuts links.

  \<^bold>\<open>Conventions.\<close> Panics and \<open>log.Fatal\<close> are \<open>None\<close> (or \<open>Fatal\<close> in \<open>Shardctrler\<close>). A nil map or slice is told
  apart where the code can tell. \<open>uint64\<close> and \<open>int32\<close> are words, so versions and request numbers
  wrap; \<open>int\<close> is unbounded. Encoded values (\<open>labgob\<close>, JSON) are represented by the values. A
  goroutine is cut where it takes a mutex, waits or calls; a run is an arbitrary list of events, and
  an event that is not enabled changes nothing. Random numbers are arguments.

  \<^bold>\<open>Interfaces.\<close>
  \<^item> \<open>Cas_Store\<close>: the versioned store as a specification and the locale \<open>cas_store\<close>; \<open>Dedup_Store\<close>: the
    locale \<open>dedup_store\<close>, a store that remembers each client's last put, and exactly-once execution of
    logs with retries. Interpreted in \<open>Kvsrv\<close>, \<open>Kvraft_Server\<close>, \<open>Shardgrp_Server\<close>.
  \<^item> \<open>State_Machine\<close>: the locale \<open>state_machine\<close> for \<open>DoOp\<close>, \<open>Snapshot\<close>, \<open>Restore\<close>, extended to
    \<open>replicated_machine\<close> in \<open>Rsm\<close>. Interpreted for both replicated services.
  \<^item> \<open>Raft_Election\<close>: the locale \<open>quorum_system\<close>, interpreted on majorities of servers.
  \<^item> \<open>Clerk_Loop\<close>: the retry loops, the backoff, and the locales \<open>service_call\<close> and \<open>safe_call\<close> for one
    RPC to a service; \<open>Shardkv_Clerk\<close>: the locale \<open>shard_call\<close> for one attempt at a group.

  \<^bold>\<open>Components.\<close>
  \<^item> \<open>Rpcapi\<close>, \<open>Kvsrv\<close>, \<open>KvModel\<close>: \<open>kvsrv/rpcapi/rpcapi.go\<close>, \<open>kvsrv/server.go\<close>, \<open>kvsrv/client.go\<close> and the
    linearizability model \<open>models/kv.go\<close>: what a Put of the unreplicated clerk may have done, and that
    the server's steps are steps of the model.
  \<^item> \<open>Raft_Node\<close>: \<open>raft/raft.go\<close> and \<open>tester/persister.go\<close>, one function per critical section;
    \<open>Raft_Cluster\<close>: peers, calls, crashes. \<open>Raft_Replication\<close>: handlers never panic, what a successful
    AppendEntries and a commit do, restarts lose nothing. \<open>Raft_Election\<close>: one leader per term.
    \<open>Raft_Log\<close>: log matching with snapshots, and a schedule on which a delayed reply makes two
    servers apply different commands. \<open>Raft_Apply\<close>: the applier delivers in order.
  \<^item> \<open>Rsm\<close>: \<open>kvraft/rsm/rsm.go\<close>: a Submit that returns OK has executed a command with its operation
    number, and a schedule on which the layer deadlocks. \<open>Replicated\<close>: replicas that have taken the
    same log agree, and a schedule on which a Submit takes the result of another server's request.
  \<^item> \<open>Kvraft_Server\<close>, \<open>Kvraft_Clerk\<close>: \<open>kvraft/server.go\<close> and \<open>kvraft/client.go\<close>: exactly-once puts, current
    reads, and that the clerk returns.
  \<^item> \<open>Shardcfg\<close>: \<open>shardkv/shardcfg/shardcfg.go\<close>: Rebalance ends, balances, and moves no more than it must.
  \<^item> \<open>Shardgrp_Server\<close>, \<open>Shardgrp_Clerk\<close>: \<open>shardkv/shardgrp\<close>: the life cycle of a shard, a move keeps the
    memory of puts, snapshots; the clerk's calls end.
  \<^item> \<open>Shardctrler\<close>: \<open>shardkv/shardctrler/shardctrler.go\<close> and the whole system \<open>sys\<close> of controllers, config
    store and groups. \<open>Reconfig\<close>: its invariant; \<open>Sharded_Store\<close>: whatever controllers run, crash and
    restart, one group at most serves a shard and the groups together are one versioned store that
    executes each put once; a schedule on which a restarted controller panics. \<open>Put_Records\<close>: the
    remembered puts carry the answers they got.
  \<^item> \<open>Config_Cache\<close>, \<open>Shardkv_Clerk\<close>: \<open>shardkv/client.go\<close>: the cache with concurrent goroutines, and Get
    and Put end to end against the whole system.
  \<^item> \<open>Membership\<close>: \<open>shardkv-demo/cluster/manager.go\<close>: groups that join and leave a running cluster; the
    manager meets what \<open>Sharded_Store\<close> asks of the users of controllers.
  \<^item> \<open>Rpc_Net\<close>: \<open>rpc/rpc.go\<close>: a call runs its handler once at most and returns. \<open>Server_Group\<close>:
    \<open>tester/group.go\<close> and \<open>tester/srv.go\<close>: processes and links of a group, Partition and restarts.

  \<^bold>\<open>Bounds.\<close> No fuel is used. Loops without a limit (\<open>ask_forever\<close>, the clerk's \<open>shardkv_loop\<close>) are
  \<open>partial_function (option)\<close>, and that they return is a theorem; the others are structural or have a
  termination proof. \<open>Shardkv_Clerk\<close> and \<open>Clerk_Loop\<close> take a finite plan of what the network does with
  each call; a plan that ends loses every later call.

  \<^bold>\<open>Composition.\<close> \<open>Kvraft_Clerk\<close> and \<open>Sharded_Store\<close> take a replicated service for one state machine that
  executes agreed requests one at a time. That this is what the replicas do rests on
  \<open>replicas_agree\<close>, for groups that agree on one log. Raft guarantees such a log except on the
  schedules of \<open>stale_reply_breaks_safety\<close>, so leader completeness is not a theorem here.

  \<^bold>\<open>Not modelled.\<close>
  \<^item> \<open>labgob/gob.go\<close> (reflection over Go types that only warns and forwards to \<open>encoding/gob\<close>),
    \<open>MakeService\<close> of \<open>rpc/rpc.go\<close> (reflection), \<open>callf\<close> of client ends.
  \<^item> \<open>tester\<close> apart from the persister and the groups, \<open>raft/server.go\<close>, \<open>raft/proxy.go\<close>, \<open>kvtest\<close>, \<open>*/test.go\<close>: the test
    harness: processes, sockets, annotations, statistics.
  \<^item> \<open>debug\<close>, \<open>main\<close>, and the rest of the console \<open>shardkv-demo\<close>: logging, process start-up, HTTP handlers.
  \<^item> Timing: timers fire at any time, so no bound in seconds is shown, and no liveness of elections.
\<close>

end
